(* ===== verification/Prelude.thy ===== *)
theory Prelude
  imports Main "HOL-Library.Word"
begin

text \<open>
  Shared foundation of the development: machine integers, the outcome monad in which
  kernel code is written, its weakest-precondition calculus, and little-endian loads and
  stores of words in byte arrays.

  A kernel function is a function of the state that ends in one of four ways.  It returns
  (\<open>Ok\<close>), it calls \<open>panic\<close>, which never returns (\<open>Panic\<close> with the message), it spins for ever
  because nobody else can run to change what it polls (\<open>Spin\<close>), or it gives the CPU away in
  \<open>swtch()\<close>: \<open>Swtch s k\<close> is the state at the moment of the context switch and the rest of the
  kernel thread, a function of the state in which the thread is resumed.
\<close>

unbundle bit_operations_syntax

section \<open>Machine integers\<close>

type_synonym byte = "8 word"
type_synonym u16 = "16 word"
type_synonym u32 = "32 word"
type_synonym u64 = "64 word"

text \<open>Memory is a byte array indexed by 64-bit addresses; a disk block or another fixed
  C array of bytes is indexed by a natural number.\<close>

type_synonym memory = "u64 \<Rightarrow> byte"
type_synonym block = "nat \<Rightarrow> byte"

section \<open>The outcome monad\<close>

datatype ('a, 's) outcome =
    Ok 'a 's
  | Panic string 's
  | Spin 's
  | Swtch 's "'s \<Rightarrow> ('a, 's) outcome"

type_synonym ('a, 's) comp = "'s \<Rightarrow> ('a, 's) outcome"

text \<open>Returning a value, panicking and spinning are the constructors themselves, as functions of
  the state.\<close>

abbreviation (input) return :: "'a \<Rightarrow> ('a, 's) comp" where
  "return \<equiv> Ok"

abbreviation (input) panic :: "string \<Rightarrow> ('a, 's) comp" where
  "panic \<equiv> Panic"

abbreviation (input) spin :: "('a, 's) comp" where
  "spin \<equiv> Spin"

definition swtch :: "(unit, 's) comp" where
  "swtch s = Swtch s (\<lambda>s'. Ok () s')"

primrec then_do :: "('a, 's) outcome \<Rightarrow> ('a \<Rightarrow> ('b, 's) comp) \<Rightarrow> ('b, 's) outcome" where
  "then_do (Ok a s) f = f a s"
| "then_do (Panic e s) f = Panic e s"
| "then_do (Spin s) f = Spin s"
| "then_do (Swtch s k) f = Swtch s (\<lambda>s'. then_do (k s') f)"

definition bind :: "('a, 's) comp \<Rightarrow> ('a \<Rightarrow> ('b, 's) comp) \<Rightarrow> ('b, 's) comp" where
  "bind m f = (\<lambda>s. then_do (m s) f)"

definition seq :: "('a, 's) comp \<Rightarrow> ('b, 's) comp \<Rightarrow> ('b, 's) comp" where
  "seq m k = bind m (\<lambda>_. k)"

definition gets :: "('s \<Rightarrow> 'a) \<Rightarrow> ('a, 's) comp" where
  "gets f = (\<lambda>s. Ok (f s) s)"

definition modify :: "('s \<Rightarrow> 's) \<Rightarrow> (unit, 's) comp" where
  "modify f = (\<lambda>s. Ok () (f s))"

definition whenM :: "bool \<Rightarrow> (unit, 's) comp \<Rightarrow> (unit, 's) comp" where
  "whenM c m = (if c then m else return ())"

definition panic_if :: "bool \<Rightarrow> string \<Rightarrow> (unit, 's) comp" where
  "panic_if c e = (if c then panic e else return ())"

fun forM :: "'i list \<Rightarrow> ('i \<Rightarrow> (unit, 's) comp) \<Rightarrow> (unit, 's) comp" where
  "forM [] f = return ()"
| "forM (x # xs) f = seq (f x) (forM xs f)"

lemma gets_apply [simp]: "gets f s = Ok (f s) s"
  by (simp add: gets_def)

lemma modify_apply [simp]: "modify f s = Ok () (f s)"
  by (simp add: modify_def)

lemma bind_apply [simp]: "bind m f s = then_do (m s) f"
  by (simp add: bind_def)

lemma seq_apply [simp]: "seq m k s = then_do (m s) (\<lambda>_. k)"
  by (simp add: seq_def)

lemma whenM_apply [simp]: "whenM c m s = (if c then m s else Ok () s)"
  by (simp add: whenM_def)

lemma panic_if_apply [simp]: "panic_if c e s = (if c then Panic e s else Ok () s)"
  by (simp add: panic_if_def)

text \<open>Inversion of a bind that returned: used to take a successful run apart.\<close>

lemma then_do_eq_Ok:
  "then_do r f = Ok b s'' \<longleftrightarrow> (\<exists>a s'. r = Ok a s' \<and> f a s' = Ok b s'')"
  by (cases r) auto

lemma bind_eq_Ok: "bind m f s = Ok b s'' \<longleftrightarrow> (\<exists>a s'. m s = Ok a s' \<and> f a s' = Ok b s'')"
  by (simp add: then_do_eq_Ok)

lemma seq_eq_Ok: "seq m k s = Ok b s'' \<longleftrightarrow> (\<exists>a s'. m s = Ok a s' \<and> k s' = Ok b s'')"
  by (simp add: then_do_eq_Ok)

lemma then_do_assoc: "then_do (then_do r f) g = then_do r (\<lambda>a s. then_do (f a s) g)"
  by (induction r) simp_all

lemma bind_assoc: "bind (bind m f) g = bind m (\<lambda>a. bind (f a) g)"
  by (rule ext) (simp add: then_do_assoc bind_def)

declare forM.simps(2) [simp del]

lemma forM_Cons_Ok: "f x s = Ok () s1 \<Longrightarrow> forM (x # xs) f s = forM xs f s1"
  by (simp add: forM.simps)

section \<open>Weakest preconditions\<close>

text \<open>\<open>wp m Q s\<close>: run from \<open>s\<close>, the code returns without giving up the CPU, and \<open>Q\<close> holds of its
  value and final state.  \<open>wlp m Q s\<close>: if it returns that way, \<open>Q\<close> holds.\<close>

named_theorems wp_intro \<open>total-correctness rules of kernel functions\<close>

definition wp :: "('a, 's) comp \<Rightarrow> ('a \<Rightarrow> 's \<Rightarrow> bool) \<Rightarrow> 's \<Rightarrow> bool" where
  "wp m Q s = (case m s of Ok a s' \<Rightarrow> Q a s' | _ \<Rightarrow> False)"

definition wlp :: "('a, 's) comp \<Rightarrow> ('a \<Rightarrow> 's \<Rightarrow> bool) \<Rightarrow> 's \<Rightarrow> bool" where
  "wlp m Q s = (case m s of Ok a s' \<Rightarrow> Q a s' | _ \<Rightarrow> True)"

lemma wp_iff: "wp m Q s \<longleftrightarrow> (\<exists>a s'. m s = Ok a s' \<and> Q a s')"
  by (auto simp: wp_def split: outcome.splits)

lemma wlp_iff: "wlp m Q s \<longleftrightarrow> (\<forall>a s'. m s = Ok a s' \<longrightarrow> Q a s')"
  by (auto simp: wlp_def split: outcome.splits)

lemma wpI: "m s = Ok a s' \<Longrightarrow> Q a s' \<Longrightarrow> wp m Q s"
  by (simp add: wp_def)

lemma wp_mono: "wp m Q s \<Longrightarrow> (\<And>a s'. Q a s' \<Longrightarrow> R a s') \<Longrightarrow> wp m R s"
  by (auto simp: wp_iff)

lemma wp_bind [simp]: "wp (bind m f) Q = wp m (\<lambda>a. wp (f a) Q)"
  by (rule ext) (auto simp: wp_iff then_do_eq_Ok)

lemma wp_seq [simp]: "wp (seq m k) Q = wp m (\<lambda>_. wp k Q)"
  by (simp add: seq_def)

lemma wp_return [simp]: "wp (return a) Q = Q a"
  by (rule ext) (simp add: wp_def)

lemma wp_gets [simp]: "wp (gets f) Q s = Q (f s) s"
  by (simp add: wp_def)

lemma wp_modify [simp]: "wp (modify g) Q s = Q () (g s)"
  by (simp add: wp_def)

lemma wp_no_return [simp]:
  "wp (panic e) Q s = False"
  "wp spin Q s = False"
  by (simp_all add: wp_def)

lemma wp_if [simp]: "wp (if c then m else n) Q s = (if c then wp m Q s else wp n Q s)"
  by simp

lemma wp_whenM [simp]: "wp (whenM c m) Q s = (if c then wp m Q s else Q () s)"
  by (simp add: whenM_def)

lemma wp_panic_if [simp]: "wp (panic_if c e) Q s = (\<not> c \<and> Q () s)"
  by (simp add: panic_if_def)

lemma wlp_bind [simp]: "wlp (bind m f) Q = wlp m (\<lambda>a. wlp (f a) Q)"
  by (rule ext) (auto simp: wlp_iff then_do_eq_Ok)

lemma wlp_seq [simp]: "wlp (seq m k) Q = wlp m (\<lambda>_. wlp k Q)"
  by (simp add: seq_def)

lemma wlp_return [simp]: "wlp (return a) Q = Q a"
  by (rule ext) (simp add: wlp_def)

lemma wlp_gets [simp]: "wlp (gets f) Q s = Q (f s) s"
  by (simp add: wlp_def)

lemma wlp_modify [simp]: "wlp (modify g) Q s = Q () (g s)"
  by (simp add: wlp_def)

lemma wlp_no_return [simp]:
  "wlp (panic e) Q s = True"
  "wlp spin Q s = True"
  by (simp_all add: wlp_def)

lemma wlp_whenM [simp]: "wlp (whenM c m) Q s = (if c then wlp m Q s else Q () s)"
  by (simp add: whenM_def)

lemma wlp_panic_if [simp]: "wlp (panic_if c e) Q s = (\<not> c \<longrightarrow> Q () s)"
  by (simp add: panic_if_def)

lemma wlp_mono: "wlp m Q s \<Longrightarrow> (\<And>a s'. Q a s' \<Longrightarrow> R a s') \<Longrightarrow> wlp m R s"
  by (auto simp: wlp_iff)

text \<open>A loop over a list, with an invariant indexed by what is left to do.\<close>

lemma wp_forM:
  assumes "I xs s"
    and "\<And>y ys s. I (y # ys) s \<Longrightarrow> wp (f y) (\<lambda>_. I ys) s"
  shows "wp (forM xs f) (\<lambda>_. I []) s"
  using assms(1)
proof (induction xs arbitrary: s)
  case Nil
  then show ?case by simp
next
  case (Cons x xs)
  have "wp (f x) (\<lambda>_. wp (forM xs f) (\<lambda>_. I [])) s"
    by (rule wp_mono [OF assms(2) [OF Cons.prems]]) (rule Cons.IH)
  then show ?case
    by (simp only: forM.simps wp_seq)
qed

section \<open>Threads that give up the CPU\<close>

text \<open>\<open>rg G R Q m s\<close>: run from \<open>s\<close>, the thread never panics; wherever it gives the CPU away the
  state satisfies \<open>G\<close>; and if every time it is resumed in a state related by \<open>R\<close> to the one
  it left, then \<open>Q\<close> holds when it returns.  A thread that spins or is never resumed
  satisfies it.\<close>

primrec rg_out ::
  "('s \<Rightarrow> bool) \<Rightarrow> ('s \<Rightarrow> 's \<Rightarrow> bool) \<Rightarrow> ('a \<Rightarrow> 's \<Rightarrow> bool) \<Rightarrow> ('a, 's) outcome \<Rightarrow> bool" where
  "rg_out G R Q (Ok a s) = Q a s"
| "rg_out G R Q (Panic e s) = False"
| "rg_out G R Q (Spin s) = True"
| "rg_out G R Q (Swtch s k) = (G s \<and> (\<forall>s'. R s s' \<longrightarrow> rg_out G R Q (k s')))"

definition rg ::
  "('s \<Rightarrow> bool) \<Rightarrow> ('s \<Rightarrow> 's \<Rightarrow> bool) \<Rightarrow> ('a, 's) comp \<Rightarrow> ('a \<Rightarrow> 's \<Rightarrow> bool) \<Rightarrow> 's \<Rightarrow> bool" where
  "rg G R m Q s = rg_out G R Q (m s)"

lemma rg_out_mono:
  "rg_out G R Q r \<Longrightarrow> (\<And>a s. Q a s \<Longrightarrow> Q' a s) \<Longrightarrow> rg_out G R Q' r"
  by (induction r) auto

lemma rg_mono: "rg G R m Q s \<Longrightarrow> (\<And>a s. Q a s \<Longrightarrow> Q' a s) \<Longrightarrow> rg G R m Q' s"
  unfolding rg_def by (rule rg_out_mono)

lemma rg_out_then_do: "rg_out G R Q (then_do r f) = rg_out G R (\<lambda>a s. rg_out G R Q (f a s)) r"
  by (induction r) simp_all

lemma rg_bind [simp]: "rg G R (bind m f) Q = rg G R m (\<lambda>a. rg G R (f a) Q)"
  by (rule ext) (simp add: rg_def [abs_def] rg_out_then_do)

lemma rg_seq [simp]: "rg G R (seq m k) Q = rg G R m (\<lambda>_. rg G R k Q)"
  by (simp add: seq_def)

lemma rg_return [simp]: "rg G R (return a) Q = Q a"
  by (rule ext) (simp add: rg_def)

lemma rg_gets [simp]: "rg G R (gets f) Q s = Q (f s) s"
  by (simp add: rg_def)

lemma rg_modify [simp]: "rg G R (modify g) Q s = Q () (g s)"
  by (simp add: rg_def)

lemma rg_panic [simp]: "rg G R (panic e) Q s = False"
  by (simp add: rg_def)

lemma rg_spin [simp]: "rg G R spin Q s = True"
  by (simp add: rg_def)

lemma rg_swtch [simp]: "rg G R swtch Q s = (G s \<and> (\<forall>s'. R s s' \<longrightarrow> Q () s'))"
  by (simp add: rg_def swtch_def)

lemma rg_whenM [simp]: "rg G R (whenM c m) Q s = (if c then rg G R m Q s else Q () s)"
  by (simp add: whenM_def)

lemma rg_panic_if [simp]: "rg G R (panic_if c e) Q s = (\<not> c \<and> Q () s)"
  by (simp add: panic_if_def)

lemma rg_of_wp: "wp m Q s \<Longrightarrow> rg G R m Q s"
  by (auto simp: wp_iff rg_def)

text \<open>\<open>leads R P m s\<close>: run from \<open>s\<close>, the thread reaches a context switch in a state with \<open>P\<close>, whichever of
  the states related by \<open>R\<close> it is resumed in at the switches before; at each of these
  there is such a state.\<close>

primrec leads_out :: "('s \<Rightarrow> 's \<Rightarrow> bool) \<Rightarrow> ('s \<Rightarrow> bool) \<Rightarrow> ('a, 's) outcome \<Rightarrow> bool" where
  "leads_out R P (Ok a s) = False"
| "leads_out R P (Panic e s) = False"
| "leads_out R P (Spin s) = False"
| "leads_out R P (Swtch s k) = (P s \<or> ((\<exists>s'. R s s') \<and> (\<forall>s'. R s s' \<longrightarrow> leads_out R P (k s'))))"

definition leads :: "('s \<Rightarrow> 's \<Rightarrow> bool) \<Rightarrow> ('s \<Rightarrow> bool) \<Rightarrow> ('a, 's) comp \<Rightarrow> 's \<Rightarrow> bool" where
  "leads R P m s = leads_out R P (m s)"

lemma leads_bind: "leads R P m s \<Longrightarrow> leads R P (bind m f) s"
proof -
  have "leads_out R P r \<Longrightarrow> leads_out R P (then_do r f)" for r
    by (induction r) auto
  then show "leads R P m s \<Longrightarrow> leads R P (bind m f) s" by (simp add: leads_def)
qed

lemma leads_apply: "m s = Ok a s' \<Longrightarrow> leads R P (bind m f) s = leads R P (f a) s'"
  by (simp add: leads_def)

text \<open>\<open>rt R m Q s\<close>: total correctness in an environment.  Run from \<open>s\<close>, the thread neither panics
  nor spins; at every context switch the environment can resume it in a state related by
  \<open>R\<close>, and whichever such state it picks, the thread goes on to return with \<open>Q\<close>.\<close>

primrec rt_out :: "('s \<Rightarrow> 's \<Rightarrow> bool) \<Rightarrow> ('a \<Rightarrow> 's \<Rightarrow> bool) \<Rightarrow> ('a, 's) outcome \<Rightarrow> bool" where
  "rt_out R Q (Ok a s) = Q a s"
| "rt_out R Q (Panic e s) = False"
| "rt_out R Q (Spin s) = False"
| "rt_out R Q (Swtch s k) = ((\<exists>s'. R s s') \<and> (\<forall>s'. R s s' \<longrightarrow> rt_out R Q (k s')))"

definition rt :: "('s \<Rightarrow> 's \<Rightarrow> bool) \<Rightarrow> ('a, 's) comp \<Rightarrow> ('a \<Rightarrow> 's \<Rightarrow> bool) \<Rightarrow> 's \<Rightarrow> bool" where
  "rt R m Q s = rt_out R Q (m s)"

lemma rt_out_mono: "rt_out R Q r \<Longrightarrow> (\<And>a s. Q a s \<Longrightarrow> Q' a s) \<Longrightarrow> rt_out R Q' r"
  by (induction r) auto

lemma rt_mono: "rt R m Q s \<Longrightarrow> (\<And>a s. Q a s \<Longrightarrow> Q' a s) \<Longrightarrow> rt R m Q' s"
  unfolding rt_def by (rule rt_out_mono)

lemma rt_out_then_do: "rt_out R Q (then_do r f) = rt_out R (\<lambda>a s. rt_out R Q (f a s)) r"
  by (induction r) simp_all

lemma rt_bind [simp]: "rt R (bind m f) Q = rt R m (\<lambda>a. rt R (f a) Q)"
  by (rule ext) (simp add: rt_def [abs_def] rt_out_then_do)

lemma rt_seq [simp]: "rt R (seq m k) Q = rt R m (\<lambda>_. rt R k Q)"
  by (simp add: seq_def)

lemma rt_return [simp]: "rt R (return a) Q = Q a"
  by (rule ext) (simp add: rt_def)

lemma rt_gets [simp]: "rt R (gets f) Q s = Q (f s) s"
  by (simp add: rt_def)

lemma rt_modify [simp]: "rt R (modify g) Q s = Q () (g s)"
  by (simp add: rt_def)

lemma rt_panic [simp]: "rt R (panic e) Q s = False"
  by (simp add: rt_def)

lemma rt_spin [simp]: "rt R spin Q s = False"
  by (simp add: rt_def)

lemma rt_whenM [simp]: "rt R (whenM c m) Q s = (if c then rt R m Q s else Q () s)"
  by (simp add: whenM_def)

lemma rt_panic_if [simp]: "rt R (panic_if c e) Q s = (\<not> c \<and> Q () s)"
  by (simp add: panic_if_def)

lemma rt_of_wp: "wp m Q s \<Longrightarrow> rt R m Q s"
  by (auto simp: wp_iff rt_def)

lemma rt_Ok: "m s = Ok a s' \<Longrightarrow> rt R m Q s = Q a s'"
  by (simp add: rt_def)

section \<open>Little-endian words in byte arrays\<close>

text \<open>\<open>le_load n f\<close> reads the \<open>n\<close> bytes \<open>f 0, f 1, ...\<close> as one word, least significant byte
  first; \<open>le_byte v i\<close> is byte \<open>i\<close> of \<open>v\<close>.\<close>

fun le_load :: "nat \<Rightarrow> (nat \<Rightarrow> byte) \<Rightarrow> 'w::len word" where
  "le_load 0 f = 0"
| "le_load (Suc n) f = ucast (f 0) OR push_bit 8 (le_load n (\<lambda>i. f (Suc i)))"

definition le_byte :: "'w::len word \<Rightarrow> nat \<Rightarrow> byte" where
  "le_byte v i = ucast (drop_bit (8 * i) v)"

lemma bit_le_load:
  "bit (le_load n f :: 'w::len word) k \<longleftrightarrow> k < LENGTH('w) \<and> k < 8 * n \<and> bit (f (k div 8)) (k mod 8)"
proof (induction n arbitrary: f k)
  case 0
  then show ?case by simp
next
  case (Suc n)
  show ?case
  proof (cases "k < 8")
    case True
    then show ?thesis
      by (auto simp: bit_or_iff bit_push_bit_iff bit_ucast_iff bit_imp_le_length dest: bit_imp_le_length)
  next
    case False
    then obtain j where k: "k = 8 + j"
      using le_Suc_ex not_less by blast
    have "\<not> bit (f 0) k"
      using False by (auto dest: bit_imp_le_length)
    then show ?thesis
      using k by (auto simp: Suc.IH bit_or_iff bit_push_bit_iff bit_ucast_iff div_add_self1)
  qed
qed

lemma bit_le_byte: "bit (le_byte (v :: 'w::len word) i) j \<longleftrightarrow> j < 8 \<and> bit v (8 * i + j)"
  by (auto simp: le_byte_def bit_ucast_iff bit_drop_bit_eq dest: bit_imp_le_length)

lemma le_load_le_byte:
  assumes "LENGTH('w::len) \<le> 8 * n"
  shows "le_load n (le_byte (v :: 'w word)) = v"
  using assms
  by (intro bit_word_eqI) (auto simp: bit_le_load bit_le_byte)

lemma le_load_cong: "(\<And>i. i < n \<Longrightarrow> f i = g i) \<Longrightarrow> le_load n f = (le_load n g :: 'w::len word)"
proof (induction n arbitrary: f g)
  case 0
  then show ?case by simp
next
  case (Suc n)
  have "le_load n (\<lambda>i. f (Suc i)) = (le_load n (\<lambda>i. g (Suc i)) :: 'w word)"
    by (rule Suc.IH) (rule Suc.prems, simp)
  then show ?case using Suc.prems[of 0] by simp
qed

lemma le_load_zero [simp]: "le_load n (\<lambda>_. 0) = 0"
  by (induction n) simp_all

text \<open>\<open>ld n m a\<close> is the \<open>n\<close>-byte word at address \<open>a\<close>; \<open>st n a v m\<close> stores \<open>v\<close> there.\<close>

definition ld :: "nat \<Rightarrow> memory \<Rightarrow> u64 \<Rightarrow> 'w::len word" where
  "ld n m a = le_load n (\<lambda>i. m (a + of_nat i))"

definition st :: "nat \<Rightarrow> u64 \<Rightarrow> 'w::len word \<Rightarrow> memory \<Rightarrow> memory" where
  "st n a v m = (\<lambda>x. if unat (x - a) < n then le_byte v (unat (x - a)) else m x)"

lemma unat_of_nat_u64: "i < 2 ^ 64 \<Longrightarrow> unat (of_nat i :: u64) = i"
  by (simp add: unat_of_nat)

lemma ld_st_same:
  assumes "LENGTH('w::len) \<le> 8 * n" "n \<le> 2 ^ 64"
  shows "ld n (st n a (v :: 'w word) m) a = v"
proof -
  have "ld n (st n a v m) a = (le_load n (le_byte v) :: 'w word)"
    unfolding ld_def using assms(2)
    by (intro le_load_cong) (simp add: st_def unat_of_nat_u64)
  then show ?thesis
    using assms(1) by (simp add: le_load_le_byte)
qed

lemma ld_cong:
  assumes "\<And>i. i < n \<Longrightarrow> m (a + of_nat i) = m' (a + of_nat i)"
  shows "ld n m a = (ld n m' a :: 'w::len word)"
  unfolding ld_def using assms by (rule le_load_cong)

lemma st_other: "\<not> unat (x - a) < n \<Longrightarrow> st n a v m x = m x"
  by (simp add: st_def)

end
