(* ===== verification/Types.thy ===== *)
theory Types
  imports Prelude
begin

text \<open>
  Data model of the kernel: the constants and macros of \<open>kernel/param.h\<close>, \<open>memlayout.h\<close>,
  \<open>riscv.h\<close>, \<open>fs.h\<close>, \<open>fcntl.h\<close> and \<open>stat.h\<close>, one record per C struct, and the record \<open>kstate\<close>
  that holds every global variable of the kernel together with physical memory and the
  devices.

  Conventions.  \<open>uint\<close>, \<open>ushort\<close> and \<open>uint64\<close> are words and wrap; a C \<open>short\<close> is a 16-bit word
  read with \<open>sint\<close> where the code compares it; a C \<open>int\<close> is a mathematical integer (signed
  overflow is undefined behaviour in C); an \<open>int\<close> used as a flag is a \<open>bool\<close>.  A fixed C
  array is a function of its index.  A pointer to an element of a kernel array (\<open>struct
  proc *\<close>, \<open>struct buf *\<close>, \<open>struct inode *\<close>, \<open>struct file *\<close>) is the element's index, and the
  null pointer is \<open>None\<close>; a physical or virtual address is a 64-bit word.
\<close>

section \<open>param.h\<close>

abbreviation (input) NPROC :: nat where "NPROC \<equiv> 64"
abbreviation (input) NCPU :: nat where "NCPU \<equiv> 8"
abbreviation (input) NOFILE :: nat where "NOFILE \<equiv> 16"
abbreviation (input) NFILE :: nat where "NFILE \<equiv> 100"
abbreviation (input) NINODE :: nat where "NINODE \<equiv> 50"
abbreviation (input) NDEV :: int where "NDEV \<equiv> 10"
abbreviation (input) ROOTDEV :: u32 where "ROOTDEV \<equiv> 1"
abbreviation (input) MAXARG :: nat where "MAXARG \<equiv> 32"
abbreviation (input) MAXOPBLOCKS :: int where "MAXOPBLOCKS \<equiv> 10"
abbreviation (input) LOGSIZE :: int where "LOGSIZE \<equiv> 30"
abbreviation (input) NBUF :: nat where "NBUF \<equiv> 30"
abbreviation (input) FSSIZE :: nat where "FSSIZE \<equiv> 1000"
abbreviation (input) MAXPATH :: nat where "MAXPATH \<equiv> 128"

section \<open>riscv.h: pages and page-table entries\<close>

abbreviation (input) PGSIZE :: u64 where "PGSIZE \<equiv> 4096"
abbreviation (input) PGSHIFT :: nat where "PGSHIFT \<equiv> 12"

definition PGROUNDUP :: "u64 \<Rightarrow> u64" where
  "PGROUNDUP sz = (sz + PGSIZE - 1) AND NOT (PGSIZE - 1)"

definition PGROUNDDOWN :: "u64 \<Rightarrow> u64" where
  "PGROUNDDOWN a = a AND NOT (PGSIZE - 1)"

abbreviation (input) PTE_V :: u64 where "PTE_V \<equiv> 1"
abbreviation (input) PTE_R :: u64 where "PTE_R \<equiv> 2"
abbreviation (input) PTE_W :: u64 where "PTE_W \<equiv> 4"
abbreviation (input) PTE_X :: u64 where "PTE_X \<equiv> 8"
abbreviation (input) PTE_U :: u64 where "PTE_U \<equiv> 16"

definition PA2PTE :: "u64 \<Rightarrow> u64" where
  "PA2PTE pa = push_bit 10 (drop_bit 12 pa)"

definition PTE2PA :: "u64 \<Rightarrow> u64" where
  "PTE2PA pte = push_bit 12 (drop_bit 10 pte)"

definition PTE_FLAGS :: "u64 \<Rightarrow> u64" where
  "PTE_FLAGS pte = pte AND 0x3FF"

definition PXSHIFT :: "nat \<Rightarrow> nat" where
  "PXSHIFT level = PGSHIFT + 9 * level"

definition PX :: "nat \<Rightarrow> u64 \<Rightarrow> u64" where
  "PX level va = drop_bit (PXSHIFT level) va AND 0x1FF"

abbreviation (input) MAXVA :: u64 where "MAXVA \<equiv> 0x4000000000"

definition MAKE_SATP :: "u64 \<Rightarrow> u64" where
  "MAKE_SATP pagetable = push_bit 60 8 OR drop_bit 12 pagetable"

abbreviation (input) SSTATUS_SPP :: u64 where "SSTATUS_SPP \<equiv> 0x100"
abbreviation (input) SSTATUS_SPIE :: u64 where "SSTATUS_SPIE \<equiv> 0x20"
abbreviation (input) SSTATUS_SIE :: u64 where "SSTATUS_SIE \<equiv> 2"

section \<open>memlayout.h\<close>

abbreviation (input) UART0 :: u64 where "UART0 \<equiv> 0x10000000"
abbreviation (input) UART0_IRQ :: int where "UART0_IRQ \<equiv> 10"
abbreviation (input) VIRTIO0 :: u64 where "VIRTIO0 \<equiv> 0x10001000"
abbreviation (input) VIRTIO0_IRQ :: int where "VIRTIO0_IRQ \<equiv> 1"
abbreviation (input) CLINT :: u64 where "CLINT \<equiv> 0x2000000"
abbreviation (input) PLIC :: u64 where "PLIC \<equiv> 0x0c000000"
abbreviation (input) KERNBASE :: u64 where "KERNBASE \<equiv> 0x80000000"
abbreviation (input) PHYSTOP :: u64 where "PHYSTOP \<equiv> 0x88000000"
abbreviation (input) TRAMPOLINE :: u64 where "TRAMPOLINE \<equiv> 0x3FFFFFF000"
abbreviation (input) TRAPFRAME :: u64 where "TRAPFRAME \<equiv> 0x3FFFFFE000"

definition KSTACK :: "nat \<Rightarrow> u64" where
  "KSTACK p = TRAMPOLINE - (of_nat p + 1) * 2 * PGSIZE"

section \<open>fs.h, stat.h, fcntl.h\<close>

abbreviation (input) ROOTINO :: u32 where "ROOTINO \<equiv> 1"
abbreviation (input) BSIZE :: nat where "BSIZE \<equiv> 1024"
abbreviation (input) FSMAGIC :: u32 where "FSMAGIC \<equiv> 0x10203040"
abbreviation (input) NDIRECT :: nat where "NDIRECT \<equiv> 12"
abbreviation (input) NINDIRECT :: nat where "NINDIRECT \<equiv> 256"
abbreviation (input) MAXFILE :: nat where "MAXFILE \<equiv> 268"
abbreviation (input) IPB :: nat where "IPB \<equiv> 16"
abbreviation (input) BPB :: nat where "BPB \<equiv> 8192"
abbreviation (input) DIRSIZ :: nat where "DIRSIZ \<equiv> 14"

abbreviation (input) T_DIR :: u16 where "T_DIR \<equiv> 1"
abbreviation (input) T_FILE :: u16 where "T_FILE \<equiv> 2"
abbreviation (input) T_DEVICE :: u16 where "T_DEVICE \<equiv> 3"

abbreviation (input) O_RDONLY :: u32 where "O_RDONLY \<equiv> 0"
abbreviation (input) O_WRONLY :: u32 where "O_WRONLY \<equiv> 1"
abbreviation (input) O_RDWR :: u32 where "O_RDWR \<equiv> 2"
abbreviation (input) O_CREATE :: u32 where "O_CREATE \<equiv> 0x200"
abbreviation (input) O_TRUNC :: u32 where "O_TRUNC \<equiv> 0x400"

record superblock =
  sb_magic :: u32
  sb_size :: u32
  sb_nblocks :: u32
  sb_ninodes :: u32
  sb_nlog :: u32
  sb_logstart :: u32
  sb_inodestart :: u32
  sb_bmapstart :: u32

record dinode =
  di_type :: u16
  di_major :: u16
  di_minor :: u16
  di_nlink :: u16
  di_size :: u32
  di_addrs :: "nat \<Rightarrow> u32"

record dirent =
  de_inum :: u16
  de_name :: "nat \<Rightarrow> byte"

definition IBLOCK :: "u32 \<Rightarrow> superblock \<Rightarrow> u32" where
  "IBLOCK i s = i div of_nat IPB + sb_inodestart s"

definition BBLOCK :: "u32 \<Rightarrow> superblock \<Rightarrow> u32" where
  "BBLOCK b s = b div of_nat BPB + sb_bmapstart s"

record stat =
  st_dev :: u32
  st_ino :: u32
  st_type :: u16
  st_nlink :: u16
  st_size :: u64

section \<open>Locks and CPUs: spinlock.h, sleeplock.h, proc.h\<close>

text \<open>Every \<open>struct spinlock\<close> object of the kernel has an identifier; the sleep-locks are the
  ones inside the buffers and the in-memory inodes.\<close>

datatype slid = SLbuf nat | SLinode nat

datatype lockid =
    LKmem | LPid | LProc nat | LTicks | LBcache | LLog | LIcache | LFtable | LCons
  | LUartTx | LPr | LVdisk | LPipe u64 | LSleep slid

record spinlock =
  locked :: bool
  lk_name :: string
  lk_cpu :: "nat option"

record sleeplock =
  sl_locked :: bool
  sl_name :: string
  sl_pid :: int

text \<open>Sleep channels are addresses of kernel objects.\<close>

datatype chan =
    ChProc nat | ChSleep slid | ChLog | ChTicks | ChPipeRead u64 | ChPipeWrite u64
  | ChCons | ChUart | ChDiskFree | ChBuf nat

record swcontext =
  cx_ra :: u64
  cx_sp :: u64
  cx_s :: "nat \<Rightarrow> u64"

record cpu =
  cpu_proc :: "nat option"
  cpu_context :: swcontext
  noff :: int
  intena :: bool

datatype procstate = UNUSED | SLEEPING | RUNNABLE | RUNNING | ZOMBIE

record proc =
  pstate :: procstate
  parent :: "nat option"
  pchan :: "chan option"
  killed :: bool
  xstate :: int
  pid :: int
  kstack :: u64
  psz :: u64
  pagetable :: u64
  trapframe :: u64
  pcontext :: swcontext
  ofile :: "nat \<Rightarrow> nat option"
  cwd :: "nat option"
  pname :: "nat \<Rightarrow> byte"

text \<open>The lock state: the contents of every spinlock, the \<open>cpus\<close> array, the hart this code
  runs on (register \<open>tp\<close>) and the \<open>sstatus\<close> register of every hart.\<close>

record lkstate =
  spinl :: "lockid \<Rightarrow> spinlock"
  cpus :: "nat \<Rightarrow> cpu"
  tp :: nat
  sstatus :: "nat \<Rightarrow> u64"

section \<open>Buffers, log, inodes, files, pipes: buf.h, log.c, file.h, pipe.c\<close>

record buf =
  b_valid :: bool
  b_disk :: bool
  b_dev :: u32
  b_blockno :: u32
  b_lock :: sleeplock
  b_refcnt :: u32
  b_prev :: nat
  b_next :: nat
  b_data :: block

record logheader =
  lh_n :: int
  lh_block :: "nat \<Rightarrow> u32"

record log =
  log_start :: u32
  log_size :: int
  outstanding :: int
  committing :: bool
  log_dev :: u32
  lh :: logheader

record inode =
  i_dev :: u32
  i_inum :: u32
  i_ref :: int
  i_lock :: sleeplock
  i_valid :: bool
  i_type :: u16
  i_major :: u16
  i_minor :: u16
  i_nlink :: u16
  i_size :: u32
  i_addrs :: "nat \<Rightarrow> u32"

datatype fdtype = FD_NONE | FD_PIPE | FD_INODE | FD_DEVICE

record filest =
  f_type :: fdtype
  f_ref :: int
  f_readable :: bool
  f_writable :: bool
  f_pipe :: u64
  f_ip :: "nat option"
  f_off :: u32
  f_major :: u16

abbreviation (input) PIPESIZE :: u32 where "PIPESIZE \<equiv> 512"

record pipe =
  pi_data :: "nat \<Rightarrow> byte"
  nread :: u32
  nwrite :: u32
  readopen :: bool
  writeopen :: bool

text \<open>\<open>struct devsw\<close> holds function pointers; the console is the only driver that installs
  any.\<close>

datatype devfn = DevConsole

record devsw =
  dev_read :: "devfn option"
  dev_write :: "devfn option"

section \<open>Console, uart and disk driver state\<close>

abbreviation (input) INPUT_BUF :: u32 where "INPUT_BUF \<equiv> 128"

record cons =
  cons_buf :: "nat \<Rightarrow> byte"
  cons_r :: u32
  cons_w :: u32
  cons_e :: u32

text \<open>The 16550 device: what it answers to the next reads of the line status register, the
  bytes waiting in the receive register, the bytes written to the transmit register so
  far, and the writes to its control registers.\<close>

record uart =
  uart_tx_buf :: "nat \<Rightarrow> byte"
  uart_tx_w :: int
  uart_tx_r :: int
  uart_lsr :: "byte list"
  uart_rhr :: "byte list"
  uart_thr :: "byte list"
  uart_ctl :: "(nat \<times> byte) list"

text \<open>The virtio disk: \<open>struct VRingDesc\<close>, the rings and \<open>struct disk\<close>.  An address handed to the
  device is represented by the object it points to: the request header \<open>buf0\<close> (its type and
  sector), the data of a buffer, or the status byte of a chain.\<close>

abbreviation (input) NUM :: nat where "NUM \<equiv> 8"

datatype vaddr = ANull | AHeader u32 u64 | AData nat | AStatus nat

record vdesc =
  d_addr :: vaddr
  d_len :: u32
  d_flags :: u16
  d_next :: u16

record vdisk =
  vdesc :: "nat \<Rightarrow> vdesc"
  avail_idx :: u16
  avail_ring :: "nat \<Rightarrow> u16"
  used_id :: u16
  used_elems :: "nat \<Rightarrow> u32"
  dfree :: "nat \<Rightarrow> bool"
  used_idx :: u16
  info_b :: "nat \<Rightarrow> nat option"
  info_status :: "nat \<Rightarrow> byte"

section \<open>The kernel state\<close>

text \<open>Symbols whose addresses the linker chooses.\<close>

record ksyms =
  k_end :: u64
  k_etext :: u64
  k_trampoline :: u64
  k_uservec :: u64
  k_userret :: u64
  k_kernelvec :: u64
  k_forkret :: u64
  k_usertrap :: u64
  k_main :: u64
  k_timervec :: u64
  k_mscratch0 :: u64
  k_disk_pages :: u64

record csrs =
  sepc :: u64
  scause :: u64
  stval :: u64
  stvec :: u64
  satp :: u64
  sip :: u64

record mcsrs =
  mhartid :: nat
  mstatus :: u64
  mepc :: u64
  medeleg :: u64
  mideleg :: u64
  mie :: u64
  mscratch :: u64
  mtvec :: u64
  sie :: u64

text \<open>Memory-mapped device registers: \<open>mmio_in\<close> is what reading one returns, \<open>mmio_out\<close> the
  sequence of writes.\<close>

record kstate =
  mem :: memory
  lks :: lkstate
  syms :: ksyms
  csr :: csrs
  plic_pending :: "int list"
  freelist :: u64
  kernel_pagetable :: u64
  procs :: "nat \<Rightarrow> proc"
  nextpid :: int
  initproc :: "nat option"
  ticks :: u32
  first_fork :: bool
  bufs :: "nat \<Rightarrow> buf"
  dblocks :: "u32 \<Rightarrow> block"
  dhist :: "(u32 \<times> block) list"
  logst :: log
  sb :: superblock
  inodes :: "nat \<Rightarrow> inode"
  files :: "nat \<Rightarrow> filest"
  devsws :: "nat \<Rightarrow> devsw"
  pipes :: "u64 \<Rightarrow> pipe"
  consst :: cons
  uartst :: uart
  vdiskst :: vdisk
  mcsr :: mcsrs
  mscratch0 :: "nat \<Rightarrow> u64"
  mmio_in :: "u64 \<Rightarrow> u64"
  mmio_out :: "(u64 \<times> u64) list"
  started :: bool
  pr_locking :: bool
  panicked :: bool
  wake_bound :: nat

text \<open>\<open>wake_bound\<close> is not a variable of the kernel: it bounds how often a loop of the form
  \<open>while(!condition) sleep(...)\<close> is woken in vain, and how many passes the endless loop of \<open>scheduler\<close>
  makes, before the model gives up on it (\<open>Spin\<close>).  No code changes it.  A theorem about a run in
  which a thread sleeps, or the scheduler makes a pass, assumes that it is positive and holds for
  every such value; the others hold for each value.\<close>

type_synonym 'a k = "('a, kstate) comp"

section \<open>A concrete state\<close>

text \<open>The state with every global variable, every byte of memory and every disk block zero, as
  the loader leaves the \<open>.bss\<close> section, on hart 0 with its interrupts on.  The examples start
  from it.\<close>

definition zero_context :: swcontext where
  "zero_context = \<lparr>cx_ra = 0, cx_sp = 0, cx_s = \<lambda>_. 0\<rparr>"

definition zero_sleeplock :: sleeplock where
  "zero_sleeplock = \<lparr>sl_locked = False, sl_name = [], sl_pid = 0\<rparr>"

definition zero_lks :: lkstate where
  "zero_lks = \<lparr>spinl = \<lambda>_. \<lparr>locked = False, lk_name = [], lk_cpu = None\<rparr>,
     cpus = \<lambda>_. \<lparr>cpu_proc = None, cpu_context = zero_context, noff = 0, intena = False\<rparr>,
     tp = 0, sstatus = \<lambda>_. SSTATUS_SIE\<rparr>"

definition zero_proc :: proc where
  "zero_proc = \<lparr>pstate = UNUSED, parent = None, pchan = None, killed = False, xstate = 0, pid = 0,
     kstack = 0, psz = 0, pagetable = 0, trapframe = 0, pcontext = zero_context,
     ofile = \<lambda>_. None, cwd = None, pname = \<lambda>_. 0\<rparr>"

definition zero_buf :: buf where
  "zero_buf = \<lparr>b_valid = False, b_disk = False, b_dev = 0, b_blockno = 0, b_lock = zero_sleeplock,
     b_refcnt = 0, b_prev = 0, b_next = 0, b_data = \<lambda>_. 0\<rparr>"

definition zero_inode :: inode where
  "zero_inode = \<lparr>i_dev = 0, i_inum = 0, i_ref = 0, i_lock = zero_sleeplock, i_valid = False,
     i_type = 0, i_major = 0, i_minor = 0, i_nlink = 0, i_size = 0, i_addrs = \<lambda>_. 0\<rparr>"

definition zero_file :: filest where
  "zero_file = \<lparr>f_type = FD_NONE, f_ref = 0, f_readable = False, f_writable = False, f_pipe = 0,
     f_ip = None, f_off = 0, f_major = 0\<rparr>"

definition zero_state :: kstate where
  "zero_state = \<lparr>mem = \<lambda>_. 0, lks = zero_lks,
     syms = \<lparr>k_end = 0x80026000, k_etext = 0x80008000, k_trampoline = 0x80007000,
       k_uservec = 0x80007000, k_userret = 0x80007090, k_kernelvec = 0x80005e10,
       k_forkret = 0x80001a00, k_usertrap = 0x80002700,
       k_main = 0x80000f00, k_timervec = 0x80005eb0, k_mscratch0 = 0x80009000, k_disk_pages = 0x80024000\<rparr>,
     csr = \<lparr>sepc = 0, scause = 0, stval = 0, stvec = 0, satp = 0, sip = 0\<rparr>,
     plic_pending = [], freelist = 0, kernel_pagetable = 0, procs = \<lambda>_. zero_proc, nextpid = 1,
     initproc = None, ticks = 0, first_fork = True, bufs = \<lambda>_. zero_buf,
     dblocks = \<lambda>_ _. 0, dhist = [],
     logst = \<lparr>log_start = 0, log_size = 0, outstanding = 0, committing = False, log_dev = 0,
       lh = \<lparr>lh_n = 0, lh_block = \<lambda>_. 0\<rparr>\<rparr>,
     sb = \<lparr>sb_magic = 0, sb_size = 0, sb_nblocks = 0, sb_ninodes = 0, sb_nlog = 0,
       sb_logstart = 0, sb_inodestart = 0, sb_bmapstart = 0\<rparr>,
     inodes = \<lambda>_. zero_inode, files = \<lambda>_. zero_file,
     devsws = \<lambda>_. \<lparr>dev_read = None, dev_write = None\<rparr>,
     pipes = \<lambda>_. \<lparr>pi_data = \<lambda>_. 0, nread = 0, nwrite = 0, readopen = False, writeopen = False\<rparr>,
     consst = \<lparr>cons_buf = \<lambda>_. 0, cons_r = 0, cons_w = 0, cons_e = 0\<rparr>,
     uartst = \<lparr>uart_tx_buf = \<lambda>_. 0, uart_tx_w = 0, uart_tx_r = 0, uart_lsr = [], uart_rhr = [],
       uart_thr = [], uart_ctl = []\<rparr>,
     vdiskst = \<lparr>vdesc = \<lambda>_. \<lparr>d_addr = ANull, d_len = 0, d_flags = 0, d_next = 0\<rparr>, avail_idx = 0,
       avail_ring = \<lambda>_. 0, used_id = 0, used_elems = \<lambda>_. 0, dfree = \<lambda>_. False, used_idx = 0,
       info_b = \<lambda>_. None, info_status = \<lambda>_. 0\<rparr>,
     mcsr = \<lparr>mhartid = 0, mstatus = 0, mepc = 0, medeleg = 0, mideleg = 0, mie = 0, mscratch = 0,
       mtvec = 0, sie = 0\<rparr>,
     mscratch0 = \<lambda>_. 0, mmio_in = \<lambda>_. 0, mmio_out = [], started = False,
     pr_locking = False, panicked = False, wake_bound = 0\<rparr>"

end
