(* ===== verification/Spinlock.thy ===== *)
theory Spinlock
  imports Types
begin

text \<open>
  \<open>kernel/spinlock.c\<close>, the interrupt-enable macros of \<open>riscv.h\<close> and the CPU lookups of
  \<open>proc.c\<close>.  The lock operations run on the kernel state; their effect is confined to the
  field \<open>lks\<close> and described by the pure functions \<open>lk_acq\<close>, \<open>lk_rel\<close> and \<open>lk_touch\<close>, so that a
  critical section \<open>acquire; body; release\<close> reduces to its body.  The second half is the
  interleaving of several harts inside \<open>acquire\<close> and \<open>release\<close>, one atomic action per step,
  and mutual exclusion.
\<close>

section \<open>Interrupt enable bit and CPU lookup\<close>

definition intr :: "lkstate \<Rightarrow> bool" where
  "intr l \<longleftrightarrow> sstatus l (tp l) AND SSTATUS_SIE \<noteq> 0"

definition intr_get :: "bool k" where
  "intr_get = gets (\<lambda>s. sstatus (lks s) (tp (lks s)) AND SSTATUS_SIE \<noteq> 0)"

definition set_sstatus :: "(u64 \<Rightarrow> u64) \<Rightarrow> lkstate \<Rightarrow> lkstate" where
  "set_sstatus f l = l\<lparr>sstatus := (sstatus l)(tp l := f (sstatus l (tp l)))\<rparr>"

definition intr_on :: "unit k" where
  "intr_on = modify (\<lambda>s. s\<lparr>lks := set_sstatus (\<lambda>x. x OR SSTATUS_SIE) (lks s)\<rparr>)"

definition intr_off :: "unit k" where
  "intr_off = modify (\<lambda>s. s\<lparr>lks := set_sstatus (\<lambda>x. x AND NOT SSTATUS_SIE) (lks s)\<rparr>)"

definition cpuid :: "nat k" where
  "cpuid = gets (\<lambda>s. tp (lks s))"

definition mycpu :: "nat k" where
  "mycpu = bind cpuid (\<lambda>id. return id)"

definition upd_cpu :: "nat \<Rightarrow> (cpu \<Rightarrow> cpu) \<Rightarrow> lkstate \<Rightarrow> lkstate" where
  "upd_cpu c f l = l\<lparr>cpus := (cpus l)(c := f (cpus l c))\<rparr>"

definition upd_spin :: "lockid \<Rightarrow> (spinlock \<Rightarrow> spinlock) \<Rightarrow> lkstate \<Rightarrow> lkstate" where
  "upd_spin L f l = l\<lparr>spinl := (spinl l)(L := f (spinl l L))\<rparr>"

section \<open>spinlock.c\<close>

definition initlock :: "lockid \<Rightarrow> string \<Rightarrow> unit k" where
  "initlock L nm = modify (\<lambda>s. s\<lparr>lks := upd_spin L
     (\<lambda>k. k\<lparr>lk_name := nm, locked := False, lk_cpu := None\<rparr>) (lks s)\<rparr>)"

definition holding :: "lockid \<Rightarrow> bool k" where
  "holding L = bind mycpu (\<lambda>c. gets (\<lambda>s.
     locked (spinl (lks s) L) \<and> lk_cpu (spinl (lks s) L) = Some c))"

definition push_off :: "unit k" where
  "push_off =
     bind intr_get (\<lambda>old.
     seq intr_off (
     bind mycpu (\<lambda>c.
     bind (gets (\<lambda>s. noff (cpus (lks s) c))) (\<lambda>n.
     seq (whenM (n = 0) (modify (\<lambda>s. s\<lparr>lks := upd_cpu c (\<lambda>k. k\<lparr>intena := old\<rparr>) (lks s)\<rparr>)))
         (modify (\<lambda>s. s\<lparr>lks := upd_cpu c (\<lambda>k. k\<lparr>noff := noff k + 1\<rparr>) (lks s)\<rparr>))))))"

definition pop_off :: "unit k" where
  "pop_off =
     bind mycpu (\<lambda>c.
     bind intr_get (\<lambda>on.
     seq (panic_if on ''pop_off - interruptible'') (
     bind (gets (\<lambda>s. noff (cpus (lks s) c))) (\<lambda>n.
     seq (panic_if (n < 1) ''pop_off'') (
     seq (modify (\<lambda>s. s\<lparr>lks := upd_cpu c (\<lambda>k. k\<lparr>noff := noff k - 1\<rparr>) (lks s)\<rparr>)) (
     bind (gets (\<lambda>s. noff (cpus (lks s) c) = 0 \<and> intena (cpus (lks s) c))) (\<lambda>b.
     whenM b intr_on)))))))"

text \<open>The swap loop of \<open>acquire\<close>: the swap stores 1 and returns the old value, and the loop
  ends when that was 0.  Run alone, a hart that finds 1 spins for ever.\<close>

definition acquire_swap :: "lockid \<Rightarrow> unit k" where
  "acquire_swap L = bind (gets (\<lambda>s. locked (spinl (lks s) L))) (\<lambda>old.
     seq (modify (\<lambda>s. s\<lparr>lks := upd_spin L (\<lambda>k. k\<lparr>locked := True\<rparr>) (lks s)\<rparr>))
         (if old then spin else return ()))"

definition acquire :: "lockid \<Rightarrow> unit k" where
  "acquire L =
     seq push_off (
     bind (holding L) (\<lambda>h.
     seq (panic_if h ''acquire'') (
     seq (acquire_swap L) (
     bind mycpu (\<lambda>c.
     modify (\<lambda>s. s\<lparr>lks := upd_spin L (\<lambda>k. k\<lparr>lk_cpu := Some c\<rparr>) (lks s)\<rparr>))))))"

definition release :: "lockid \<Rightarrow> unit k" where
  "release L =
     bind (holding L) (\<lambda>h.
     seq (panic_if (\<not> h) ''release'') (
     seq (modify (\<lambda>s. s\<lparr>lks := upd_spin L (\<lambda>k. k\<lparr>lk_cpu := None\<rparr>) (lks s)\<rparr>)) (
     seq (modify (\<lambda>s. s\<lparr>lks := upd_spin L (\<lambda>k. k\<lparr>locked := False\<rparr>) (lks s)\<rparr>))
     pop_off)))"

text \<open>\<open>myproc\<close> brackets its read of \<open>c->proc\<close> with \<open>push_off\<close> and \<open>pop_off\<close>.\<close>

definition myproc :: "nat option k" where
  "myproc =
     seq push_off (
     bind mycpu (\<lambda>c.
     bind (gets (\<lambda>s. cpu_proc (cpus (lks s) c))) (\<lambda>p.
     seq pop_off (return p))))"

section \<open>The effect on the lock state\<close>

abbreviation curcpu :: "lkstate \<Rightarrow> cpu" where
  "curcpu l \<equiv> cpus l (tp l)"

definition lk_ok :: "lkstate \<Rightarrow> bool" where
  "lk_ok l \<longleftrightarrow> 0 \<le> noff (curcpu l) \<and> (0 < noff (curcpu l) \<longrightarrow> \<not> intr l)
     \<and> (\<forall>L. \<not> locked (spinl l L) \<longrightarrow> lk_cpu (spinl l L) = None)"

definition lk_push :: "lkstate \<Rightarrow> lkstate" where
  "lk_push l = upd_cpu (tp l)
     (\<lambda>c. c\<lparr>intena := (if noff c = 0 then intr l else intena c), noff := noff c + 1\<rparr>)
     (set_sstatus (\<lambda>x. x AND NOT SSTATUS_SIE) l)"

definition lk_touch :: "lkstate \<Rightarrow> lkstate" where
  "lk_touch l = upd_cpu (tp l)
     (\<lambda>c. c\<lparr>intena := (if noff c = 0 then intr l else intena c)\<rparr>) l"

definition lk_acq :: "lockid \<Rightarrow> lkstate \<Rightarrow> lkstate" where
  "lk_acq L l = upd_spin L (\<lambda>k. k\<lparr>locked := True, lk_cpu := Some (tp l)\<rparr>) (lk_push l)"

definition lk_pop :: "lkstate \<Rightarrow> lkstate" where
  "lk_pop l =
     (let l2 = upd_cpu (tp l) (\<lambda>k. k\<lparr>noff := noff k - 1\<rparr>) l
      in if noff (curcpu l2) = 0 \<and> intena (curcpu l2)
         then set_sstatus (\<lambda>x. x OR SSTATUS_SIE) l2 else l2)"

definition lk_rel :: "lockid \<Rightarrow> lkstate \<Rightarrow> lkstate" where
  "lk_rel L l = lk_pop (upd_spin L (\<lambda>k. k\<lparr>lk_cpu := None, locked := False\<rparr>) l)"

definition free_lk :: "lockid \<Rightarrow> kstate \<Rightarrow> bool" where
  "free_lk L s \<longleftrightarrow> \<not> locked (spinl (lks s) L)"

lemmas lk_defs = intr_def set_sstatus_def upd_cpu_def upd_spin_def lk_push_def lk_touch_def
  lk_acq_def

lemma sie_off [simp]: "(x AND (- 3 :: u64)) AND 2 = 0"
  by (simp add: and.assoc)

lemma sie_on [simp]: "(x OR (2 :: u64)) AND 2 = 2"
  by (intro bit_word_eqI) (auto simp: bit_and_iff bit_or_iff)

lemma sie_restore:
  assumes "x AND (2 :: u64) \<noteq> 0"
  shows "(x AND - 3) OR 2 = x"
proof -
  have "bit x 1"
    using assms and_exp_eq_0_iff_not_bit [of x 1] by simp
  then have "(x AND NOT 2) OR 2 = x"
    by (intro bit_word_eqI) (auto simp: bit_or_iff bit_and_iff bit_not_iff bit_simps)
  then show ?thesis by simp
qed

lemma sie_clear:
  assumes "x AND (2 :: u64) = 0"
  shows "x AND - 3 = x"
proof -
  have b: "\<not> bit x 1"
    using assms and_exp_eq_0_iff_not_bit [of x 1] by simp
  have "x AND NOT 2 = x"
  proof (rule bit_word_eqI)
    fix n assume n: "n < LENGTH(64)"
    show "bit (x AND NOT 2) n = bit x n"
      using b n by (cases "n = 1") (auto simp: bit_and_iff bit_not_iff bit_simps)
  qed
  then show ?thesis by simp
qed

lemma push_off_Ok: "push_off s = Ok () (s\<lparr>lks := lk_push (lks s)\<rparr>)"
  by (cases "noff (curcpu (lks s)) = 0")
     (simp_all add: push_off_def intr_get_def intr_off_def mycpu_def cpuid_def lk_defs)

lemma pop_off_eq:
  "pop_off s =
     (if intr (lks s) then Panic ''pop_off - interruptible'' s
      else if noff (curcpu (lks s)) < 1 then Panic ''pop_off'' s
      else Ok () (s\<lparr>lks := lk_pop (lks s)\<rparr>))"
  by (simp add: pop_off_def intr_get_def intr_on_def mycpu_def cpuid_def lk_pop_def Let_def lk_defs)

lemma acquire_Ok:
  assumes "free_lk L s"
  shows "acquire L s = Ok () (s\<lparr>lks := lk_acq L (lks s)\<rparr>)"
  using assms
  by (simp add: acquire_def push_off_Ok holding_def acquire_swap_def mycpu_def cpuid_def free_lk_def
      panic_if_def lk_defs)

lemma touch_fields [simp]:
  "spinl (lk_touch l) = spinl l" "tp (lk_touch l) = tp l" "sstatus (lk_touch l) = sstatus l"
  "noff (cpus (lk_touch l) c) = noff (cpus l c)"
  "cpu_proc (cpus (lk_touch l) c) = cpu_proc (cpus l c)"
  "intr (lk_touch l) = intr l"
  by (auto simp: lk_defs)

lemma lk_ok_touch [simp]: "lk_ok (lk_touch l) = lk_ok l"
  by (simp add: lk_ok_def)

lemma lk_touch_touch [simp]: "lk_touch (lk_touch l) = lk_touch l"
  by (simp add: lk_touch_def upd_cpu_def intr_def)

lemma lk_touch_held [simp]: "0 < noff (curcpu l) \<Longrightarrow> lk_touch l = l"
  by (simp add: lk_touch_def upd_cpu_def)

lemma acq_fields [simp]:
  "tp (lk_acq L l) = tp l"
  "noff (cpus (lk_acq L l) (tp l)) = noff (curcpu l) + 1"
  "cpu_proc (cpus (lk_acq L l) c) = cpu_proc (cpus l c)"
  "locked (spinl (lk_acq L l) M) = (M = L \<or> locked (spinl l M))"
  "lk_cpu (spinl (lk_acq L l) L) = Some (tp l)"
  "\<not> intr (lk_acq L l)"
  by (auto simp: lk_defs)

lemma acq_lk_cpu [simp]: "M \<noteq> L \<Longrightarrow> spinl (lk_acq L l) M = spinl l M"
  by (simp add: lk_defs)

lemma lk_ok_acq [simp]: "lk_ok l \<Longrightarrow> lk_ok (lk_acq L l)"
  by (auto simp: lk_ok_def)

lemma lk_touch_acq [simp]: "lk_ok l \<Longrightarrow> lk_touch (lk_acq L l) = lk_acq L l"
  by (rule lk_touch_held) (simp add: lk_ok_def)

lemma release_eq:
  assumes "locked (spinl (lks s) L)" "lk_cpu (spinl (lks s) L) = Some (tp (lks s))"
    and "\<not> intr (lks s)" "1 \<le> noff (curcpu (lks s))"
  shows "release L s = Ok () (s\<lparr>lks := lk_rel L (lks s)\<rparr>)"
  using assms
  by (simp add: release_def holding_def pop_off_eq mycpu_def cpuid_def lk_rel_def lk_defs)

lemma lk_rel_acq:
  assumes "lk_ok l" "\<not> locked (spinl l L)"
  shows "lk_rel L (lk_acq L l) = lk_touch l"
proof (rule lkstate.equality)
  have "lk_cpu (spinl l L) = None" and "0 \<le> noff (curcpu l)" and
    off: "0 < noff (curcpu l) \<Longrightarrow> sstatus l (tp l) AND 2 = 0"
    using assms by (auto simp: lk_ok_def intr_def)
  then show "sstatus (lk_rel L (lk_acq L l)) = sstatus (lk_touch l)"
    by (auto simp: lk_rel_def lk_pop_def Let_def lk_defs sie_restore sie_clear fun_eq_iff)
  show "spinl (lk_rel L (lk_acq L l)) = spinl (lk_touch l)"
    using assms \<open>lk_cpu (spinl l L) = None\<close>
    by (auto simp: lk_rel_def lk_pop_def Let_def lk_defs fun_eq_iff)
qed (auto simp: lk_rel_def lk_pop_def Let_def lk_defs fun_eq_iff)

lemma release_Ok:
  assumes "lk_ok l" "\<not> locked (spinl l L)" "lks s1 = lk_acq L l"
  shows "release L s1 = Ok () (s1\<lparr>lks := lk_touch l\<rparr>)"
proof -
  have "0 \<le> noff (curcpu l)" using assms by (simp add: lk_ok_def)
  then show ?thesis
    using assms by (simp add: release_eq lk_rel_acq)
qed

lemma cpu_noff_idem: "noff c = 0 \<Longrightarrow> c\<lparr>intena := b, noff := 0\<rparr> = c\<lparr>intena := b\<rparr>"
  by (rule cpu.equality) simp_all

text \<open>A matched \<open>push_off\<close>/\<open>pop_off\<close> pair, as in \<open>myproc\<close>.\<close>

lemma pop_off_push:
  assumes "lk_ok l" "lks s1 = lk_push l"
  shows "pop_off s1 = Ok () (s1\<lparr>lks := lk_touch l\<rparr>)"
proof -
  have "0 \<le> noff (curcpu l)" and
    off: "0 < noff (curcpu l) \<Longrightarrow> sstatus l (tp l) AND 2 = 0"
    using assms by (auto simp: lk_ok_def intr_def)
  then show ?thesis
    using assms(2)
    by (cases "noff (curcpu l) = 0")
       (auto simp: pop_off_eq lk_pop_def Let_def lk_defs
         sie_restore sie_clear fun_upd_idem cpu_noff_idem)
qed

lemma myproc_Ok:
  assumes "lk_ok (lks s)"
  shows "myproc s = Ok (cpu_proc (curcpu (lks s))) (s\<lparr>lks := lk_touch (lks s)\<rparr>)"
  using assms
  by (simp add: myproc_def push_off_Ok mycpu_def cpuid_def pop_off_push [of "lks s"])
     (simp add: lk_push_def upd_cpu_def set_sstatus_def)

section \<open>Several harts and one lock\<close>

text \<open>
  Each hart runs \<open>acquire(lk); ...; release(lk)\<close> over and over; a step is one atomic action
  of one hart, computed by the definitions above with \<open>tp\<close> set to that hart.  \<open>Swap\<close> is the
  swap loop, \<open>Got\<close> is after a successful swap and before \<open>lk->cpu\<close> is written, \<open>Crit\<close> is the
  critical section, \<open>Clear\<close>, \<open>Unlock\<close> and \<open>Pop\<close> are the steps of \<open>release\<close>.
\<close>

datatype lpc = Out | Swap | Got | Crit | Clear | Unlock | Pop | Panicked

definition on :: "nat \<Rightarrow> kstate \<Rightarrow> kstate" where
  "on h s = s\<lparr>lks := (lks s)\<lparr>tp := h\<rparr>\<rparr>"

inductive spin_step :: "lockid \<Rightarrow> kstate \<times> (nat \<Rightarrow> lpc) \<Rightarrow> kstate \<times> (nat \<Rightarrow> lpc) \<Rightarrow> bool"
  for L where
  enter: "pc h = Out \<Longrightarrow> seq push_off (holding L) (on h s) = Ok b s1 \<Longrightarrow>
     spin_step L (s, pc) (s1, pc(h := if b then Panicked else Swap))"
| swap_got: "pc h = Swap \<Longrightarrow> acquire_swap L (on h s) = Ok () s1 \<Longrightarrow>
     spin_step L (s, pc) (s1, pc(h := Got))"
| swap_spin: "pc h = Swap \<Longrightarrow> acquire_swap L (on h s) = Spin s1 \<Longrightarrow>
     spin_step L (s, pc) (s1, pc)"
| set_cpu: "pc h = Got \<Longrightarrow>
     spin_step L (s, pc)
       ((on h s)\<lparr>lks := upd_spin L (\<lambda>k. k\<lparr>lk_cpu := Some h\<rparr>) (lks (on h s))\<rparr>, pc(h := Crit))"
| rel_check: "pc h = Crit \<Longrightarrow> holding L (on h s) = Ok b s1 \<Longrightarrow>
     spin_step L (s, pc) (s1, pc(h := if b then Clear else Panicked))"
| rel_clear: "pc h = Clear \<Longrightarrow>
     spin_step L (s, pc)
       ((on h s)\<lparr>lks := upd_spin L (\<lambda>k. k\<lparr>lk_cpu := None\<rparr>) (lks (on h s))\<rparr>, pc(h := Unlock))"
| rel_unlock: "pc h = Unlock \<Longrightarrow>
     spin_step L (s, pc)
       ((on h s)\<lparr>lks := upd_spin L (\<lambda>k. k\<lparr>locked := False\<rparr>) (lks (on h s))\<rparr>, pc(h := Pop))"
| rel_pop: "pc h = Pop \<Longrightarrow> pop_off (on h s) = Ok () s1 \<Longrightarrow>
     spin_step L (s, pc) (s1, pc(h := Out))"
| rel_pop_panic: "pc h = Pop \<Longrightarrow> pop_off (on h s) = Panic e s1 \<Longrightarrow>
     spin_step L (s, pc) (s1, pc(h := Panicked))"

inductive_cases spin_stepE: "spin_step L (s, pc) (s', pc')"

inductive spin_reach :: "lockid \<Rightarrow> kstate \<Rightarrow> kstate \<times> (nat \<Rightarrow> lpc) \<Rightarrow> bool" for L s0 where
  start: "spin_reach L s0 (s0, \<lambda>_. Out)"
| step: "spin_reach L s0 c \<Longrightarrow> spin_step L c d \<Longrightarrow> spin_reach L s0 d"

definition owns :: "lpc \<Rightarrow> bool" where
  "owns p \<longleftrightarrow> p = Got \<or> p = Crit \<or> p = Clear \<or> p = Unlock"

definition hart_ok :: "lkstate \<Rightarrow> nat \<Rightarrow> lpc \<Rightarrow> bool" where
  "hart_ok l h p \<longleftrightarrow> p \<noteq> Panicked
     \<and> 0 \<le> noff (cpus l h) \<and> (p \<noteq> Out \<longrightarrow> 1 \<le> noff (cpus l h))
     \<and> (0 < noff (cpus l h) \<longrightarrow> sstatus l h AND SSTATUS_SIE = 0)"

definition spin_inv :: "lockid \<Rightarrow> kstate \<times> (nat \<Rightarrow> lpc) \<Rightarrow> bool" where
  "spin_inv L = (\<lambda>(s, pc).
     (\<forall>h. hart_ok (lks s) h (pc h))
     \<and> (\<forall>h. owns (pc h) \<longrightarrow> locked (spinl (lks s) L))
     \<and> (\<forall>h h'. owns (pc h) \<longrightarrow> owns (pc h') \<longrightarrow> h = h')
     \<and> (\<forall>h. lk_cpu (spinl (lks s) L) = Some h \<longleftrightarrow> pc h = Crit \<or> pc h = Clear))"

lemmas spin_exec = push_off_Ok holding_def mycpu_def cpuid_def on_def lk_push_def upd_cpu_def
  upd_spin_def set_sstatus_def intr_def acquire_swap_def

lemma spin_invD:
  assumes "spin_inv L (s, pc)"
  shows "hart_ok (lks s) g (pc g)" "owns (pc g) \<Longrightarrow> locked (spinl (lks s) L)"
    "owns (pc g) \<Longrightarrow> owns (pc g') \<Longrightarrow> g = g'"
    "lk_cpu (spinl (lks s) L) = Some g \<longleftrightarrow> pc g = Crit \<or> pc g = Clear"
  using assms by (auto simp: spin_inv_def)

text \<open>A step of hart \<open>h\<close> keeps the invariant if it leaves the other harts alone and the new
  lock contents agree with the new program counter.\<close>

lemma spin_inv_upd:
  assumes inv: "spin_inv L (s, pc)"
    and "hart_ok (lks s') h p"
    and frame: "\<And>g. g \<noteq> h \<Longrightarrow> cpus (lks s') g = cpus (lks s) g \<and> sstatus (lks s') g = sstatus (lks s) g"
    and "owns (pc h) \<or> \<not> locked (spinl (lks s) L)
           \<or> \<not> owns p \<and> locked (spinl (lks s') L) = locked (spinl (lks s) L)"
    and "owns p \<Longrightarrow> locked (spinl (lks s') L)"
    and cpu: "lk_cpu (spinl (lks s') L) = (if p = Crit \<or> p = Clear then Some h
           else if pc h = Crit \<or> pc h = Clear then None else lk_cpu (spinl (lks s) L))"
  shows "spin_inv L (s', pc(h := p))"
proof -
  note D = spin_invD [OF inv]
  have other: "locked (spinl (lks s') L) \<and> \<not> owns p" if "g \<noteq> h" "owns (pc g)" for g
    using assms(4) D(2) [of g] D(3) [of g h] that by auto
  have "hart_ok (lks s') g ((pc(h := p)) g)" for g
    using assms(2) frame [of g] D(1) [of g] by (cases "g = h") (simp_all add: hart_ok_def)
  moreover have "lk_cpu (spinl (lks s') L) = Some g \<longleftrightarrow> (pc(h := p)) g = Crit \<or> (pc(h := p)) g = Clear" for g
  proof (cases "g = h")
    case True
    then show ?thesis using cpu D(4) [of h] by simp
  next
    case False
    then show ?thesis
      using other [of g] cpu D(4) [of g] D(3) [of h g] by (auto simp: owns_def)
  qed
  moreover have "locked (spinl (lks s') L)" if "owns ((pc(h := p)) g)" for g
    using that other [of g] assms(5) by (cases "g = h") auto
  moreover have "g = g'" if "owns ((pc(h := p)) g)" "owns ((pc(h := p)) g')" for g g'
    using that other [of g] other [of g'] D(3) [of g g']
    by (cases "g = h"; cases "g' = h") auto
  ultimately show ?thesis
    unfolding spin_inv_def by blast
qed

lemma pop_fields [simp]:
  "spinl (lk_pop l) = spinl l"
  "g \<noteq> tp l \<Longrightarrow> cpus (lk_pop l) g = cpus l g"
  "g \<noteq> tp l \<Longrightarrow> sstatus (lk_pop l) g = sstatus l g"
  "noff (cpus (lk_pop l) (tp l)) = noff (curcpu l) - 1"
  "noff (curcpu l) \<noteq> 1 \<Longrightarrow> sstatus (lk_pop l) = sstatus l"
  by (auto simp: lk_pop_def Let_def lk_defs)

lemma spin_step_inv: "spin_step L c d \<Longrightarrow> spin_inv L c \<Longrightarrow> spin_inv L d"
proof (induction rule: spin_step.induct)
  case (enter pc h s b s1)
  note D = spin_invD [OF enter.prems, of h]
  have "\<not> b" and s1: "s1 = s\<lparr>lks := lk_push (lks s\<lparr>tp := h\<rparr>)\<rparr>"
    using enter.hyps D by (auto simp: push_off_Ok holding_def mycpu_def cpuid_def on_def
        lk_push_def upd_cpu_def set_sstatus_def)
  with enter D show ?case
    by (intro spin_inv_upd [OF enter.prems]) (simp_all add: lk_push_def upd_cpu_def set_sstatus_def hart_ok_def owns_def)
next
  case (swap_got pc h s s1)
  note D = spin_invD [OF swap_got.prems, of h]
  have "\<not> locked (spinl (lks s) L)" and
    "s1 = s\<lparr>lks := upd_spin L (\<lambda>k. k\<lparr>locked := True\<rparr>) (lks s\<lparr>tp := h\<rparr>)\<rparr>"
    using swap_got.hyps by (simp_all add: acquire_swap_def on_def split: if_splits)
  with swap_got D show ?case
    by (intro spin_inv_upd [OF swap_got.prems]) (simp_all add: upd_spin_def hart_ok_def)
next
  case (swap_spin pc h s s1)
  note D = spin_invD [OF swap_spin.prems, of h]
  have "locked (spinl (lks s) L)" and
    "s1 = s\<lparr>lks := upd_spin L (\<lambda>k. k\<lparr>locked := True\<rparr>) (lks s\<lparr>tp := h\<rparr>)\<rparr>"
    using swap_spin.hyps by (simp_all add: acquire_swap_def on_def split: if_splits)
  with swap_spin D have "spin_inv L (s1, pc(h := Swap))"
    by (intro spin_inv_upd [OF swap_spin.prems]) (simp_all add: upd_spin_def hart_ok_def owns_def)
  with swap_spin.hyps show ?case by (simp add: fun_upd_idem)
next
  case (set_cpu pc h s)
  note D = spin_invD [OF set_cpu.prems, of h]
  from set_cpu D show ?case
    by (intro spin_inv_upd [OF set_cpu.prems]) (simp_all add: upd_spin_def on_def hart_ok_def owns_def)
next
  case (rel_check pc h s b s1)
  note D = spin_invD [OF rel_check.prems, of h]
  have "b" "s1 = on h s"
    using rel_check.hyps D by (auto simp: holding_def mycpu_def cpuid_def on_def owns_def)
  with rel_check D show ?case
    by (intro spin_inv_upd [OF rel_check.prems]) (simp_all add: on_def hart_ok_def owns_def)
next
  case (rel_clear pc h s)
  note D = spin_invD [OF rel_clear.prems, of h]
  from rel_clear D show ?case
    by (intro spin_inv_upd [OF rel_clear.prems]) (simp_all add: upd_spin_def on_def hart_ok_def owns_def)
next
  case (rel_unlock pc h s)
  note D = spin_invD [OF rel_unlock.prems, of h]
  from rel_unlock D show ?case
    by (intro spin_inv_upd [OF rel_unlock.prems]) (simp_all add: upd_spin_def on_def hart_ok_def owns_def)
next
  case (rel_pop pc h s s1)
  let ?l = "lks s\<lparr>tp := h\<rparr>"
  note D = spin_invD [OF rel_pop.prems, of h]
  have s1: "s1 = s\<lparr>lks := lk_pop ?l\<rparr>"
    using rel_pop.hyps by (simp add: pop_off_eq on_def split: if_splits)
  have "hart_ok (lks s1) h Out"
    using D(1) rel_pop.hyps pop_fields(4,5) [where l = ?l] by (cases "noff (cpus (lks s) h) = 1") (auto simp: s1 hart_ok_def)
  with rel_pop D pop_fields [where l = ?l] show ?case
    by (intro spin_inv_upd [OF rel_pop.prems]) (simp_all add: s1 owns_def)
next
  case (rel_pop_panic pc h s e s1)
  with spin_invD(1) [OF rel_pop_panic.prems, of h] show ?case
    by (simp add: pop_off_eq on_def intr_def hart_ok_def split: if_splits)
qed

text \<open>The contract of the lock code for any number of harts.\<close>

definition harts_start :: "kstate \<Rightarrow> lockid \<Rightarrow> bool" where
  "harts_start s L \<longleftrightarrow> \<not> locked (spinl (lks s) L) \<and> lk_cpu (spinl (lks s) L) = None
     \<and> (\<forall>h. hart_ok (lks s) h Out)"

lemma spin_reach_inv:
  assumes "spin_reach L s0 c" "harts_start s0 L"
  shows "spin_inv L c"
  using assms(1)
proof (induction rule: spin_reach.induct)
  case start
  then show ?case
    using assms(2) by (auto simp: spin_inv_def harts_start_def owns_def)
next
  case (step c d)
  then show ?case by (blast intro: spin_step_inv)
qed

text \<open>C1: Mutual exclusion.  Whatever the interleaving of the atomic actions of \<open>acquire\<close> and
  \<open>release\<close> on any number of harts, at most one hart is between its successful swap and the
  store that frees the lock, that hart has its interrupts off, and no hart ever runs into
  one of the panics of \<open>acquire\<close>, \<open>release\<close> and \<open>pop_off\<close>.\<close>

theorem spin_mutual_exclusion:
  assumes "spin_reach L s0 (s, pc)" and "harts_start s0 L"
  shows "(owns (pc h) \<and> owns (pc h') \<longrightarrow> h = h')
    \<and> (owns (pc h) \<longrightarrow> sstatus (lks s) h AND SSTATUS_SIE = 0) \<and> pc h \<noteq> Panicked"
proof -
  have inv: "spin_inv L (s, pc)"
    using assms by (rule spin_reach_inv)
  show ?thesis
    using spin_invD(1) [OF inv, of h] spin_invD(3) [OF inv, of h h']
    by (auto simp: hart_ok_def owns_def)
qed

lemma zero_lks_ok [simp]: "lk_ok zero_lks"
  by (simp add: lk_ok_def zero_lks_def)

lemma zero_lks_free [simp]: "\<not> locked (spinl zero_lks L)"
  by (simp add: zero_lks_def)

lemma lks_zero_state [simp]: "lks zero_state = zero_lks"
  by (simp add: zero_state_def)

theorem spin_mutual_exclusion_witness:
  "\<exists>s pc. spin_reach LKmem (zero_state) (s, pc) \<and> pc 3 = Got
     \<and> sstatus (lks s) 3 AND SSTATUS_SIE = 0"
proof -
  let ?s0 = "zero_state :: kstate"
  let ?s1 = "?s0\<lparr>lks := lk_push (zero_lks\<lparr>tp := 3\<rparr>)\<rparr>"
  let ?s2 = "?s0\<lparr>lks := upd_spin LKmem (\<lambda>k. k\<lparr>locked := True\<rparr>) (lk_push (zero_lks\<lparr>tp := 3\<rparr>))\<rparr>"
  have "spin_reach LKmem ?s0 (?s1, (\<lambda>_. Out)(3 := if False then Panicked else Swap))"
    by (rule spin_reach.step [OF spin_reach.start], rule spin_step.enter [where h = 3])
       (simp_all add: on_def push_off_Ok holding_def mycpu_def cpuid_def zero_lks_def
         lk_push_def upd_cpu_def set_sstatus_def)
  then have r: "spin_reach LKmem ?s0 (?s2, ((\<lambda>_. Out)(3 := if False then Panicked else Swap))(3 := Got))"
    by (rule spin_reach.step, intro spin_step.swap_got)
       (simp_all add: on_def acquire_swap_def zero_lks_def lk_push_def upd_cpu_def upd_spin_def
         set_sstatus_def)
  have "harts_start ?s0 LKmem"
    by (simp add: harts_start_def hart_ok_def zero_lks_def)
  from spin_mutual_exclusion [OF r this, of 3 3] show ?thesis
    by (intro exI conjI) (rule r, simp_all add: owns_def)
qed

text \<open>C2: The bracket \<open>acquire(lk); release(lk)\<close> on a free lock returns with every lock, the
  nesting depth and the interrupt-enable bit as they were; only \<open>intena\<close>, which is dead at
  depth 0, may differ.  Acquiring a lock that this hart already holds panics.\<close>

theorem acquire_release_restores:
  assumes "lk_ok (lks s)" and "free_lk L s"
  shows "seq (acquire L) (release L) s = Ok () (s\<lparr>lks := lk_touch (lks s)\<rparr>)
    \<and> (\<exists>s'. seq (acquire L) (acquire L) s = Panic ''acquire'' s')"
proof
  let ?s1 = "s\<lparr>lks := lk_acq L (lks s)\<rparr>"
  have a: "acquire L s = Ok () ?s1"
    using assms by (simp add: acquire_Ok)
  then show "seq (acquire L) (release L) s = Ok () (s\<lparr>lks := lk_touch (lks s)\<rparr>)"
    using assms release_Ok [of "lks s" L ?s1] by (simp add: free_lk_def)
  have "\<exists>s'. acquire L ?s1 = Panic ''acquire'' s'"
    using assms by (simp add: acquire_def push_off_Ok holding_def mycpu_def cpuid_def lk_defs)
  with a show "\<exists>s'. seq (acquire L) (acquire L) s = Panic ''acquire'' s'"
    by simp
qed

theorem acquire_release_restores_witness:
  "seq (acquire LPid) (release LPid) (zero_state)
     = Ok () (zero_state\<lparr>lks := lk_touch zero_lks\<rparr>)"
  using acquire_release_restores [of "zero_state" LPid]
  by (simp add: free_lk_def zero_lks_free)

end
