(* ===== verification/Kstring.thy ===== *)
theory Kstring
  imports Types
begin

text \<open>
  \<open>kernel/string.c\<close>.  \<open>memset\<close> and \<open>memmove\<close> work on memory at addresses, since \<open>memmove\<close> promises
  the right answer for overlapping regions.  The string functions are only applied to
  distinct objects, so their arguments are arrays of characters seen from the pointer
  passed: \<open>p i\<close> is \<open>p[i]\<close>.  Counts are the natural number the C loop counts down.
\<close>

section \<open>Definitions\<close>

fun memset_from :: "u64 \<Rightarrow> byte \<Rightarrow> nat \<Rightarrow> nat \<Rightarrow> memory \<Rightarrow> memory" where
  "memset_from dst c i 0 m = m"
| "memset_from dst c i (Suc n) m = memset_from dst c (Suc i) n (m(dst + of_nat i := c))"

definition memset :: "u64 \<Rightarrow> int \<Rightarrow> u32 \<Rightarrow> memory \<Rightarrow> memory" where
  "memset dst c n m = memset_from dst (word_of_int c) 0 (unat n) m"

fun memcmp :: "(nat \<Rightarrow> byte) \<Rightarrow> (nat \<Rightarrow> byte) \<Rightarrow> nat \<Rightarrow> int" where
  "memcmp s1 s2 0 = 0"
| "memcmp s1 s2 (Suc n) =
     (if s1 0 \<noteq> s2 0 then uint (s1 0) - uint (s2 0)
      else memcmp (\<lambda>i. s1 (Suc i)) (\<lambda>i. s2 (Suc i)) n)"

fun memmove_down :: "u64 \<Rightarrow> u64 \<Rightarrow> nat \<Rightarrow> memory \<Rightarrow> memory" where
  "memmove_down d s 0 m = m"
| "memmove_down d s (Suc n) m = memmove_down (d - 1) (s - 1) n (m(d - 1 := m (s - 1)))"

fun memmove_up :: "u64 \<Rightarrow> u64 \<Rightarrow> nat \<Rightarrow> memory \<Rightarrow> memory" where
  "memmove_up d s 0 m = m"
| "memmove_up d s (Suc n) m = memmove_up (d + 1) (s + 1) n (m(d := m s))"

definition memmove :: "u64 \<Rightarrow> u64 \<Rightarrow> u32 \<Rightarrow> memory \<Rightarrow> memory" where
  "memmove dst src n m =
     (if src < dst \<and> src + ucast n > dst
      then memmove_down (dst + ucast n) (src + ucast n) (unat n) m
      else memmove_up dst src (unat n) m)"

definition memcpy :: "u64 \<Rightarrow> u64 \<Rightarrow> u32 \<Rightarrow> memory \<Rightarrow> memory" where
  "memcpy dst src n m = memmove dst src n m"

fun strncmp :: "(nat \<Rightarrow> byte) \<Rightarrow> (nat \<Rightarrow> byte) \<Rightarrow> nat \<Rightarrow> int" where
  "strncmp p q 0 = 0"
| "strncmp p q (Suc n) =
     (if p 0 \<noteq> 0 \<and> p 0 = q 0 then strncmp (\<lambda>i. p (Suc i)) (\<lambda>i. q (Suc i)) n
      else uint (p 0) - uint (q 0))"

fun strncpy_copy ::
  "(nat \<Rightarrow> byte) \<Rightarrow> (nat \<Rightarrow> byte) \<Rightarrow> nat \<Rightarrow> nat \<Rightarrow> (nat \<Rightarrow> byte) \<times> nat \<times> nat" where
  "strncpy_copy s t i 0 = (s, i, 0)"
| "strncpy_copy s t i (Suc n) =
     (if t i \<noteq> 0 then strncpy_copy (s(i := t i)) t (Suc i) n else (s(i := t i), Suc i, n))"

fun strncpy_pad :: "(nat \<Rightarrow> byte) \<Rightarrow> nat \<Rightarrow> nat \<Rightarrow> nat \<Rightarrow> byte" where
  "strncpy_pad s i 0 = s"
| "strncpy_pad s i (Suc n) = strncpy_pad (s(i := 0)) (Suc i) n"

definition strncpy :: "(nat \<Rightarrow> byte) \<Rightarrow> (nat \<Rightarrow> byte) \<Rightarrow> int \<Rightarrow> nat \<Rightarrow> byte" where
  "strncpy s t n = (case strncpy_copy s t 0 (nat n) of (s1, i, r) \<Rightarrow> strncpy_pad s1 i r)"

fun safestrcpy_copy :: "(nat \<Rightarrow> byte) \<Rightarrow> (nat \<Rightarrow> byte) \<Rightarrow> nat \<Rightarrow> nat \<Rightarrow> (nat \<Rightarrow> byte) \<times> nat" where
  "safestrcpy_copy s t i 0 = (s, i)"
| "safestrcpy_copy s t i (Suc n) =
     (if t i \<noteq> 0 then safestrcpy_copy (s(i := t i)) t (Suc i) n else (s(i := t i), Suc i))"

definition safestrcpy :: "(nat \<Rightarrow> byte) \<Rightarrow> (nat \<Rightarrow> byte) \<Rightarrow> int \<Rightarrow> nat \<Rightarrow> byte" where
  "safestrcpy s t n =
     (if n \<le> 0 then s
      else (case safestrcpy_copy s t 0 (nat (n - 1)) of (s1, i) \<Rightarrow> s1(i := 0)))"

text \<open>\<open>strlen\<close> scans until it meets a NUL; on an array without one it does not return.\<close>

partial_function (option) strlen_from :: "(nat \<Rightarrow> byte) \<Rightarrow> nat \<Rightarrow> nat option" where
  "strlen_from s n = (if s n \<noteq> 0 then strlen_from s (Suc n) else Some n)"

definition strlen :: "(nat \<Rightarrow> byte) \<Rightarrow> nat option" where
  "strlen s = strlen_from s 0"

text \<open>The string stored in the first \<open>n\<close> bytes of an array.\<close>

definition str_of :: "nat \<Rightarrow> (nat \<Rightarrow> byte) \<Rightarrow> byte list" where
  "str_of n a = takeWhile (\<lambda>c. c \<noteq> 0) (map a [0..<n])"

definition array_of :: "byte list \<Rightarrow> nat \<Rightarrow> byte" where
  "array_of xs i = (if i < length xs then xs ! i else 0)"

section \<open>Address arithmetic\<close>

lemma unat_ucast_u32 [simp]: "unat (ucast (n :: u32) :: u64) = unat n"
proof -
  have "unat n < 2 ^ 64"
    using unsigned_less [of n, where ?'a = nat] by (simp add: less_le_trans)
  then show ?thesis
    by (simp add: unsigned_ucast_eq take_bit_nat_eq_self)
qed

lemma unat_add_of_nat:
  assumes "unat (s :: u64) + n \<le> 2 ^ 64" "k < n"
  shows "unat (s + of_nat k) = unat s + k"
proof -
  have "unat (of_nat k :: u64) = k"
    using assms by (simp add: unat_of_nat)
  then show ?thesis
    using assms by (subst unat_plus_simple [THEN iffD1]) (simp_all add: word_le_nat_alt unat_word_ariths)
qed

lemma addr_offset_iff:
  assumes "i < 2 ^ 64"
  shows "a = d + of_nat i \<longleftrightarrow> unat (a - d :: u64) = i"
proof -
  have "unat (of_nat i :: u64) = i"
    using assms by (simp add: unat_of_nat)
  moreover have "a = d + of_nat i \<longleftrightarrow> a - d = of_nat i"
    by (auto simp: algebra_simps)
  ultimately show ?thesis
    by (simp add: word_unat_eq_iff)
qed

lemma memset_from_eq:
  assumes "unat dst + (i + n) \<le> 2 ^ 64"
  shows "memset_from dst c i n m a =
    (if i \<le> unat (a - dst) \<and> unat (a - dst) < i + n then c else m a)"
  using assms
proof (induction n arbitrary: i m)
  case 0
  then show ?case by auto
next
  case (Suc n)
  have "a = dst + of_nat i \<longleftrightarrow> unat (a - dst) = i"
    by (rule addr_offset_iff) (use Suc.prems in simp)
  then show ?case
    using Suc by auto
qed

lemma memset_eq:
  assumes "unat dst + unat n \<le> 2 ^ 64"
  shows "memset dst c n m a = (if a - dst < ucast n then word_of_int c else m a)"
  using assms by (simp add: memset_def memset_from_eq word_less_nat_alt)

section \<open>memmove\<close>

lemma unat_minus_one: "(x :: u64) \<noteq> 0 \<Longrightarrow> unat (x - 1) = unat x - 1"
  by (simp add: unat_sub word_le_nat_alt unat_gt_0 Suc_leI)

lemma unat_add_u64:
  assumes "unat (s :: u64) + n \<le> 2 ^ 64" "unat x < n"
  shows "unat (s + x) = unat s + unat x"
  using unat_add_of_nat [OF assms] by simp

lemma memmove_up_eq:
  assumes "unat d + n \<le> 2 ^ 64" "unat s + n \<le> 2 ^ 64" "d \<le> s \<or> unat s + n \<le> unat d"
  shows "memmove_up d s n m a = (if unat (a - d) < n then m (s + (a - d)) else m a)"
  using assms
proof (induction n arbitrary: d s m)
  case 0
  then show ?case by simp
next
  case (Suc n)
  let ?m = "m(d := m s)" and ?x = "a - d"
  have IH: "memmove_up (d + 1) (s + 1) n ?m a =
    (if unat (?x - 1) < n then ?m (s + ?x) else ?m a)"
  proof (cases n)
    case 0
    then show ?thesis by simp
  next
    case (Suc l)
    have "unat (d + 1) = unat d + 1" "unat (s + 1) = unat s + 1"
      using unat_add_of_nat [of d "Suc n" 1] unat_add_of_nat [of s "Suc n" 1] Suc.prems Suc
      by simp_all
    then have "d + 1 \<le> s + 1 \<or> unat (s + 1) + n \<le> unat (d + 1)"
      using Suc.prems by (auto simp: word_le_nat_alt)
    then have "memmove_up (d + 1) (s + 1) n ?m a =
      (if unat (a - (d + 1)) < n then ?m (s + 1 + (a - (d + 1))) else ?m a)"
      using Suc.prems \<open>unat (d + 1) = _\<close> \<open>unat (s + 1) = _\<close> by (intro Suc.IH) simp_all
    moreover have "a - (d + 1) = ?x - 1" "s + 1 + (?x - 1) = s + ?x"
      by simp_all
    ultimately show ?thesis
      by simp
  qed
  show ?case
  proof (cases "?x = 0")
    case True
    have "n < 2 ^ 64" using Suc.prems by simp
    then have "\<not> unat (?x - 1) < n" using True by (simp add: unsigned_minus_1_eq_mask mask_eq_exp_minus_1)
    then show ?thesis using IH True by simp
  next
    case False
    then have x: "0 < unat ?x" "unat (?x - 1) = unat ?x - 1"
      by (simp_all add: unat_minus_one unat_gt_0)
    have "s + ?x \<noteq> d" if "unat ?x < Suc n"
    proof -
      have "unat (s + ?x) \<noteq> unat d"
        using unat_add_u64 [OF Suc.prems(2) that] x(1) that Suc.prems(3)
        by (auto simp: word_le_nat_alt)
      then show ?thesis by (metis)
    qed
    moreover have "unat (?x - 1) < n \<longleftrightarrow> unat ?x < Suc n"
      using x by linarith
    ultimately show ?thesis using IH False by auto
  qed
qed

lemma memmove_down_eq:
  assumes "unat d + n \<le> 2 ^ 64" "unat s + n \<le> 2 ^ 64" "s \<le> d"
  shows "memmove_down (d + of_nat n) (s + of_nat n) n m a =
    (if unat (a - d) < n then m (s + (a - d)) else m a)"
  using assms(1,2)
proof (induction n arbitrary: m)
  case 0
  then show ?case by simp
next
  case (Suc n)
  let ?x = "a - d" and ?m = "m(d + of_nat n := m (s + of_nat n))"
  have IH: "memmove_down (d + of_nat (Suc n)) (s + of_nat (Suc n)) (Suc n) m a =
    (if unat ?x < n then ?m (s + ?x) else ?m a)"
    using Suc by (simp add: algebra_simps)
  have a: "a = d + of_nat n \<longleftrightarrow> unat ?x = n"
    by (rule addr_offset_iff) (use Suc.prems in simp)
  have "s + ?x \<noteq> d + of_nat n" if "unat ?x < n"
  proof -
    have "unat (s + ?x) < unat (d + of_nat n)"
      using unat_add_u64 [of s "Suc n" ?x] unat_add_of_nat [of d "Suc n" n] that Suc.prems \<open>s \<le> d\<close>
      by (simp add: word_le_nat_alt)
    then show ?thesis by (metis less_irrefl)
  qed
  moreover have "s + of_nat n = s + ?x" if "unat ?x = n"
    using that by (simp flip: that)
  ultimately show ?case
    using IH a by (auto simp: less_Suc_eq)
qed

lemma memmove_eq:
  assumes "unat dst + unat n \<le> 2 ^ 64" "unat src + unat n < 2 ^ 64"
  shows "memmove dst src n m a = (if a - dst < ucast n then m (src + (a - dst)) else m a)"
proof -
  have "unat (src + ucast n) = unat src + unat n"
    using assms(2) unat_plus_simple [of src "ucast n"]
    by (simp add: word_le_nat_alt unat_word_ariths)
  then show ?thesis
    using assms memmove_down_eq [of dst "unat n" src m a] memmove_up_eq [of dst "unat n" src m a]
    by (auto simp: memmove_def word_less_nat_alt word_le_nat_alt)
qed

section \<open>Strings\<close>

lemma str_of_0 [simp]: "str_of 0 a = []"
  by (simp add: str_of_def)

lemma str_of_Suc [simp]: "str_of (Suc n) a = (if a 0 \<noteq> 0 then a 0 # str_of n (\<lambda>i. a (Suc i)) else [])"
  by (simp add: str_of_def map_upt_Suc del: upt_Suc)

lemma str_of_cong: "(\<And>i. i < n \<Longrightarrow> a i = b i) \<Longrightarrow> str_of n a = str_of n b"
  unfolding str_of_def by (rule arg_cong [of _ _ "takeWhile _"], rule map_cong) auto

lemma length_str_of_le: "length (str_of n a) \<le> n"
  by (metis str_of_def length_takeWhile_le length_map length_upt diff_zero)

lemma str_of_array_of: "0 \<notin> set xs \<Longrightarrow> str_of n (array_of xs) = take n xs"
proof (induction xs arbitrary: n)
  case Nil
  then show ?case by (cases n) (simp_all add: array_of_def)
next
  case (Cons x xs)
  have "(\<lambda>i. array_of (x # xs) (Suc i)) = array_of xs" "array_of (x # xs) 0 = x"
    by (auto simp: array_of_def)
  with Cons show ?case by (cases n) auto
qed

lemma memcmp_zero_iff: "memcmp p q n = 0 \<longleftrightarrow> (\<forall>i<n. p i = q i)"
proof (induction n arbitrary: p q)
  case 0
  then show ?case by simp
next
  case (Suc n)
  then show ?case by (auto simp: word_uint_eq_iff less_Suc_eq_0_disj)
qed

lemma strncmp_zero_iff: "strncmp p q n = 0 \<longleftrightarrow> str_of n p = str_of n q"
proof (induction n arbitrary: p q)
  case 0
  then show ?case by simp
next
  case (Suc n)
  then show ?case by (auto simp: word_uint_eq_iff)
qed

lemma strncpy_pad_eq: "strncpy_pad s i n j = (if i \<le> j \<and> j < i + n then 0 else s j)"
  by (induction n arbitrary: s i) auto

lemma strncpy_copy_eq:
  assumes "\<And>j. j < i \<Longrightarrow> t j \<noteq> 0" and "strncpy_copy s t i n = (s', i', r)"
  shows "strncpy_pad s' i' r j =
    (if i \<le> j \<and> j < i + n then (if \<forall>k<j. t k \<noteq> 0 then t j else 0) else s j)"
  using assms
proof (induction n arbitrary: s i)
  case 0
  then show ?case by auto
next
  case (Suc n)
  show ?case
  proof (cases "t i = 0")
    case True
    then show ?thesis
      using Suc.prems by (cases "j = i") (auto simp: strncpy_pad_eq not_less)
  next
    case False
    then have "strncpy_pad s' i' r j =
      (if Suc i \<le> j \<and> j < Suc i + n then (if \<forall>k<j. t k \<noteq> 0 then t j else 0)
       else (s(i := t i)) j)"
      using Suc.prems by (intro Suc.IH) (auto simp: less_Suc_eq simp del: fun_upd_apply)
    then show ?thesis
      using Suc.prems(1) by (cases "j = i") auto
  qed
qed

lemma strncpy_eq:
  "strncpy s t n j =
    (if int j < n then (if \<forall>k<j. t k \<noteq> 0 then t j else 0) else s j)"
proof -
  obtain s' i' r where c: "strncpy_copy s t 0 (nat n) = (s', i', r)"
    by (cases "strncpy_copy s t 0 (nat n)")
  have "int j < n \<longleftrightarrow> j < nat n" by linarith
  then show ?thesis
    using strncpy_copy_eq [OF _ c, of j] by (simp add: strncpy_def c)
qed

lemma safestrcpy_copy_eq:
  assumes "\<And>j. j < i \<Longrightarrow> t j \<noteq> 0" "safestrcpy_copy s t i n = (s', e)"
  shows "i \<le> e \<and> e \<le> i + n \<and> (\<forall>j. i \<le> j \<and> j < e \<longrightarrow> s' j = t j) \<and> (\<forall>j. j < i \<or> e \<le> j \<longrightarrow> s' j = s j)
    \<and> (\<forall>j. Suc j < e \<longrightarrow> t j \<noteq> 0) \<and> (e < i + n \<longrightarrow> 0 < e \<and> t (e - 1) = 0)"
  using assms
proof (induction n arbitrary: s i)
  case 0
  then show ?case by (auto simp: Suc_lessD)
next
  case (Suc n)
  show ?case
  proof (cases "t i = 0")
    case True
    then show ?thesis using Suc.prems by (auto simp: le_less_Suc_eq)
  next
    case False
    have "\<And>j. j < Suc i \<Longrightarrow> t j \<noteq> 0" "safestrcpy_copy (s(i := t i)) t (Suc i) n = (s', e)"
      using False Suc.prems by (auto simp: less_Suc_eq)
    from Suc.IH [OF this] show ?thesis
      by (auto simp: Suc_le_eq nat_less_le [of i])
  qed
qed

lemma strlen_eq:
  assumes "a n = 0" "\<And>i. i < n \<Longrightarrow> a i \<noteq> 0"
  shows "strlen a = Some n"
proof -
  have "strlen_from a k = Some n" if "k \<le> n" for k
    using that
  proof (induction "n - k" arbitrary: k)
    case 0
    then show ?case using assms(1) by (subst strlen_from.simps) simp
  next
    case (Suc d)
    then have "k < n" by simp
    with Suc show ?case using assms(2) [of k] by (subst strlen_from.simps) simp
  qed
  then show ?thesis by (simp add: strlen_def)
qed

lemma str_of_eq_take:
  assumes "\<And>j. j < e \<Longrightarrow> a j = t j \<and> t j \<noteq> 0" "a e = 0" "e < n"
  shows "str_of n a = map t [0..<e]"
  using assms
proof (induction e arbitrary: a t n)
  case 0
  then show ?case by (cases n) auto
next
  case (Suc e)
  then obtain l where l: "n = Suc l" by (cases n) auto
  have "str_of l (\<lambda>i. a (Suc i)) = map (\<lambda>i. t (Suc i)) [0..<e]"
    using Suc.prems l by (intro Suc.IH) auto
  then show ?case
    using Suc.prems(1) [of 0] l by (simp add: map_upt_Suc del: upt_Suc)
qed

lemma safestrcpy_copied:
  assumes "0 < n"
  obtains e where "e < nat n" "\<And>j. j < e \<Longrightarrow> safestrcpy s t n j = t j \<and> t j \<noteq> 0"
    "safestrcpy s t n e = 0" "e = nat n - 1 \<or> t e = 0"
proof -
  obtain s' e where c: "safestrcpy_copy s t 0 (nat (n - 1)) = (s', e)"
    by (cases "safestrcpy_copy s t 0 (nat (n - 1))")
  have n: "nat (n - 1) = nat n - 1" "0 < nat n"
    using assms by linarith+
  have f: "e \<le> nat n - 1" "\<And>j. j < e \<Longrightarrow> s' j = t j" "\<And>j. Suc j < e \<Longrightarrow> t j \<noteq> 0"
    "e < nat n - 1 \<Longrightarrow> 0 < e \<and> t (e - 1) = 0"
    using safestrcpy_copy_eq [OF _ c] by (auto simp: n)
  have eq: "safestrcpy s t n = s'(e := 0)"
    using assms by (simp add: safestrcpy_def c)
  show ?thesis
  proof (cases "0 < e \<and> t (e - 1) = 0")
    case True
    show ?thesis
      by (rule that [of "e - 1"]) (use True f eq n in \<open>auto simp: less_diff_conv\<close>)
  next
    case False
    have "\<And>j. j < e \<Longrightarrow> t j \<noteq> 0"
      using False f(3) by (metis Suc_lessI diff_Suc_1 zero_less_Suc)
    moreover have "e = nat n - 1"
      using False f(1,4) by (meson le_neq_implies_less)
    ultimately show ?thesis
      by (intro that [of e]) (use f(2) eq n(2) in \<open>simp_all del: zero_less_nat_eq\<close>)
  qed
qed

section \<open>What the string library promises\<close>

text \<open>C6: \<open>memmove(dst, src, n)\<close> copies correctly whether or not the regions overlap, and in
  either direction: afterwards every byte of the destination holds what the corresponding
  source byte held before the call, and no other byte has changed.  \<open>memcpy\<close> is the same
  function.\<close>

theorem memmove_correct:
  assumes "unat dst + unat n \<le> 2 ^ 64" and "unat src + unat n < 2 ^ 64"
  shows "memmove dst src n m a = (if a - dst < ucast n then m (src + (a - dst)) else m a)
    \<and> memcpy dst src n m = memmove dst src n m"
  using memmove_eq [OF assms] by (simp add: memcpy_def)

theorem memmove_correct_witness:
  "memmove 0x1002 0x1000 5 (\<lambda>a. ucast a) 0x1004 = (2 :: byte)"
  using memmove_correct [of "0x1002" 5 "0x1000" "\<lambda>a. ucast a" "0x1004"] by simp

text \<open>C7: \<open>safestrcpy(s, t, n)\<close> always leaves a NUL-terminated string in the \<open>n\<close> bytes of \<open>s\<close>,
  the longest prefix of the source string that fits, and writes nothing beyond them.\<close>

theorem safestrcpy_correct:
  assumes "0 < n"
  shows "str_of (nat n) (safestrcpy s t n) = str_of (nat n - 1) t
    \<and> (\<exists>i < nat n. safestrcpy s t n i = 0) \<and> (\<forall>i. n \<le> int i \<longrightarrow> safestrcpy s t n i = s i)"
proof -
  obtain e where e: "e < nat n" "\<And>j. j < e \<Longrightarrow> safestrcpy s t n j = t j \<and> t j \<noteq> 0"
    "safestrcpy s t n e = 0" "e = nat n - 1 \<or> t e = 0"
    using safestrcpy_copied [OF assms] by blast
  have "str_of (nat n) (safestrcpy s t n) = map t [0..<e]"
    by (rule str_of_eq_take) (use e in auto)
  moreover have "str_of (nat n - 1) t = map t [0..<e]"
  proof (cases "e = nat n - 1")
    case True
    then show ?thesis
      using e(2) by (auto simp: str_of_def takeWhile_eq_all_conv)
  next
    case False
    then show ?thesis
      by (intro str_of_eq_take) (use e in auto)
  qed
  moreover have "safestrcpy s t n i = s i" if "n \<le> int i" for i
  proof -
    obtain s' d where c: "safestrcpy_copy s t 0 (nat (n - 1)) = (s', d)"
      by (cases "safestrcpy_copy s t 0 (nat (n - 1))")
    have "d \<le> nat (n - 1)" "\<And>j. d \<le> j \<Longrightarrow> s' j = s j"
      using safestrcpy_copy_eq [OF _ c] by auto
    moreover from this have "d < i"
      using assms that by linarith
    ultimately show ?thesis
      using assms by (simp add: safestrcpy_def c)
  qed
  ultimately show ?thesis using e by auto
qed

theorem safestrcpy_correct_witness:
  "str_of 4 (safestrcpy (\<lambda>_. 7) (\<lambda>i. if i < 9 then 65 else 0) 4) = [65, 65, 65]"
proof -
  have "str_of 3 (\<lambda>i. if i < 9 then 65 else 0) = [65, 65, 65]"
    by (simp add: numeral_3_eq_3)
  then show ?thesis
    using safestrcpy_correct [of 4 "\<lambda>_. 7" "\<lambda>i. if i < 9 then 65 else 0"] by simp
qed

end
