(* ===== verification/Kalloc.thy ===== *)
theory Kalloc
  imports Spinlock Kstring
begin

text \<open>
  \<open>kernel/kalloc.c\<close>: the physical page allocator.  The free list is threaded through the free
  pages themselves, the first eight bytes of a free page being the address of the next
  one, so the model keeps it in memory and relates it to a list of pages with \<open>flist\<close>.
\<close>

section \<open>Definitions\<close>

definition kfree :: "u64 \<Rightarrow> unit k" where
  "kfree pa =
     bind (gets (\<lambda>s. pa mod PGSIZE \<noteq> 0 \<or> pa < k_end (syms s) \<or> PHYSTOP \<le> pa)) (\<lambda>bad.
     seq (panic_if bad ''kfree'') (
     seq (modify (\<lambda>s. s\<lparr>mem := memset pa 1 4096 (mem s)\<rparr>)) (
     seq (acquire LKmem) (
     seq (modify (\<lambda>s. s\<lparr>mem := st 8 pa (freelist s) (mem s)\<rparr>)) (
     seq (modify (\<lambda>s. s\<lparr>freelist := pa\<rparr>))
     (release LKmem))))))"

definition kalloc :: "u64 k" where
  "kalloc =
     seq (acquire LKmem) (
     bind (gets freelist) (\<lambda>r.
     seq (whenM (r \<noteq> 0) (modify (\<lambda>s. s\<lparr>freelist := ld 8 (mem s) r\<rparr>))) (
     seq (release LKmem) (
     seq (whenM (r \<noteq> 0) (modify (\<lambda>s. s\<lparr>mem := memset r 5 4096 (mem s)\<rparr>)))
     (return r)))))"

text \<open>The loop compares pointers, whose arithmetic does not wrap in C.\<close>

function freerange_from :: "u64 \<Rightarrow> u64 \<Rightarrow> unit k" where
  "freerange_from p pa_end =
     (if unat p + 4096 \<le> unat pa_end
      then seq (kfree p) (freerange_from (p + PGSIZE) pa_end) else return ())"
  by pat_completeness auto

termination
proof (relation "measure (\<lambda>(p, e). unat e - unat p)")
  fix p e :: u64
  assume "unat p + 4096 \<le> unat e"
  moreover have "unat e < 2 ^ 64"
    using unsigned_less [of e, where ?'a = nat] by simp
  ultimately have "unat (p + 4096) = unat p + 4096"
    using unat_add_of_nat [of p 4097 4096] by simp
  with \<open>unat p + 4096 \<le> unat e\<close> show "((p + 4096, e), p, e) \<in> measure (\<lambda>(p, e). unat e - unat p)"
    by simp
qed simp

declare freerange_from.simps [simp del]

definition freerange :: "u64 \<Rightarrow> u64 \<Rightarrow> unit k" where
  "freerange pa_start pa_end = freerange_from (PGROUNDUP pa_start) pa_end"

definition kinit :: "unit k" where
  "kinit = seq (initlock LKmem ''kmem'') (bind (gets (\<lambda>s. k_end (syms s))) (\<lambda>e. freerange e PHYSTOP))"

section \<open>Pages\<close>

definition in_page :: "u64 \<Rightarrow> u64 \<Rightarrow> bool" where
  "in_page p x \<longleftrightarrow> unat (x - p) < 4096"

definition pgno :: "u64 \<Rightarrow> nat" where
  "pgno x = unat x div 4096"

lemma aligned_unat: "(p :: u64) mod 4096 = 0 \<longleftrightarrow> unat p mod 4096 = 0"
  by (simp add: word_unat_eq_iff unat_mod)

lemma aligned_bound:
  assumes "(p :: u64) mod 4096 = 0"
  obtains P where "unat p = 4096 * P" "4096 * Suc P \<le> 2 ^ 64"
proof -
  obtain P where P: "unat p = 4096 * P"
    using assms by (auto simp: aligned_unat)
  moreover have "unat p < 2 ^ 64"
    using unsigned_less [of p, where ?'a = nat] by simp
  ultimately have "P < 4503599627370496"
    by simp
  then have "4096 * Suc P \<le> 2 ^ 64"
    by simp
  with P show ?thesis by (rule that)
qed

lemma in_page_iff:
  assumes "p mod 4096 = 0"
  shows "in_page p x \<longleftrightarrow> pgno x = pgno p"
proof -
  obtain P where P: "unat p = 4096 * P" "4096 * Suc P \<le> 2 ^ 64"
    using assms by (rule aligned_bound)
  show ?thesis
  proof (cases "p \<le> x")
    case True
    then have "unat (x - p) = unat x - unat p" "unat p \<le> unat x"
      by (simp_all add: unat_sub word_le_nat_alt)
    moreover from this obtain r where "unat x = 4096 * P + r"
      using P(1) by (metis le_Suc_ex)
    ultimately show ?thesis
      using P(1) by (simp add: in_page_def pgno_def div_eq_0_iff)
  next
    case False
    then have "unat x < unat p"
      by (simp add: word_le_nat_alt)
    moreover from this have "unat (x - p) = 2 ^ 64 + unat x - unat p"
      by (simp add: unat_sub_if' word_le_nat_alt)
    moreover from calculation P have "\<not> unat (x - p) < 4096"
      by simp
    moreover have "unat x div 4096 < P"
      using \<open>unat x < unat p\<close> P(1) by (simp add: less_mult_imp_div_less mult.commute)
    ultimately show ?thesis
      using P(1) by (simp add: in_page_def pgno_def)
  qed
qed

lemma in_page_self [simp]: "in_page p p"
  by (simp add: in_page_def)

lemma in_page_offset: "i < 4096 \<Longrightarrow> in_page p (p + of_nat i)"
  by (simp add: in_page_def unat_of_nat_u64)

lemma pages_disjoint:
  assumes "p mod 4096 = 0" "q mod 4096 = 0" "p \<noteq> q" "in_page q x"
  shows "\<not> in_page p x"
proof
  assume "in_page p x"
  with assms have "pgno p = pgno q"
    by (simp add: in_page_iff)
  then have "unat p = unat q"
    using assms(1,2) by (simp add: pgno_def aligned_unat) (metis mod_0_imp_dvd dvd_div_mult_self)
  with \<open>p \<noteq> q\<close> show False
    by (simp add: word_unat_eq_iff)
qed

lemma memset_page:
  assumes "p mod 4096 = 0"
  shows "memset p c 4096 m x = (if in_page p x then word_of_int c else m x)"
proof -
  have "unat p + 4096 \<le> 2 ^ 64"
    using assms by (rule aligned_bound) simp
  then show ?thesis
    by (simp add: memset_eq in_page_def word_less_nat_alt)
qed

section \<open>The free list\<close>

definition page_ok :: "ksyms \<Rightarrow> u64 \<Rightarrow> bool" where
  "page_ok ks p \<longleftrightarrow> p mod PGSIZE = 0 \<and> k_end ks \<le> p \<and> p < PHYSTOP \<and> p \<noteq> 0"

primrec flist :: "memory \<Rightarrow> u64 \<Rightarrow> u64 list \<Rightarrow> bool" where
  "flist m p [] \<longleftrightarrow> p = 0"
| "flist m p (x # xs) \<longleftrightarrow> p = x \<and> flist m (ld 8 m x) xs"

definition kmem_inv :: "kstate \<Rightarrow> u64 list \<Rightarrow> bool" where
  "kmem_inv s xs \<longleftrightarrow> flist (mem s) (freelist s) xs \<and> distinct xs \<and> (\<forall>x \<in> set xs. page_ok (syms s) x)"

abbreviation can_lock :: "lockid \<Rightarrow> kstate \<Rightarrow> bool" where
  "can_lock L s \<equiv> lk_ok (lks s) \<and> \<not> locked (spinl (lks s) L)"

lemma page_okD: "page_ok ks p \<Longrightarrow> p mod 4096 = 0 \<and> p \<noteq> 0"
  by (simp add: page_ok_def)

lemma flist_cong:
  assumes "\<And>x y. x \<in> set xs \<Longrightarrow> in_page x y \<Longrightarrow> m y = m' y"
  shows "flist m p xs = flist m' p xs"
  using assms
proof (induction xs arbitrary: p)
  case Nil
  then show ?case by simp
next
  case (Cons x xs)
  have "ld 8 m x = (ld 8 m' x :: u64)"
    by (rule ld_cong) (rule Cons.prems [of x], simp_all add: in_page_offset)
  moreover have "flist m q xs = flist m' q xs" for q
    by (rule Cons.IH) (rule Cons.prems, simp_all)
  ultimately show ?case by simp
qed

text \<open>Writes inside a page that is not free leave the free list alone.\<close>

lemma kmem_inv_frame:
  assumes "kmem_inv s xs" "freelist s' = freelist s" "syms s' = syms s"
    and "p mod 4096 = 0" "p \<notin> set xs" "\<And>y. \<not> in_page p y \<Longrightarrow> mem s' y = mem s y"
  shows "kmem_inv s' xs"
proof -
  have "flist (mem s') (freelist s) xs = flist (mem s) (freelist s) xs"
  proof (rule flist_cong)
    fix x y
    assume x: "x \<in> set xs" and y: "in_page x y"
    have "\<not> in_page p y"
      by (rule pages_disjoint [of p x]) (use assms x y in \<open>auto simp: kmem_inv_def page_ok_def\<close>)
    then show "mem s' y = mem s y"
      by (rule assms(6))
  qed
  then show ?thesis
    using assms by (simp add: kmem_inv_def)
qed

lemma kmem_inv_lks [simp]:
  "kmem_inv (s\<lparr>lks := l\<rparr>) xs = kmem_inv s xs"
  by (simp add: kmem_inv_def)

section \<open>Freeing and allocating\<close>

definition kfree_mem :: "u64 \<Rightarrow> kstate \<Rightarrow> kstate" where
  "kfree_mem p s = s\<lparr>mem := st 8 p (freelist s) (memset p 1 4096 (mem s)), freelist := p\<rparr>"

definition kalloc_mem :: "kstate \<Rightarrow> kstate" where
  "kalloc_mem s = s\<lparr>freelist := ld 8 (mem s) (freelist s), mem := memset (freelist s) 5 4096 (mem s)\<rparr>"

lemma acquire_can: "can_lock L s \<Longrightarrow> acquire L s = Ok () (s\<lparr>lks := lk_acq L (lks s)\<rparr>)"
  by (simp add: acquire_Ok free_lk_def)

lemma kfree_Ok:
  assumes "can_lock LKmem s" "page_ok (syms s) p"
  shows "kfree p s = Ok () (kfree_mem p s\<lparr>lks := lk_touch (lks s)\<rparr>)"
  using assms
  by (simp add: kfree_def kfree_mem_def page_ok_def not_less not_le acquire_can release_Ok [where l = "lks s"])

lemma kalloc_Ok:
  assumes "can_lock LKmem s"
  shows "kalloc s =
    (if freelist s = 0 then Ok 0 (s\<lparr>lks := lk_touch (lks s)\<rparr>)
     else Ok (freelist s) (kalloc_mem s\<lparr>lks := lk_touch (lks s)\<rparr>))"
  using assms
  by (simp add: kalloc_def kalloc_mem_def acquire_can release_Ok [where l = "lks s"])

lemma kfree_mem_outside:
  assumes "p mod 4096 = 0" "\<not> in_page p y"
  shows "mem (kfree_mem p s) y = mem s y"
  using assms by (simp add: kfree_mem_def st_def memset_page in_page_def)

lemma kmem_inv_kfree:
  assumes "kmem_inv s xs" "page_ok (syms s) p" "p \<notin> set xs"
  shows "kmem_inv (kfree_mem p s) (p # xs)"
proof -
  have p: "p mod 4096 = 0" "p \<noteq> 0"
    using assms(2) by (simp_all add: page_ok_def)
  have "kmem_inv (kfree_mem p s\<lparr>freelist := freelist s\<rparr>) xs"
    by (rule kmem_inv_frame [OF assms(1) _ _ p(1) assms(3)])
       (use kfree_mem_outside [OF p(1)] in \<open>simp_all add: kfree_mem_def\<close>)
  then show ?thesis
    using assms by (simp add: kmem_inv_def kfree_mem_def ld_st_same)
qed

lemma kmem_inv_kalloc:
  assumes "kmem_inv s (x # xs)"
  shows "kmem_inv (kalloc_mem s) xs"
proof -
  have "kmem_inv (s\<lparr>freelist := ld 8 (mem s) x\<rparr>) xs" and x: "x mod 4096 = 0" "x \<notin> set xs" "freelist s = x"
    using assms by (auto simp: kmem_inv_def page_ok_def)
  then show ?thesis
    by (elim kmem_inv_frame [where p = x]) (simp_all add: kalloc_mem_def memset_page)
qed

lemma kmem_inv_freelist:
  assumes "kmem_inv s xs"
  shows "freelist s = 0 \<longleftrightarrow> xs = []"
  using assms by (cases xs) (auto simp: kmem_inv_def page_ok_def)

section \<open>The interface clients rely on\<close>

text \<open>An allocator hands out pages of a set it owns.  \<open>owns s F\<close> says that in state \<open>s\<close> the free
  pages are \<open>F\<close>; \<open>valid s p\<close> that \<open>p\<close> may be freed.\<close>

locale page_allocator =
  fixes alloc :: "(u64, 's) comp" and dealloc :: "u64 \<Rightarrow> (unit, 's) comp"
    and pool :: "'s \<Rightarrow> u64 set \<Rightarrow> bool" and valid :: "'s \<Rightarrow> u64 \<Rightarrow> bool"
  assumes alloc_law: "pool s F \<Longrightarrow>
      wp alloc (\<lambda>p s'. valid s' = valid s \<and>
        (if p = 0 then F = {} \<and> pool s' {} else p \<in> F \<and> pool s' (F - {p}))) s"
    and dealloc_law: "pool s F \<Longrightarrow> valid s p \<Longrightarrow> p \<notin> F \<Longrightarrow>
      wp (dealloc p) (\<lambda>_ s'. valid s' = valid s \<and> pool s' (insert p F)) s"
    and pool_valid: "pool s F \<Longrightarrow> p \<in> F \<Longrightarrow> valid s p \<and> p \<noteq> 0"
begin

lemma alloc_dealloc:
  assumes "pool s F"
  shows "wp (bind alloc (\<lambda>p. whenM (p \<noteq> 0) (dealloc p))) (\<lambda>_ s'. pool s' F) s"
proof -
  have "wp alloc (\<lambda>p. wp (whenM (p \<noteq> 0) (dealloc p)) (\<lambda>_ s'. pool s' F)) s"
  proof (rule wp_mono [OF alloc_law [OF assms]])
    fix p s'
    assume a: "valid s' = valid s \<and>
      (if p = 0 then F = {} \<and> pool s' {} else p \<in> F \<and> pool s' (F - {p}))"
    show "wp (whenM (p \<noteq> 0) (dealloc p)) (\<lambda>_ s'. pool s' F) s'"
    proof (cases "p = 0")
      case True
      then show ?thesis using a by simp
    next
      case False
      then have p: "p \<in> F" "pool s' (F - {p})" "valid s' = valid s"
        using a by simp_all
      moreover from this have "valid s' p" "insert p F = F"
        using pool_valid [OF assms p(1)] by (simp_all add: insert_absorb)
      ultimately have "wp (dealloc p) (\<lambda>_ s'. pool s' F) s'"
        by (intro wp_mono [OF dealloc_law [of s' "F - {p}" p]]) simp_all
      then show ?thesis
        using False by simp
    qed
  qed
  then show ?thesis by simp
qed

text \<open>Two allocations in a row hand out different pages.\<close>

lemma alloc_alloc_distinct:
  assumes "pool s F"
  shows "wp (bind alloc (\<lambda>p. bind alloc (\<lambda>q. return (p, q)))) (\<lambda>r s'. fst r = snd r \<longrightarrow> fst r = 0) s"
proof -
  have "wp alloc (\<lambda>p. wp alloc (\<lambda>q s'. p = q \<longrightarrow> p = 0)) s"
  proof (rule wp_mono [OF alloc_law [OF assms]])
    fix p s'
    assume a: "valid s' = valid s \<and>
      (if p = 0 then F = {} \<and> pool s' {} else p \<in> F \<and> pool s' (F - {p}))"
    then have "pool s' (F - {p})"
      by (cases "p = 0") simp_all
    from alloc_law [OF this] show "wp alloc (\<lambda>q s'. p = q \<longrightarrow> p = 0) s'"
      by (rule wp_mono) (auto split: if_splits)
  qed
  then show ?thesis by simp
qed

end

definition kmem_pool :: "kstate \<Rightarrow> u64 set \<Rightarrow> bool" where
  "kmem_pool s F \<longleftrightarrow> can_lock LKmem s \<and> (\<exists>xs. kmem_inv s xs \<and> set xs = F)"

lemma kmem_poolI:
  assumes "kmem_inv s xs" "lk_ok l" "\<not> locked (spinl l LKmem)" "F = set xs"
  shows "kmem_pool (s\<lparr>lks := lk_touch l\<rparr>) F"
  using assms by (auto simp: kmem_pool_def)

lemma kmem_poolE:
  assumes "kmem_pool s F"
  obtains xs where "lk_ok (lks s)" "\<not> locked (spinl (lks s) LKmem)" "kmem_inv s xs" "F = set xs"
  using assms by (auto simp: kmem_pool_def)

lemma kmem_syms [simp]: "syms (kalloc_mem s) = syms s" "syms (kfree_mem p s) = syms s"
  by (simp_all add: kalloc_mem_def kfree_mem_def)

interpretation km: page_allocator kalloc kfree kmem_pool "\<lambda>s. page_ok (syms s)"
proof (unfold_locales, goal_cases)
  case (1 s F)
  then obtain xs where xs: "lk_ok (lks s)" "\<not> locked (spinl (lks s) LKmem)" "kmem_inv s xs" "F = set xs"
    by (rule kmem_poolE)
  show ?case
  proof (cases xs)
    case Nil
    then have "kalloc s = Ok 0 (s\<lparr>lks := lk_touch (lks s)\<rparr>)"
      using xs by (simp add: kalloc_Ok kmem_inv_freelist)
    then show ?thesis
      using kmem_poolI [OF xs(3,1,2), of "{}"] xs(4) Nil by (simp add: wp_def)
  next
    case (Cons x ys)
    then have F: "F - {x} = set ys" "x \<in> F" "freelist s = x" "x \<noteq> 0"
      using xs by (auto simp: kmem_inv_def page_ok_def)
    then have "kalloc s = Ok x (kalloc_mem s\<lparr>lks := lk_touch (lks s)\<rparr>)"
      using xs by (simp add: kalloc_Ok)
    moreover have "kmem_inv (kalloc_mem s) ys"
      using xs(3) Cons by (simp add: kmem_inv_kalloc)
    ultimately show ?thesis
      using kmem_poolI [OF _ xs(1,2), of _ ys "F - {x}"] F by (simp add: wp_def)
  qed
next
  case (2 s F p)
  then obtain xs where xs: "lk_ok (lks s)" "\<not> locked (spinl (lks s) LKmem)" "kmem_inv s xs" "F = set xs"
    by (blast elim: kmem_poolE)
  then have "kmem_inv (kfree_mem p s) (p # xs)"
    using 2 by (simp add: kmem_inv_kfree)
  then show ?case
    using xs 2 kmem_poolI [OF _ xs(1,2), of _ "p # xs" "insert p F"] by (simp add: wp_def kfree_Ok)
next
  case (3 s F p)
  then show ?case
    by (auto simp: kmem_inv_def page_ok_def kmem_pool_def)
qed

section \<open>freerange and kinit\<close>

definition pages :: "u64 \<Rightarrow> nat \<Rightarrow> u64 list" where
  "pages p n = map (\<lambda>i. p + of_nat (4096 * i)) [0..<n]"

lemma pages_0 [simp]: "pages p 0 = []"
  by (simp add: pages_def)

lemma pages_Suc: "pages p (Suc n) = p # pages (p + 4096) n"
  by (simp add: pages_def map_upt_Suc algebra_simps del: upt_Suc)

lemma aligned_next: "p mod 4096 = 0 \<Longrightarrow> (p + 4096 :: u64) mod 4096 = 0"
  by (simp add: aligned_unat unat_word_ariths mod_mod_cancel)

lemma unat_and_page: "unat ((x :: u64) AND - 4096) = 4096 * (unat x div 4096)"
proof -
  have m: "(- 4096 :: u64) = NOT (mask 12)"
    by (simp add: mask_eq_exp_minus_1)
  have "x AND NOT (mask 12) = push_bit 12 (drop_bit 12 x)"
    by (rule bit_word_eqI)
       (auto simp: bit_and_iff bit_not_iff bit_mask_iff bit_push_bit_iff bit_drop_bit_eq)
  moreover have "unat x < 2 ^ 64"
    using unsigned_less [of x, where ?'a = nat] by simp
  then have "4096 * (unat x div 4096) < 2 ^ 64"
    by (metis le_less_trans times_div_less_eq_dividend)
  ultimately show ?thesis
    by (simp add: m push_bit_eq_mult drop_bit_eq_div unat_word_ariths unat_div)
qed

lemma unat_PGROUNDUP:
  assumes "unat sz + 4095 < 2 ^ 64"
  shows "unat (PGROUNDUP sz) = 4096 * ((unat sz + 4095) div 4096)"
proof -
  have "unat (sz + 4095) = unat sz + 4095"
    using unat_add_of_nat [of sz 4096 4095] assms by simp
  then show ?thesis
    by (simp add: PGROUNDUP_def unat_and_page algebra_simps)
qed

lemma PGROUNDUP_props:
  assumes "unat sz + 4095 < 2 ^ 64"
  shows "PGROUNDUP sz mod 4096 = 0" and "sz \<le> PGROUNDUP sz" and "unat (PGROUNDUP sz) < unat sz + 4096"
proof -
  note u = unat_PGROUNDUP [OF assms]
  show "PGROUNDUP sz mod 4096 = 0"
    by (simp add: aligned_unat u)
  have "(unat sz + 4095) mod 4096 < 4096" by simp
  then have "unat sz \<le> 4096 * ((unat sz + 4095) div 4096)"
    using div_mult_mod_eq [of "unat sz + 4095" 4096] by linarith
  then show "sz \<le> PGROUNDUP sz"
    by (simp add: word_le_nat_alt u)
  show "unat (PGROUNDUP sz) < unat sz + 4096"
    using u div_mult_mod_eq [of "unat sz + 4095" 4096] by linarith
qed

lemma page_span:
  assumes "p \<le> (e :: nat)"
  shows "p + 4096 * ((e - p) div 4096) \<le> e" and "e < p + 4096 * Suc ((e - p) div 4096)"
  using assms dividend_less_times_div [of 4096 "e - p"] times_div_less_eq_dividend [of 4096 "e - p"]
  by simp_all

lemma freerange_from_Ok:
  assumes "kmem_inv s xs" "can_lock LKmem s" "p mod 4096 = 0" "k_end (syms s) \<le> p" "p \<noteq> 0"
    and "unat p + 4096 * n \<le> unat e" "unat e < unat p + 4096 * Suc n" "e \<le> PHYSTOP"
    and "\<forall>x \<in> set xs. x < p"
  shows "wp (freerange_from p e) (\<lambda>_ s'. kmem_inv s' (rev (pages p n) @ xs)
     \<and> lk_touch (lks s') = lk_touch (lks s) \<and> syms s' = syms s) s"
  using assms
proof (induction n arbitrary: s xs p)
  case 0
  then show ?case by (simp add: freerange_from.simps [of p e])
next
  case (Suc n)
  have nx: "unat (p + 4096) = unat p + 4096"
    using unat_add_of_nat [of p 4097 4096] Suc.prems(6) unsigned_less [of e, where ?'a = nat] by simp
  let ?s = "kfree_mem p s\<lparr>lks := lk_touch (lks s)\<rparr>"
  have p: "page_ok (syms s) p"
    using Suc.prems nx by (simp add: page_ok_def word_less_nat_alt word_le_nat_alt)
  then have "kfree p s = Ok () ?s"
    using Suc.prems by (simp add: kfree_Ok)
  moreover have "kmem_inv ?s (p # xs)"
    using Suc.prems p by (auto intro: kmem_inv_kfree)
  then have "wp (freerange_from (p + 4096) e) (\<lambda>_ s'. kmem_inv s' (rev (pages (p + 4096) n) @ p # xs)
     \<and> lk_touch (lks s') = lk_touch (lks ?s) \<and> syms s' = syms ?s) ?s"
    using Suc.prems nx
    by (intro Suc.IH)
       (auto simp: aligned_next word_le_nat_alt word_less_nat_alt word_unat_eq_iff)
  ultimately show ?case
    using Suc.prems by (simp add: freerange_from.simps [of p e] pages_Suc wp_def)
qed

section \<open>What the allocator promises\<close>

text \<open>C3: The free list stays well formed.  With a well-formed list, \<open>kalloc\<close> returns 0 exactly
  when no page is free; otherwise it takes the first free page off the list, fills it with 5s
  and touches no other byte.  Freeing that page again puts it back in front.\<close>

theorem kalloc_correct:
  assumes "kmem_inv s xs" and "can_lock LKmem s"
  shows "case xs of
      [] \<Rightarrow> kalloc s = Ok 0 (s\<lparr>lks := lk_touch (lks s)\<rparr>)
    | x # ys \<Rightarrow> wp kalloc (\<lambda>p s1. p = x \<and> kmem_inv s1 ys \<and> x \<notin> set ys
          \<and> (\<forall>a. mem s1 a = (if in_page x a then 5 else mem s a))
          \<and> wp (kfree p) (\<lambda>_ s2. kmem_inv s2 xs) s1) s"
proof (cases xs)
  case Nil
  then show ?thesis
    using assms by (simp add: kalloc_Ok kmem_inv_freelist)
next
  case (Cons x ys)
  let ?s1 = "kalloc_mem s\<lparr>lks := lk_touch (lks s)\<rparr>"
  have x: "freelist s = x" "x \<noteq> 0" "x mod 4096 = 0" "x \<notin> set ys" "page_ok (syms s) x"
    using assms(1) Cons by (auto simp: kmem_inv_def page_ok_def)
  have "kalloc s = Ok x ?s1"
    using x assms by (simp add: kalloc_Ok)
  moreover have i: "kmem_inv ?s1 ys"
    using assms(1) Cons by (simp add: kmem_inv_kalloc)
  moreover have "mem ?s1 a = (if in_page x a then 5 else mem s a)" for a
    using x by (simp add: kalloc_mem_def memset_page)
  moreover have "wp (kfree x) (\<lambda>_ s2. kmem_inv s2 xs) ?s1"
    using i x assms(2) Cons kmem_inv_kfree [OF i, of x] by (simp add: wp_def kfree_Ok)
  ultimately show ?thesis
    using Cons x(4) by (simp add: wp_def)
qed

definition one_page :: kstate where
  "one_page = zero_state\<lparr>freelist := 0x80100000\<rparr>"

lemma kmem_inv_one_page: "kmem_inv one_page [0x80100000]"
  by (simp add: kmem_inv_def one_page_def page_ok_def zero_state_def ld_def)

theorem kalloc_correct_witness:
  "wp kalloc (\<lambda>p s1. p = 0x80100000 \<and> kmem_inv s1 [] \<and> mem s1 0x80100123 = 5) one_page"
proof -
  have "can_lock LKmem one_page"
    by (simp add: one_page_def)
  with kalloc_correct [OF kmem_inv_one_page this] show ?thesis
    by (simp, elim wp_mono) (simp add: in_page_def)
qed

text \<open>C5: \<open>kfree\<close> adds a page to the free list.  On a well-formed list, for an aligned page of
  allocatable memory that is not free already, it returns with that page in front of the list, with
  the page overwritten (1s behind the link) and no other byte of memory changed.  Any other
  address, one that is not page-aligned or lies outside allocatable memory, panics
  before anything is written.\<close>

theorem kfree_correct:
  assumes "kmem_inv s xs" and "can_lock LKmem s" and "p \<notin> set xs" and "0 < k_end (syms s)"
  shows "if p mod PGSIZE = 0 \<and> k_end (syms s) \<le> p \<and> p < PHYSTOP
    then wp (kfree p) (\<lambda>_ s'. kmem_inv s' (p # xs) \<and> (\<forall>a. in_page p a \<and> 8 \<le> a - p \<longrightarrow> mem s' a = 1)
        \<and> (\<forall>a. \<not> in_page p a \<longrightarrow> mem s' a = mem s a) \<and> s' = s\<lparr>mem := mem s', freelist := p, lks := lk_touch (lks s)\<rparr>) s
    else kfree p s = Panic ''kfree'' s"
proof (cases "page_ok (syms s) p")
  case True
  then have p: "p mod 4096 = 0" "k_end (syms s) \<le> p" "p < PHYSTOP" by (simp_all add: page_ok_def)
  have "mem (kfree_mem p s) a = 1" if "in_page p a" "8 \<le> a - p" for a
    using that p(1) by (simp add: kfree_mem_def st_def memset_page in_page_def word_le_nat_alt)
  moreover have "mem (kfree_mem p s) a = mem s a" if "\<not> in_page p a" for a
    using kfree_mem_outside [OF p(1) that] .
  moreover have "freelist (kfree_mem p s) = p" by (simp add: kfree_mem_def)
  ultimately show ?thesis
    using p kfree_Ok [OF assms(2) True] kmem_inv_kfree [OF assms(1) True assms(3)]
    by (simp add: wp_def kfree_mem_def)
next
  case False
  have "p \<noteq> 0" if "k_end (syms s) \<le> p" using that assms(4) by auto
  then show ?thesis using False by (auto simp: page_ok_def kfree_def)
qed

theorem kfree_correct_witness:
  "wp (kfree 0x80101000) (\<lambda>_ s'. kmem_inv s' [0x80101000, 0x80100000] \<and> mem s' 0x80101123 = 1) one_page
   \<and> kfree 0x80101001 one_page = Panic ''kfree'' one_page"
proof -
  have c: "can_lock LKmem one_page" "0 < k_end (syms one_page)" "k_end (syms one_page) = 0x80026000"
    by (simp_all add: one_page_def, simp_all add: zero_state_def)
  note k = kfree_correct [OF kmem_inv_one_page c(1) _ c(2)]
  have "wp (kfree 0x80101000) (\<lambda>_ s'. kmem_inv s' [0x80101000, 0x80100000] \<and> mem s' 0x80101123 = 1) one_page"
    using k [of "0x80101000"] by (simp add: c(3), elim wp_mono) (simp add: in_page_def)
  moreover have "kfree 0x80101001 one_page = Panic ''kfree'' one_page"
    using k [of "0x80101001"] by simp
  ultimately show ?thesis by blast
qed

text \<open>C4: \<open>kinit\<close> returns with exactly the pages between the end of the kernel image and
  \<open>PHYSTOP\<close> on the free list, each once, the highest first.\<close>

theorem kinit_correct:
  assumes "can_lock LKmem s" and "freelist s = 0" and "0 < k_end (syms s)" and "k_end (syms s) \<le> PHYSTOP"
  shows "wp kinit (\<lambda>_ s'. kmem_inv s' (rev (pages (PGROUNDUP (k_end (syms s)))
     ((unat PHYSTOP - unat (PGROUNDUP (k_end (syms s)))) div 4096)))) s"
proof -
  let ?e = "k_end (syms s)"
  let ?p = "PGROUNDUP ?e" and ?s = "s\<lparr>lks := upd_spin LKmem
    (\<lambda>k. k\<lparr>lk_name := ''kmem'', locked := False, lk_cpu := None\<rparr>) (lks s)\<rparr>"
  have e: "unat ?e \<le> 2281701376"
    using assms(4) by (simp add: word_le_nat_alt)
  then have P: "unat ?p = 4096 * ((unat ?e + 4095) div 4096)" "?p mod 4096 = 0" "?e \<le> ?p"
    using PGROUNDUP_props [of ?e] unat_PGROUNDUP [of ?e] by simp_all
  have "(unat ?e + 4095) div 4096 \<le> (2281701376 + 4095) div 4096"
    using e by (intro div_le_mono) simp
  then have le: "unat ?p \<le> 2281701376"
    using P(1) by simp
  have "wp (freerange_from ?p PHYSTOP) (\<lambda>_ s'. kmem_inv s' (rev (pages ?p
     ((unat PHYSTOP - unat ?p) div 4096)) @ []) \<and> lk_touch (lks s') = lk_touch (lks ?s)
     \<and> syms s' = syms ?s) ?s"
  proof (rule freerange_from_Ok)
    show "kmem_inv ?s []"
      using assms by (simp add: kmem_inv_def)
    show "can_lock LKmem ?s"
      using assms by (auto simp: lk_ok_def upd_spin_def intr_def)
    show "unat ?p + 4096 * ((unat PHYSTOP - unat ?p) div 4096) \<le> unat PHYSTOP"
      and "unat PHYSTOP < unat ?p + 4096 * Suc ((unat PHYSTOP - unat ?p) div 4096)"
      using le by (intro page_span, simp)+
  qed (use P assms(3) in auto)
  then show ?thesis
    by (simp add: kinit_def freerange_def initlock_def) (elim wp_mono, simp)
qed

theorem kinit_correct_witness: "wp kinit (\<lambda>_ s'. \<exists>xs. kmem_inv s' xs \<and> length xs = 32730) zero_state"
proof -
  have k: "k_end (syms zero_state) = 0x80026000" "freelist zero_state = 0"
    by (simp_all add: zero_state_def)
  then have "PGROUNDUP (k_end (syms zero_state)) = 0x80026000"
    by (simp add: PGROUNDUP_def)
  then have "wp kinit (\<lambda>_ s'. kmem_inv s' (rev (pages 0x80026000 32730))) zero_state"
    using kinit_correct [of zero_state] k by simp
  then show ?thesis
    by (rule wp_mono) (auto simp: pages_def intro!: exI [of _ "rev (pages 0x80026000 32730)"])
qed

end
