(* ===== verification/Vm.thy ===== *)
theory Vm
  imports Kalloc
begin

text \<open>
  \<open>kernel/vm.c\<close>: Sv39 page tables.  Page-table pages and user pages are pages of \<open>mem\<close>; a
  page-table entry is the 64-bit word at its address, and \<open>walk\<close> returns that address or 0.
  Kernel objects that \<open>copyout\<close> reads and \<open>copyin\<close> fills are arrays seen from the pointer
  passed; the functions that fill one return its new contents with their result.

  The loops of \<open>mappages\<close>, \<open>uvmunmap\<close>, \<open>uvmalloc\<close> and \<open>uvmcopy\<close> end at the latest when \<open>walk\<close>
  panics on an address beyond \<open>MAXVA\<close>; the definitions repeat that test of \<open>walk\<close> where the
  loop body reaches it, so that they are total.
\<close>

section \<open>Moving bytes between a kernel object and memory\<close>

definition blit :: "u64 \<Rightarrow> nat \<Rightarrow> (nat \<Rightarrow> byte) \<Rightarrow> memory \<Rightarrow> memory" where
  "blit d n f m = (\<lambda>x. if unat (x - d) < n then f (unat (x - d)) else m x)"

section \<open>Walking a page table\<close>

definition pte_addr :: "u64 \<Rightarrow> nat \<Rightarrow> u64 \<Rightarrow> u64" where
  "pte_addr pt level va = pt + 8 * PX level va"

definition load_pte :: "u64 \<Rightarrow> u64 k" where
  "load_pte a = gets (\<lambda>s. ld 8 (mem s) a)"

definition store_pte :: "u64 \<Rightarrow> u64 \<Rightarrow> unit k" where
  "store_pte a v = modify (\<lambda>s. s\<lparr>mem := st 8 a v (mem s)\<rparr>)"

definition zero_page :: "u64 \<Rightarrow> unit k" where
  "zero_page p = modify (\<lambda>s. s\<lparr>mem := memset p 0 4096 (mem s)\<rparr>)"

fun walk_level :: "nat \<Rightarrow> u64 \<Rightarrow> u64 \<Rightarrow> bool \<Rightarrow> u64 k" where
  "walk_level 0 pt va alloc = return (pte_addr pt 0 va)"
| "walk_level (Suc l) pt va alloc =
     bind (load_pte (pte_addr pt (Suc l) va)) (\<lambda>v.
     if v AND PTE_V \<noteq> 0 then walk_level l (PTE2PA v) va alloc
     else if \<not> alloc then return 0
     else bind kalloc (\<lambda>p.
       if p = 0 then return 0
       else seq (zero_page p) (
            seq (store_pte (pte_addr pt (Suc l) va) (PA2PTE p OR PTE_V))
            (walk_level l p va alloc))))"

definition walk :: "u64 \<Rightarrow> u64 \<Rightarrow> bool \<Rightarrow> u64 k" where
  "walk pt va alloc = seq (panic_if (MAXVA \<le> va) ''walk'') (walk_level 2 pt va alloc)"

definition walkaddr :: "u64 \<Rightarrow> u64 \<Rightarrow> u64 k" where
  "walkaddr pt va =
     (if MAXVA \<le> va then return 0
      else bind (walk pt va False) (\<lambda>pte.
        if pte = 0 then return 0
        else bind (load_pte pte) (\<lambda>v.
          if v AND PTE_V = 0 then return 0
          else if v AND PTE_U = 0 then return 0
          else return (PTE2PA v))))"

section \<open>Mapping and unmapping\<close>

lemma next_page_below:
  assumes "\<not> MAXVA \<le> (a :: u64)"
  shows "unat MAXVA - unat (a + PGSIZE) < unat MAXVA - unat a"
proof -
  have "unat a < 0x4000000000"
    using assms by (simp add: word_le_nat_alt)
  then have "unat (a + 4096) = unat a + 4096"
    using unat_add_of_nat [of a 4097 4096] by simp
  then show ?thesis
    using \<open>unat a < _\<close> by simp
qed

function mappages_from :: "u64 \<Rightarrow> u64 \<Rightarrow> u64 \<Rightarrow> u64 \<Rightarrow> u64 \<Rightarrow> int k" where
  "mappages_from pt a last_va pa perm =
     (if MAXVA \<le> a then panic ''walk''
      else bind (walk pt a True) (\<lambda>pte.
        if pte = 0 then return (- 1)
        else bind (load_pte pte) (\<lambda>v.
          seq (panic_if (v AND PTE_V \<noteq> 0) ''remap'') (
          seq (store_pte pte (PA2PTE pa OR perm OR PTE_V))
          (if a = last_va then return 0
           else mappages_from pt (a + PGSIZE) last_va (pa + PGSIZE) perm)))))"
  by pat_completeness auto

termination
  by (relation "measure (\<lambda>(pt, a, l, pa, perm). unat MAXVA - unat a)")
     (use next_page_below in simp_all)

declare mappages_from.simps [simp del]

definition mappages :: "u64 \<Rightarrow> u64 \<Rightarrow> u64 \<Rightarrow> u64 \<Rightarrow> u64 \<Rightarrow> int k" where
  "mappages pt va sz pa perm =
     mappages_from pt (PGROUNDDOWN va) (PGROUNDDOWN (va + sz - 1)) pa perm"

function uvmunmap_from :: "u64 \<Rightarrow> u64 \<Rightarrow> u64 \<Rightarrow> bool \<Rightarrow> unit k" where
  "uvmunmap_from pt a end_va do_free =
     (if a < end_va then
        if MAXVA \<le> a then panic ''walk''
        else bind (walk pt a False) (\<lambda>pte.
          seq (panic_if (pte = 0) ''uvmunmap: walk'') (
          bind (load_pte pte) (\<lambda>v.
          seq (panic_if (v AND PTE_V = 0) ''uvmunmap: not mapped'') (
          seq (panic_if (PTE_FLAGS v = PTE_V) ''uvmunmap: not a leaf'') (
          seq (whenM do_free (kfree (PTE2PA v))) (
          seq (store_pte pte 0)
          (uvmunmap_from pt (a + PGSIZE) end_va do_free)))))))
      else return ())"
  by pat_completeness auto

termination
  by (relation "measure (\<lambda>(pt, a, e, f). unat MAXVA - unat a)")
     (use next_page_below in simp_all)

declare uvmunmap_from.simps [simp del]

definition uvmunmap :: "u64 \<Rightarrow> u64 \<Rightarrow> u64 \<Rightarrow> bool \<Rightarrow> unit k" where
  "uvmunmap pt va npages do_free =
     seq (panic_if (va mod PGSIZE \<noteq> 0) ''uvmunmap: not aligned'')
     (uvmunmap_from pt va (va + npages * PGSIZE) do_free)"

section \<open>The kernel's page table\<close>

definition kvmmap :: "u64 \<Rightarrow> u64 \<Rightarrow> u64 \<Rightarrow> u64 \<Rightarrow> unit k" where
  "kvmmap va pa sz perm =
     bind (gets kernel_pagetable) (\<lambda>kpt.
     bind (mappages kpt va sz pa perm) (\<lambda>r.
     panic_if (r \<noteq> 0) ''kvmmap''))"

definition kvminit :: "unit k" where
  "kvminit =
     bind kalloc (\<lambda>p.
     seq (modify (\<lambda>s. s\<lparr>kernel_pagetable := p\<rparr>)) (
     seq (zero_page p) (
     seq (kvmmap UART0 UART0 PGSIZE (PTE_R OR PTE_W)) (
     seq (kvmmap VIRTIO0 VIRTIO0 PGSIZE (PTE_R OR PTE_W)) (
     seq (kvmmap CLINT CLINT 0x10000 (PTE_R OR PTE_W)) (
     seq (kvmmap PLIC PLIC 0x400000 (PTE_R OR PTE_W)) (
     bind (gets syms) (\<lambda>y.
     seq (kvmmap KERNBASE KERNBASE (k_etext y - KERNBASE) (PTE_R OR PTE_X)) (
     seq (kvmmap (k_etext y) (k_etext y) (PHYSTOP - k_etext y) (PTE_R OR PTE_W))
     (kvmmap TRAMPOLINE (k_trampoline y) PGSIZE (PTE_R OR PTE_X)))))))))))"

definition kvminithart :: "unit k" where
  "kvminithart = modify (\<lambda>s. s\<lparr>csr := (csr s)\<lparr>satp := MAKE_SATP (kernel_pagetable s)\<rparr>\<rparr>)"

definition kvmpa :: "u64 \<Rightarrow> u64 k" where
  "kvmpa va =
     bind (gets kernel_pagetable) (\<lambda>kpt.
     bind (walk kpt va False) (\<lambda>pte.
     seq (panic_if (pte = 0) ''kvmpa'') (
     bind (load_pte pte) (\<lambda>v.
     seq (panic_if (v AND PTE_V = 0) ''kvmpa'')
     (return (PTE2PA v + va mod PGSIZE))))))"

section \<open>User address spaces\<close>

definition uvmcreate :: "u64 k" where
  "uvmcreate = bind kalloc (\<lambda>p. if p = 0 then return 0 else seq (zero_page p) (return p))"

definition uvminit :: "u64 \<Rightarrow> (nat \<Rightarrow> byte) \<Rightarrow> u32 \<Rightarrow> unit k" where
  "uvminit pt src sz =
     seq (panic_if (4096 \<le> sz) ''inituvm: more than a page'') (
     bind kalloc (\<lambda>p.
     seq (zero_page p) (
     bind (mappages pt 0 PGSIZE p (PTE_W OR PTE_R OR PTE_X OR PTE_U)) (\<lambda>_.
     modify (\<lambda>s. s\<lparr>mem := blit p (unat sz) src (mem s)\<rparr>)))))"

text \<open>\<open>int npages\<close> truncates the page count to 32 bits and \<open>uvmunmap\<close> extends it again.\<close>

definition uvmdealloc :: "u64 \<Rightarrow> u64 \<Rightarrow> u64 \<Rightarrow> u64 k" where
  "uvmdealloc pt oldsz newsz =
     (if oldsz \<le> newsz then return oldsz
      else seq (whenM (PGROUNDUP newsz < PGROUNDUP oldsz)
             (uvmunmap pt (PGROUNDUP newsz)
                (scast (ucast ((PGROUNDUP oldsz - PGROUNDUP newsz) div PGSIZE) :: u32)) True))
           (return newsz))"

function uvmalloc_from :: "u64 \<Rightarrow> u64 \<Rightarrow> u64 \<Rightarrow> u64 \<Rightarrow> u64 k" where
  "uvmalloc_from pt oldsz a newsz =
     (if a < newsz then
        bind kalloc (\<lambda>p.
        if p = 0 then bind (uvmdealloc pt a oldsz) (\<lambda>_. return 0)
        else seq (zero_page p)
          (if MAXVA \<le> a then panic ''walk''
           else bind (mappages pt a PGSIZE p (PTE_W OR PTE_X OR PTE_R OR PTE_U)) (\<lambda>r.
             if r \<noteq> 0 then seq (kfree p) (bind (uvmdealloc pt a oldsz) (\<lambda>_. return 0))
             else uvmalloc_from pt oldsz (a + PGSIZE) newsz)))
      else return newsz)"
  by pat_completeness auto

termination
  by (relation "measure (\<lambda>(pt, o0, a, n). unat MAXVA - unat a)")
     (use next_page_below in simp_all)

declare uvmalloc_from.simps [simp del]

definition uvmalloc :: "u64 \<Rightarrow> u64 \<Rightarrow> u64 \<Rightarrow> u64 k" where
  "uvmalloc pt oldsz newsz =
     (if newsz < oldsz then return oldsz
      else uvmalloc_from pt (PGROUNDUP oldsz) (PGROUNDUP oldsz) newsz)"

text \<open>\<open>freewalk\<close> recurses as deep as the tree of page-table pages; a tree that \<open>walk\<close> built has
  three levels.  The first argument bounds the depth: below it the recursion of the C code
  has left the page table.\<close>

fun freewalk :: "nat \<Rightarrow> u64 \<Rightarrow> unit k" where
  "freewalk 0 pt = spin"
| "freewalk (Suc d) pt =
     seq (forM [0..<512] (\<lambda>i.
       bind (load_pte (pt + 8 * of_nat i)) (\<lambda>pte.
       if pte AND PTE_V \<noteq> 0 \<and> pte AND (PTE_R OR PTE_W OR PTE_X) = 0
       then seq (freewalk d (PTE2PA pte)) (store_pte (pt + 8 * of_nat i) 0)
       else panic_if (pte AND PTE_V \<noteq> 0) ''freewalk: leaf'')))
     (kfree pt)"

definition uvmfree :: "u64 \<Rightarrow> u64 \<Rightarrow> unit k" where
  "uvmfree pt sz =
     seq (whenM (0 < sz) (uvmunmap pt 0 (PGROUNDUP sz div PGSIZE) True))
     (freewalk 3 pt)"

function uvmcopy_from :: "u64 \<Rightarrow> u64 \<Rightarrow> u64 \<Rightarrow> u64 \<Rightarrow> int k" where
  "uvmcopy_from old new i sz =
     (if i < sz then
        if MAXVA \<le> i then panic ''walk''
        else bind (walk old i False) (\<lambda>pte.
          seq (panic_if (pte = 0) ''uvmcopy: pte should exist'') (
          bind (load_pte pte) (\<lambda>v.
          seq (panic_if (v AND PTE_V = 0) ''uvmcopy: page not present'') (
          bind kalloc (\<lambda>p.
          if p = 0 then seq (uvmunmap new 0 (i div PGSIZE) True) (return (- 1))
          else
            seq (modify (\<lambda>s. s\<lparr>mem := memmove p (PTE2PA v) 4096 (mem s)\<rparr>)) (
            bind (mappages new i PGSIZE p (PTE_FLAGS v)) (\<lambda>r.
            if r \<noteq> 0
            then seq (kfree p) (seq (uvmunmap new 0 (i div PGSIZE) True) (return (- 1)))
            else uvmcopy_from old new (i + PGSIZE) sz)))))))
      else return 0)"
  by pat_completeness auto

termination
  by (relation "measure (\<lambda>(old, new, i, sz). unat MAXVA - unat i)")
     (use next_page_below in simp_all)

declare uvmcopy_from.simps [simp del]

definition uvmcopy :: "u64 \<Rightarrow> u64 \<Rightarrow> u64 \<Rightarrow> int k" where
  "uvmcopy old new sz = uvmcopy_from old new 0 sz"

definition uvmclear :: "u64 \<Rightarrow> u64 \<Rightarrow> unit k" where
  "uvmclear pt va =
     bind (walk pt va False) (\<lambda>pte.
     seq (panic_if (pte = 0) ''uvmclear'') (
     bind (load_pte pte) (\<lambda>v. store_pte pte (v AND NOT PTE_U))))"

section \<open>Copying between kernel and user memory\<close>

definition chunk :: "u64 \<Rightarrow> u64 \<Rightarrow> u64" where
  "chunk va len =
     (let n = PGSIZE - (va - PGROUNDDOWN va) in if len < n then len else n)"

lemma page_offset_less: "va - PGROUNDDOWN va < 4096"
proof -
  have "PGROUNDDOWN va \<le> va"
    by (simp add: PGROUNDDOWN_def word_le_nat_alt unat_and_page)
  then have "unat (va - PGROUNDDOWN va) = unat va mod 4096"
    by (simp add: unat_sub PGROUNDDOWN_def unat_and_page minus_mult_div_eq_mod)
  then show ?thesis
    by (simp add: word_less_nat_alt)
qed

lemma chunk_pos: "len \<noteq> 0 \<Longrightarrow> 0 < unat (chunk va len)" "chunk va len \<le> len"
  using page_offset_less [of va]
  by (auto simp: chunk_def Let_def unat_gt_0 word_le_nat_alt word_less_nat_alt unat_sub)

lemma chunk_decreases: "len \<noteq> 0 \<Longrightarrow> unat (len - chunk va len) < unat len"
  using chunk_pos(1) [of len va] chunk_pos(2) [of va len] by (simp add: unat_sub word_le_nat_alt)

function copyout :: "u64 \<Rightarrow> u64 \<Rightarrow> (nat \<Rightarrow> byte) \<Rightarrow> u64 \<Rightarrow> int k" where
  "copyout pt dstva src len =
     (if len \<noteq> 0 then
        bind (walkaddr pt (PGROUNDDOWN dstva)) (\<lambda>pa0.
        if pa0 = 0 then return (- 1)
        else
          seq (modify (\<lambda>s. s\<lparr>mem := blit (pa0 + (dstva - PGROUNDDOWN dstva))
                 (unat (chunk dstva len)) src (mem s)\<rparr>))
          (copyout pt (PGROUNDDOWN dstva + PGSIZE) (\<lambda>i. src (i + unat (chunk dstva len)))
             (len - chunk dstva len)))
      else return 0)"
  by pat_completeness auto

termination
  by (relation "measure (\<lambda>(pt, d, s, len). unat len)") (use chunk_decreases in simp_all)

declare copyout.simps [simp del]

text \<open>\<open>dst\<close> is the array being filled and \<open>i\<close> the index that the pointer has reached.\<close>

function copyin_from :: "u64 \<Rightarrow> (nat \<Rightarrow> byte) \<Rightarrow> nat \<Rightarrow> u64 \<Rightarrow> u64 \<Rightarrow> (int \<times> (nat \<Rightarrow> byte)) k" where
  "copyin_from pt dst i srcva len =
     (if len \<noteq> 0 then
        bind (walkaddr pt (PGROUNDDOWN srcva)) (\<lambda>pa0.
        if pa0 = 0 then return (- 1, dst)
        else bind (gets mem) (\<lambda>m.
          copyin_from pt
            (\<lambda>j. if i \<le> j \<and> j < i + unat (chunk srcva len)
                 then m (pa0 + (srcva - PGROUNDDOWN srcva) + of_nat (j - i)) else dst j)
            (i + unat (chunk srcva len)) (PGROUNDDOWN srcva + PGSIZE) (len - chunk srcva len)))
      else return (0, dst))"
  by pat_completeness auto

termination
  by (relation "measure (\<lambda>(pt, d, i, s, len). unat len)") (use chunk_decreases in simp_all)

declare copyin_from.simps [simp del]

definition copyin :: "u64 \<Rightarrow> (nat \<Rightarrow> byte) \<Rightarrow> u64 \<Rightarrow> u64 \<Rightarrow> (int \<times> (nat \<Rightarrow> byte)) k" where
  "copyin pt dst srcva len = copyin_from pt dst 0 srcva len"

text \<open>The inner loop of \<open>copyinstr\<close>: copies at most \<open>n\<close> bytes from \<open>p\<close> and reports whether it met
  the NUL, the array and the index reached.\<close>

fun copyinstr_page :: "memory \<Rightarrow> u64 \<Rightarrow> (nat \<Rightarrow> byte) \<Rightarrow> nat \<Rightarrow> nat \<Rightarrow> bool \<times> (nat \<Rightarrow> byte) \<times> nat" where
  "copyinstr_page m p dst i 0 = (False, dst, i)"
| "copyinstr_page m p dst i (Suc n) =
     (if m p = 0 then (True, dst(i := 0), i)
      else copyinstr_page m (p + 1) (dst(i := m p)) (Suc i) n)"

function copyinstr_from :: "u64 \<Rightarrow> (nat \<Rightarrow> byte) \<Rightarrow> nat \<Rightarrow> u64 \<Rightarrow> u64 \<Rightarrow> (int \<times> (nat \<Rightarrow> byte)) k" where
  "copyinstr_from pt dst i srcva mx =
     (if mx \<noteq> 0 then
        bind (walkaddr pt (PGROUNDDOWN srcva)) (\<lambda>pa0.
        if pa0 = 0 then return (- 1, dst)
        else bind (gets mem) (\<lambda>m.
          case copyinstr_page m (pa0 + (srcva - PGROUNDDOWN srcva)) dst i (unat (chunk srcva mx)) of
            (got_null, dst', i') \<Rightarrow>
              if got_null then return (0, dst')
              else copyinstr_from pt dst' i' (PGROUNDDOWN srcva + PGSIZE) (mx - chunk srcva mx)))
      else return (- 1, dst))"
  by pat_completeness auto

termination
  by (relation "measure (\<lambda>(pt, d, i, s, len). unat len)") (use chunk_decreases in simp_all)

declare copyinstr_from.simps [simp del]

definition copyinstr :: "u64 \<Rightarrow> (nat \<Rightarrow> byte) \<Rightarrow> u64 \<Rightarrow> u64 \<Rightarrow> (int \<times> (nat \<Rightarrow> byte)) k" where
  "copyinstr pt dst srcva mx = copyinstr_from pt dst 0 srcva mx"

end
