(* ===== verification/Sched.thy ===== *)
theory Sched
  imports Vm
begin

text \<open>
  The scheduling half of \<open>kernel/proc.c\<close>: the process table, \<open>sched\<close>, \<open>yield\<close>, \<open>sleep\<close>, \<open>wakeup\<close>,
  \<open>kill\<close>, the scheduler loop, process page tables and \<open>either_copyout\<close>/\<open>either_copyin\<close>.

  A context switch ends a run of the model with \<open>Swtch\<close>, whose second component is the rest
  of the kernel thread.  Following a null \<open>struct proc *\<close> is a page fault in the kernel, on
  which \<open>kerneltrap\<close> panics.
\<close>

section \<open>Pointers into the process table\<close>

definition deref :: "'a option \<Rightarrow> 'a k" where
  "deref p = (case p of None \<Rightarrow> panic ''kerneltrap'' | Some x \<Rightarrow> return x)"

definition curproc :: "nat k" where
  "curproc = bind myproc deref"

definition upd_proc :: "nat \<Rightarrow> (proc \<Rightarrow> proc) \<Rightarrow> unit k" where
  "upd_proc p f = modify (\<lambda>s. s\<lparr>procs := (procs s)(p := f (procs s p))\<rparr>)"

text \<open>The fields of \<open>struct trapframe\<close> are 64-bit words at these offsets in the trapframe page.\<close>

abbreviation (input) TF_KERNEL_SATP :: u64 where "TF_KERNEL_SATP \<equiv> 0"
abbreviation (input) TF_KERNEL_SP :: u64 where "TF_KERNEL_SP \<equiv> 8"
abbreviation (input) TF_KERNEL_TRAP :: u64 where "TF_KERNEL_TRAP \<equiv> 16"
abbreviation (input) TF_EPC :: u64 where "TF_EPC \<equiv> 24"
abbreviation (input) TF_KERNEL_HARTID :: u64 where "TF_KERNEL_HARTID \<equiv> 32"
abbreviation (input) TF_SP :: u64 where "TF_SP \<equiv> 48"
abbreviation (input) TF_A0 :: u64 where "TF_A0 \<equiv> 112"
abbreviation (input) TF_A1 :: u64 where "TF_A1 \<equiv> 120"
abbreviation (input) TF_A7 :: u64 where "TF_A7 \<equiv> 168"

definition tf_get :: "nat \<Rightarrow> u64 \<Rightarrow> u64 k" where
  "tf_get p off = gets (\<lambda>s. ld 8 (mem s) (trapframe (procs s p) + off))"

definition tf_set :: "nat \<Rightarrow> u64 \<Rightarrow> u64 \<Rightarrow> unit k" where
  "tf_set p off v = modify (\<lambda>s. s\<lparr>mem := st 8 (trapframe (procs s p) + off) v (mem s)\<rparr>)"

section \<open>The process table\<close>

definition procinit :: "unit k" where
  "procinit =
     seq (initlock LPid ''nextpid'') (
     seq (forM [0..<NPROC] (\<lambda>p.
       seq (initlock (LProc p) ''proc'') (
       bind kalloc (\<lambda>pa.
       seq (panic_if (pa = 0) ''kalloc'') (
       seq (kvmmap (KSTACK p) pa PGSIZE (PTE_R OR PTE_W))
       (upd_proc p (\<lambda>q. q\<lparr>kstack := KSTACK p\<rparr>)))))))
     kvminithart)"

definition allocpid :: "int k" where
  "allocpid =
     seq (acquire LPid) (
     bind (gets nextpid) (\<lambda>n.
     seq (modify (\<lambda>s. s\<lparr>nextpid := nextpid s + 1\<rparr>)) (
     seq (release LPid)
     (return n))))"

definition proc_pagetable :: "nat \<Rightarrow> u64 k" where
  "proc_pagetable p =
     bind uvmcreate (\<lambda>pt.
     if pt = 0 then return 0
     else
       bind (gets (\<lambda>s. k_trampoline (syms s))) (\<lambda>tramp.
       bind (mappages pt TRAMPOLINE PGSIZE tramp (PTE_R OR PTE_X)) (\<lambda>r.
       if r < 0 then seq (uvmfree pt 0) (return 0)
       else
         bind (gets (\<lambda>s. trapframe (procs s p))) (\<lambda>tf.
         bind (mappages pt TRAPFRAME PGSIZE tf (PTE_R OR PTE_W)) (\<lambda>r2.
         if r2 < 0 then seq (uvmunmap pt TRAMPOLINE 1 False) (seq (uvmfree pt 0) (return 0))
         else return pt)))))"

definition proc_freepagetable :: "u64 \<Rightarrow> u64 \<Rightarrow> unit k" where
  "proc_freepagetable pt sz =
     seq (uvmunmap pt TRAMPOLINE 1 False) (
     seq (uvmunmap pt TRAPFRAME 1 False)
     (uvmfree pt sz))"

definition freeproc :: "nat \<Rightarrow> unit k" where
  "freeproc p =
     bind (gets (\<lambda>s. trapframe (procs s p))) (\<lambda>tf.
     seq (whenM (tf \<noteq> 0) (kfree tf)) (
     seq (upd_proc p (\<lambda>q. q\<lparr>trapframe := 0\<rparr>)) (
     bind (gets (\<lambda>s. procs s p)) (\<lambda>q.
     seq (whenM (pagetable q \<noteq> 0) (proc_freepagetable (pagetable q) (psz q)))
     (upd_proc p (\<lambda>q. q\<lparr>pagetable := 0, psz := 0, pid := 0, parent := None,
        pname := (pname q)(0 := 0), pchan := None, killed := False, xstate := 0,
        pstate := UNUSED\<rparr>))))))"

text \<open>The scan of \<open>allocproc\<close> returns holding the lock of the slot it found.\<close>

fun allocproc_scan :: "nat list \<Rightarrow> nat option k" where
  "allocproc_scan [] = return None"
| "allocproc_scan (p # ps) =
     seq (acquire (LProc p)) (
     bind (gets (\<lambda>s. pstate (procs s p))) (\<lambda>st.
     if st = UNUSED then return (Some p)
     else seq (release (LProc p)) (allocproc_scan ps)))"

definition allocproc :: "nat option k" where
  "allocproc =
     bind (allocproc_scan [0..<NPROC]) (\<lambda>r.
     case r of None \<Rightarrow> return None
     | Some p \<Rightarrow>
       bind allocpid (\<lambda>n.
       seq (upd_proc p (\<lambda>q. q\<lparr>pid := n\<rparr>)) (
       bind kalloc (\<lambda>tf.
       seq (upd_proc p (\<lambda>q. q\<lparr>trapframe := tf\<rparr>)) (
       if tf = 0 then seq (release (LProc p)) (return None)
       else
         bind (proc_pagetable p) (\<lambda>pt.
         seq (upd_proc p (\<lambda>q. q\<lparr>pagetable := pt\<rparr>)) (
         if pt = 0 then seq (freeproc p) (seq (release (LProc p)) (return None))
         else
           bind (gets (\<lambda>s. k_forkret (syms s))) (\<lambda>fr.
           seq (upd_proc p (\<lambda>q. q\<lparr>pcontext :=
                  \<lparr>cx_ra = fr, cx_sp = kstack q + PGSIZE, cx_s = \<lambda>_. 0\<rparr>\<rparr>))
           (return (Some p))))))))))"

text \<open>\<open>uint sz\<close> truncates \<open>p->sz\<close> to 32 bits, and \<open>sz + n\<close> wraps there.\<close>

definition growproc :: "int \<Rightarrow> int k" where
  "growproc n =
     bind curproc (\<lambda>p.
     bind (gets (\<lambda>s. procs s p)) (\<lambda>q.
     let sz = ucast (psz q) :: u32 in
     if 0 < n then
       bind (uvmalloc (pagetable q) (ucast sz) (ucast (sz + word_of_int n))) (\<lambda>r.
       let sz' = ucast r :: u32 in
       if sz' = 0 then return (- 1)
       else seq (upd_proc p (\<lambda>q. q\<lparr>psz := ucast sz'\<rparr>)) (return 0))
     else if n < 0 then
       bind (uvmdealloc (pagetable q) (ucast sz) (ucast (sz + word_of_int n))) (\<lambda>r.
       seq (upd_proc p (\<lambda>q. q\<lparr>psz := ucast (ucast r :: u32)\<rparr>)) (return 0))
     else seq (upd_proc p (\<lambda>q. q\<lparr>psz := ucast sz\<rparr>)) (return 0)))"

section \<open>Giving up and regaining the CPU\<close>

definition sched :: "unit k" where
  "sched =
     bind curproc (\<lambda>p.
     bind (holding (LProc p)) (\<lambda>h.
     seq (panic_if (\<not> h) ''sched p->lock'') (
     bind mycpu (\<lambda>c.
     bind (gets (\<lambda>s. noff (cpus (lks s) c))) (\<lambda>n.
     seq (panic_if (n \<noteq> 1) ''sched locks'') (
     bind (gets (\<lambda>s. pstate (procs s p))) (\<lambda>st.
     seq (panic_if (st = RUNNING) ''sched running'') (
     bind intr_get (\<lambda>i.
     seq (panic_if i ''sched interruptible'') (
     bind (gets (\<lambda>s. intena (cpus (lks s) c))) (\<lambda>ie.
     seq swtch (
     bind mycpu (\<lambda>c'.
     modify (\<lambda>s. s\<lparr>lks := upd_cpu c' (\<lambda>k. k\<lparr>intena := ie\<rparr>) (lks s)\<rparr>))))))))))))))"

definition yield :: "unit k" where
  "yield =
     bind curproc (\<lambda>p.
     seq (acquire (LProc p)) (
     seq (upd_proc p (\<lambda>q. q\<lparr>pstate := RUNNABLE\<rparr>)) (
     seq sched
     (release (LProc p)))))"

definition sleep :: "chan \<Rightarrow> lockid \<Rightarrow> unit k" where
  "sleep ch lk =
     bind curproc (\<lambda>p.
     seq (whenM (lk \<noteq> LProc p) (seq (acquire (LProc p)) (release lk))) (
     seq (upd_proc p (\<lambda>q. q\<lparr>pchan := Some ch\<rparr>)) (
     seq (upd_proc p (\<lambda>q. q\<lparr>pstate := SLEEPING\<rparr>)) (
     seq sched (
     seq (upd_proc p (\<lambda>q. q\<lparr>pchan := None\<rparr>))
     (whenM (lk \<noteq> LProc p) (seq (release (LProc p)) (acquire lk))))))))"

text \<open>\<open>while(!cond) sleep(ch, lk);\<close> with at most \<open>n\<close> sleeps.\<close>

fun sleep_while :: "nat \<Rightarrow> (kstate \<Rightarrow> bool) \<Rightarrow> chan \<Rightarrow> lockid \<Rightarrow> unit k" where
  "sleep_while 0 busy ch lk = bind (gets busy) (\<lambda>b. if b then spin else return ())"
| "sleep_while (Suc n) busy ch lk = bind (gets busy) (\<lambda>b.
     if b then seq (sleep ch lk) (sleep_while n busy ch lk) else return ())"

definition wakeup :: "chan \<Rightarrow> unit k" where
  "wakeup ch = forM [0..<NPROC] (\<lambda>p.
     seq (acquire (LProc p)) (
     bind (gets (\<lambda>s. pstate (procs s p) = SLEEPING \<and> pchan (procs s p) = Some ch)) (\<lambda>b.
     seq (whenM b (upd_proc p (\<lambda>q. q\<lparr>pstate := RUNNABLE\<rparr>)))
     (release (LProc p)))))"

definition wakeup1 :: "nat \<Rightarrow> unit k" where
  "wakeup1 p =
     bind (holding (LProc p)) (\<lambda>h.
     seq (panic_if (\<not> h) ''wakeup1'') (
     bind (gets (\<lambda>s. pchan (procs s p) = Some (ChProc p) \<and> pstate (procs s p) = SLEEPING)) (\<lambda>b.
     whenM b (upd_proc p (\<lambda>q. q\<lparr>pstate := RUNNABLE\<rparr>)))))"

fun kill_scan :: "nat list \<Rightarrow> int \<Rightarrow> int k" where
  "kill_scan [] n = return (- 1)"
| "kill_scan (p # ps) n =
     seq (acquire (LProc p)) (
     bind (gets (\<lambda>s. procs s p)) (\<lambda>q.
     if pid q = n then
       seq (upd_proc p (\<lambda>q. q\<lparr>killed := True\<rparr>)) (
       seq (whenM (pstate q = SLEEPING) (upd_proc p (\<lambda>q. q\<lparr>pstate := RUNNABLE\<rparr>))) (
       seq (release (LProc p))
       (return 0)))
     else seq (release (LProc p)) (kill_scan ps n)))"

definition kill :: "int \<Rightarrow> int k" where
  "kill n = kill_scan [0..<NPROC] n"

section \<open>The scheduler\<close>

definition set_cpu_proc :: "nat \<Rightarrow> nat option \<Rightarrow> unit k" where
  "set_cpu_proc c p = modify (\<lambda>s. s\<lparr>lks := upd_cpu c (\<lambda>k. k\<lparr>cpu_proc := p\<rparr>) (lks s)\<rparr>)"

fun scheduler_scan :: "nat \<Rightarrow> nat list \<Rightarrow> bool \<Rightarrow> bool k" where
  "scheduler_scan c [] found = return found"
| "scheduler_scan c (p # ps) found =
     seq (acquire (LProc p)) (
     bind (gets (\<lambda>s. pstate (procs s p) = RUNNABLE)) (\<lambda>r.
     if r then
       seq (upd_proc p (\<lambda>q. q\<lparr>pstate := RUNNING\<rparr>)) (
       seq (set_cpu_proc c (Some p)) (
       seq swtch (
       seq (set_cpu_proc c None) (
       seq (release (LProc p))
       (scheduler_scan c ps True)))))
     else seq (release (LProc p)) (scheduler_scan c ps found)))"

fun scheduler_loop :: "nat \<Rightarrow> nat \<Rightarrow> unit k" where
  "scheduler_loop c 0 = spin"
| "scheduler_loop c (Suc n) =
     seq intr_on (
     bind (scheduler_scan c [0..<NPROC] False) (\<lambda>found.
     seq (whenM (\<not> found) intr_on)
     (scheduler_loop c n)))"

definition scheduler :: "unit k" where
  "scheduler =
     bind mycpu (\<lambda>c.
     seq (set_cpu_proc c None) (
     bind (gets wake_bound) (scheduler_loop c)))"

definition reparent :: "nat \<Rightarrow> unit k" where
  "reparent p = forM [0..<NPROC] (\<lambda>pp.
     bind (gets (\<lambda>s. parent (procs s pp) = Some p)) (\<lambda>b.
     whenM b (
       seq (acquire (LProc pp)) (
       bind (gets initproc) (\<lambda>i.
       seq (upd_proc pp (\<lambda>q. q\<lparr>parent := i\<rparr>))
       (release (LProc pp)))))))"

section \<open>Copying to and from either kind of address\<close>

definition either_copyout :: "bool \<Rightarrow> u64 \<Rightarrow> (nat \<Rightarrow> byte) \<Rightarrow> u64 \<Rightarrow> int k" where
  "either_copyout user_dst dst src len =
     bind myproc (\<lambda>po.
     if user_dst then
       bind (deref po) (\<lambda>p.
       bind (gets (\<lambda>s. pagetable (procs s p))) (\<lambda>pt. copyout pt dst src len))
     else seq (modify (\<lambda>s. s\<lparr>mem := blit dst (unat (ucast len :: u32)) src (mem s)\<rparr>)) (return 0))"

definition either_copyin :: "(nat \<Rightarrow> byte) \<Rightarrow> bool \<Rightarrow> u64 \<Rightarrow> u64 \<Rightarrow> (int \<times> (nat \<Rightarrow> byte)) k" where
  "either_copyin dst user_src src len =
     bind myproc (\<lambda>po.
     if user_src then
       bind (deref po) (\<lambda>p.
       bind (gets (\<lambda>s. pagetable (procs s p))) (\<lambda>pt. copyin pt dst src len))
     else bind (gets mem) (\<lambda>m.
       return (0, \<lambda>i. if i < unat (ucast len :: u32) then m (src + of_nat i) else dst i)))"

section \<open>Running code under a process lock\<close>

lemma curproc_Ok:
  assumes "lk_ok (lks s)" "cpu_proc (curcpu (lks s)) = Some p"
  shows "curproc s = Ok p (s\<lparr>lks := lk_touch (lks s)\<rparr>)"
  using assms by (simp add: curproc_def myproc_Ok deref_def)

definition wake1 :: "chan \<Rightarrow> proc \<Rightarrow> proc" where
  "wake1 ch q = (if pstate q = SLEEPING \<and> pchan q = Some ch then q\<lparr>pstate := RUNNABLE\<rparr> else q)"

lemma wake1_wake1 [simp]: "wake1 ch (wake1 ch q) = wake1 ch q"
  by (simp add: wake1_def)

lemma wakeup_list:
  assumes "lk_ok (lks s)" "\<And>p. p \<in> set ps \<Longrightarrow> \<not> locked (spinl (lks s) (LProc p))" "ps \<noteq> []"
  shows "forM ps (\<lambda>p.
     seq (acquire (LProc p)) (
     bind (gets (\<lambda>s. pstate (procs s p) = SLEEPING \<and> pchan (procs s p) = Some ch)) (\<lambda>b.
     seq (whenM b (upd_proc p (\<lambda>q. q\<lparr>pstate := RUNNABLE\<rparr>)))
     (release (LProc p))))) s =
   Ok () (s\<lparr>procs := \<lambda>p. if p \<in> set ps then wake1 ch (procs s p) else procs s p,
            lks := lk_touch (lks s)\<rparr>)"
  using assms
proof (induction ps arbitrary: s)
  case Nil
  then show ?case by simp
next
  case (Cons p ps)
  let ?s = "s\<lparr>procs := (procs s)(p := wake1 ch (procs s p)), lks := lk_touch (lks s)\<rparr>"
  let ?f = "\<lambda>p. seq (acquire (LProc p)) (
     bind (gets (\<lambda>s. pstate (procs s p) = SLEEPING \<and> pchan (procs s p) = Some ch)) (\<lambda>b.
     seq (whenM b (upd_proc p (\<lambda>q. q\<lparr>pstate := RUNNABLE\<rparr>)))
     (release (LProc p))))"
  have 1: "?f p s = Ok () ?s"
    using Cons.prems
    by (simp add: acquire_can release_Ok [where l = "lks s"] upd_proc_def wake1_def)
  show ?case
  proof (cases "ps = []")
    case True
    have "(procs s)(p := wake1 ch (procs s p)) =
      (\<lambda>q. if q \<in> set (p # ps) then wake1 ch (procs s q) else procs s q)"
      using True by (auto simp: fun_eq_iff)
    then show ?thesis
      unfolding forM_Cons_Ok [where f = ?f, OF 1] using True by simp
  next
    case False
    have "forM ps ?f ?s = Ok () (?s\<lparr>procs := \<lambda>q. if q \<in> set ps then wake1 ch (procs ?s q) else procs ?s q,
            lks := lk_touch (lks ?s)\<rparr>)"
      using Cons.prems False by (intro Cons.IH) simp_all
    moreover have "(\<lambda>q. if q \<in> set ps then wake1 ch (procs ?s q) else procs ?s q) =
      (\<lambda>q. if q \<in> set (p # ps) then wake1 ch (procs s q) else procs s q)"
      by (auto simp: fun_eq_iff)
    ultimately show ?thesis
      unfolding forM_Cons_Ok [where f = ?f, OF 1] by simp
  qed
qed

definition wake_all :: "chan \<Rightarrow> (nat \<Rightarrow> proc) \<Rightarrow> nat \<Rightarrow> proc" where
  "wake_all ch ps p = (if p < NPROC then wake1 ch (ps p) else ps p)"

definition procs_free :: "kstate \<Rightarrow> bool" where
  "procs_free s \<longleftrightarrow> lk_ok (lks s) \<and> (\<forall>p < NPROC. \<not> locked (spinl (lks s) (LProc p)))"

lemma wakeup_Ok:
  assumes "procs_free s"
  shows "wakeup ch s = Ok () (s\<lparr>procs := wake_all ch (procs s), lks := lk_touch (lks s)\<rparr>)"
  unfolding wakeup_def using assms
  by (subst wakeup_list) (auto simp: procs_free_def wake_all_def [abs_def])

section \<open>Switching\<close>

definition set_intr :: "bool \<Rightarrow> lkstate \<Rightarrow> lkstate" where
  "set_intr ie l = set_sstatus (\<lambda>x. if ie then x OR SSTATUS_SIE else x AND NOT SSTATUS_SIE) l"

lemma sie_clear_set [simp]: "((x :: u64) OR 2) AND - 3 = x AND - 3"
proof -
  have "(x OR 2) AND NOT 2 = x AND NOT 2"
    by (rule bit_word_eqI) (simp only: bit_and_iff bit_or_iff bit_not_iff, blast)
  then show ?thesis by simp
qed

lemma sie_clear_clear [simp]: "((x :: u64) AND - 3) AND - 3 = x AND - 3"
  by (simp add: and.assoc)

lemma set_intr_fields [simp]:
  "spinl (set_intr ie l) = spinl l" "tp (set_intr ie l) = tp l" "cpus (set_intr ie l) = cpus l"
  "intr (set_intr ie l) = ie"
  by (simp_all add: set_intr_def set_sstatus_def intr_def)

lemma resume_acq:
  assumes "noff (curcpu l) = 0"
  shows "upd_cpu (tp l) (\<lambda>k. k\<lparr>intena := ie\<rparr>) (lk_acq L l) = lk_acq L (set_intr ie l)"
  using assms
  by (simp add: set_intr_def lk_defs fun_eq_iff)

lemma lk_acq_commute: "K \<noteq> L \<Longrightarrow> lk_acq K (lk_acq L l) = lk_acq L (lk_acq K l)"
  by (simp add: lk_defs fun_upd_twist)

lemma sched_Swtch:
  assumes "lk_ok (lks s)" "cpu_proc (curcpu (lks s)) = Some p"
    and "locked (spinl (lks s) (LProc p))" "lk_cpu (spinl (lks s) (LProc p)) = Some (tp (lks s))"
    and "noff (curcpu (lks s)) = 1" "pstate (procs s p) \<noteq> RUNNING"
  shows "sched s = Swtch s (\<lambda>s'. Ok () (s'\<lparr>lks := upd_cpu (tp (lks s'))
     (\<lambda>k. k\<lparr>intena := intena (curcpu (lks s))\<rparr>) (lks s')\<rparr>))"
  using assms
  by (simp add: sched_def curproc_Ok holding_def mycpu_def cpuid_def intr_get_def intr_def swtch_def lk_ok_def)

text \<open>What \<open>sleep\<close> does when the lock it is given is the only one held: \<open>l\<close> is the lock state
  underneath that lock.\<close>

definition sleep_pre :: "nat \<Rightarrow> lockid \<Rightarrow> lkstate \<Rightarrow> bool" where
  "sleep_pre p lk l \<longleftrightarrow> lk_ok l \<and> noff (curcpu l) = 0 \<and> cpu_proc (curcpu l) = Some p \<and> lk \<noteq> LProc p
     \<and> \<not> locked (spinl l lk) \<and> \<not> locked (spinl l (LProc p))"

lemma sleep_Swtch:
  assumes "sleep_pre p lk l" "lks s = lk_acq lk l"
  shows "sleep ch lk s =
     Swtch (s\<lparr>lks := lk_acq (LProc p) l,
              procs := (procs s)(p := (procs s p)\<lparr>pchan := Some ch, pstate := SLEEPING\<rparr>)\<rparr>)
       (\<lambda>s'. then_do (Ok () (s'\<lparr>lks := upd_cpu (tp (lks s')) (\<lambda>k. k\<lparr>intena := intr l\<rparr>) (lks s')\<rparr>))
          (\<lambda>_. seq (upd_proc p (\<lambda>q. q\<lparr>pchan := None\<rparr>)) (seq (release (LProc p)) (acquire lk))))"
proof -
  let ?s1 = "s\<lparr>lks := lk_acq (LProc p) l,
     procs := (procs s)(p := (procs s p)\<lparr>pchan := Some ch, pstate := SLEEPING\<rparr>)\<rparr>"
  have l: "lk_ok l" "noff (curcpu l) = 0" "cpu_proc (curcpu l) = Some p" "lk \<noteq> LProc p"
    "\<not> locked (spinl l lk)" "\<not> locked (spinl l (LProc p))"
    using assms(1) by (simp_all add: sleep_pre_def)
  have c: "curproc s = Ok p s"
    using l assms(2) by (simp add: curproc_Ok)
  have a: "acquire (LProc p) s = Ok () (s\<lparr>lks := lk_acq (LProc p) (lk_acq lk l)\<rparr>)"
    using l assms(2) by (simp add: acquire_can)
  have r: "release lk (s\<lparr>lks := lk_acq (LProc p) (lk_acq lk l)\<rparr>) = Ok () (s\<lparr>lks := lk_acq (LProc p) l\<rparr>)"
    using l release_Ok [of "lk_acq (LProc p) l" lk "s\<lparr>lks := lk_acq (LProc p) (lk_acq lk l)\<rparr>"]
    by (simp add: lk_acq_commute)
  have i: "intena (cpus (lk_acq (LProc p) l) (tp l)) = intr l"
    using l by (simp add: lk_defs)
  have "sched ?s1 = Swtch ?s1 (\<lambda>s'. Ok () (s'\<lparr>lks := upd_cpu (tp (lks s'))
     (\<lambda>k. k\<lparr>intena := intr l\<rparr>) (lks s')\<rparr>))"
    using l sched_Swtch [of ?s1 p] i by simp
  then show ?thesis
    using l(4) by (simp add: sleep_def c a r upd_proc_def)
qed

lemma sleep_resume:
  assumes "lk_ok l'" "noff (curcpu l') = 0" "\<not> locked (spinl l' lk)" "\<not> locked (spinl l' (LProc p))"
    and "lk \<noteq> LProc p" "lks s' = lk_acq (LProc p) l'"
  shows "then_do (Ok () (s'\<lparr>lks := upd_cpu (tp (lks s')) (\<lambda>k. k\<lparr>intena := ie\<rparr>) (lks s')\<rparr>))
      (\<lambda>_. seq (upd_proc p (\<lambda>q. q\<lparr>pchan := None\<rparr>)) (seq (release (LProc p)) (acquire lk)))
    = Ok () (s'\<lparr>procs := (procs s')(p := (procs s' p)\<lparr>pchan := None\<rparr>),
                lks := lk_acq lk (set_intr ie l')\<rparr>)"
proof -
  let ?l = "set_intr ie l'"
  have l: "lk_ok ?l"
    using assms(1,2) by (simp add: lk_ok_def)
  have "lk_acq lk (lk_touch ?l) = lk_acq lk ?l"
    using assms(2) by (simp add: lk_defs)
  then show ?thesis
    using assms l release_Ok [of ?l "LProc p"]
    by (simp add: resume_acq upd_proc_def acquire_can)
qed

section \<open>kill\<close>

declare kill_scan.simps(2) [simp del] scheduler_scan.simps(2) [simp del] allocproc_scan.simps(2) [simp del]

definition kill1 :: "proc \<Rightarrow> proc" where
  "kill1 q = q\<lparr>killed := True, pstate := (if pstate q = SLEEPING then RUNNABLE else pstate q)\<rparr>"

lemma kill_scan_Ok:
  assumes "lk_ok (lks s)" "\<And>p. p \<in> set ps \<Longrightarrow> \<not> locked (spinl (lks s) (LProc p))" "ps \<noteq> []"
  shows "kill_scan ps n s =
    (case find (\<lambda>p. pid (procs s p) = n) ps of
       None \<Rightarrow> Ok (- 1) (s\<lparr>lks := lk_touch (lks s)\<rparr>)
     | Some p \<Rightarrow> Ok 0 (s\<lparr>procs := (procs s)(p := kill1 (procs s p)), lks := lk_touch (lks s)\<rparr>))"
  using assms
proof (induction ps arbitrary: s)
  case Nil
  then show ?case by simp
next
  case (Cons p ps)
  show ?case
  proof (cases "pid (procs s p) = n")
    case True
    then show ?thesis
      using Cons.prems
      by (simp add: kill_scan.simps acquire_can release_Ok [where l = "lks s"] upd_proc_def kill1_def)
  next
    case False
    then have 1: "kill_scan (p # ps) n s = kill_scan ps n (s\<lparr>lks := lk_touch (lks s)\<rparr>)"
      using Cons.prems by (simp add: kill_scan.simps(2) acquire_can release_Ok [where l = "lks s"])
    show ?thesis
    proof (cases "ps = []")
      case True
      then show ?thesis using 1 False by simp
    next
      case ps: False
      show ?thesis
        unfolding 1 using False Cons.prems
        by (subst Cons.IH) (simp_all add: ps split: option.splits)
    qed
  qed
qed

section \<open>The scheduler loop\<close>

definition idle :: "nat \<Rightarrow> lkstate \<Rightarrow> bool" where
  "idle c l \<longleftrightarrow> lk_ok l \<and> tp l = c \<and> noff (curcpu l) = 0 \<and> (\<forall>p < NPROC. \<not> locked (spinl l (LProc p)))"

definition handed_back :: "nat \<Rightarrow> kstate \<Rightarrow> kstate \<Rightarrow> bool" where
  "handed_back c s s' \<longleftrightarrow> (\<forall>p. cpu_proc (cpus (lks s) c) = Some p \<longrightarrow>
     (\<exists>l. idle c l \<and> lks s' = lk_acq (LProc p) l))"

lemma idle_touch [simp]: "idle c (lk_touch l) = idle c l"
  by (simp add: idle_def)

lemma idle_cpu_proc [simp]: "idle c (upd_cpu c (\<lambda>k. k\<lparr>cpu_proc := x\<rparr>) l) = idle c l"
  by (auto simp: idle_def lk_ok_def upd_cpu_def intr_def)

lemma cpu_proc_acq:
  assumes "tp l = c"
  shows "upd_cpu c (\<lambda>k. k\<lparr>cpu_proc := x\<rparr>) (lk_acq L l) = lk_acq L (upd_cpu c (\<lambda>k. k\<lparr>cpu_proc := x\<rparr>) l)"
  using assms by (intro lkstate.equality) (auto simp: lk_defs fun_eq_iff intro!: cpu.equality)

lemma cpu_proc_upd [simp]: "cpu_proc (cpus (upd_cpu c (\<lambda>k. k\<lparr>cpu_proc := x\<rparr>) l) c) = x"
  by (simp add: upd_cpu_def)

lemma rg_apply: "m s = Ok a s' \<Longrightarrow> rg G R m Q s = Q a s'"
  by (simp add: rg_def)

text \<open>The state in which the scheduler of CPU \<open>c\<close> switches to process \<open>p\<close>, and the state in which it
  goes on after \<open>p\<close> came back, with \<open>l\<close> the lock state underneath \<open>p->lock\<close>.\<close>

definition dispatched :: "nat \<Rightarrow> nat \<Rightarrow> kstate \<Rightarrow> kstate" where
  "dispatched c p s = s\<lparr>procs := (procs s)(p := (procs s p)\<lparr>pstate := RUNNING\<rparr>),
     lks := lk_acq (LProc p) (upd_cpu c (\<lambda>k. k\<lparr>cpu_proc := Some p\<rparr>) (lks s))\<rparr>"

definition taken_back :: "nat \<Rightarrow> lkstate \<Rightarrow> kstate \<Rightarrow> kstate" where
  "taken_back c l s = s\<lparr>lks := lk_touch (upd_cpu c (\<lambda>k. k\<lparr>cpu_proc := None\<rparr>) l)\<rparr>"

lemma taken_back_idle: "idle c l \<Longrightarrow> idle c (lks (taken_back c l s))"
  by (simp add: taken_back_def)

lemma scan_switch:
  assumes "idle c (lks s)" "p < NPROC" "pstate (procs s p) = RUNNABLE"
  shows "\<exists>k. scheduler_scan c (p # ps) found s = Swtch (dispatched c p s) k
    \<and> (\<forall>l s'. idle c l \<and> lks s' = lk_acq (LProc p) l \<longrightarrow> k s' = scheduler_scan c ps True (taken_back c l s'))"
proof -
  have l: "lk_ok (lks s)" "tp (lks s) = c" "\<not> locked (spinl (lks s) (LProc p))"
    using assms by (simp_all add: idle_def)
  have a: "acquire (LProc p) s = Ok () (s\<lparr>lks := lk_acq (LProc p) (lks s)\<rparr>)"
    using l by (simp add: acquire_can)
  let ?k = "\<lambda>s'. seq (set_cpu_proc c None) (seq (release (LProc p)) (scheduler_scan c ps True)) s'"
  have "scheduler_scan c (p # ps) found s = Swtch (dispatched c p s) (\<lambda>s'. then_do (Ok () s') (\<lambda>_. ?k))"
    using assms(3) l by (simp add: scheduler_scan.simps(2) a upd_proc_def set_cpu_proc_def cpu_proc_acq swtch_def dispatched_def)
  moreover have "?k s' = scheduler_scan c ps True (taken_back c l' s')"
    if "idle c l'" "lks s' = lk_acq (LProc p) l'" for l' s'
  proof -
    let ?m = "upd_cpu c (\<lambda>k. k\<lparr>cpu_proc := None\<rparr>) l'"
    have m: "idle c ?m" "tp l' = c" using that(1) by (simp, simp add: idle_def)
    then have "lk_ok ?m" "\<not> locked (spinl ?m (LProc p))" using assms(2) by (simp_all add: idle_def)
    then show ?thesis
      using that(2) m(2) by (simp add: set_cpu_proc_def cpu_proc_acq release_Ok [where l = ?m] taken_back_def)
  qed
  ultimately show ?thesis by auto
qed

lemma scan_skip:
  assumes "idle c (lks s)" "p < NPROC" "pstate (procs s p) \<noteq> RUNNABLE"
  shows "scheduler_scan c (p # ps) found s = scheduler_scan c ps found (s\<lparr>lks := lk_touch (lks s)\<rparr>)"
proof -
  have l: "lk_ok (lks s)" "\<not> locked (spinl (lks s) (LProc p))" using assms by (simp_all add: idle_def)
  then show ?thesis using assms(3)
    by (simp add: scheduler_scan.simps(2) acquire_can release_Ok [where l = "lks s"])
qed

lemma scan_skips:
  assumes "idle c (lks s)" "\<forall>q \<in> set qs. q < NPROC \<and> pstate (procs s q) \<noteq> RUNNABLE"
  shows "scheduler_scan c (qs @ ps) found s =
    scheduler_scan c ps found (if qs = [] then s else s\<lparr>lks := lk_touch (lks s)\<rparr>)"
  using assms
proof (induction qs arbitrary: s)
  case (Cons q qs)
  then show ?case using scan_skip [of c s q "qs @ ps" found] Cons.IH [of "s\<lparr>lks := lk_touch (lks s)\<rparr>"] by simp
qed simp


lemma acq_touch: "lk_ok l \<Longrightarrow> lk_acq L (lk_touch l) = lk_acq L l"
  by (intro lkstate.equality) (auto simp: lk_defs lk_ok_def fun_eq_iff intro!: cpu.equality)

lemma dispatched_touch:
  assumes "tp (lks s) = c" "lk_ok (lks s)"
  shows "dispatched c p (s\<lparr>lks := lk_touch (lks s)\<rparr>) = dispatched c p s"
  using assms by (simp add: dispatched_def cpu_proc_acq [symmetric] acq_touch)

lemma idle_intr_on:
  assumes "idle c (lks s)"
  shows "intr_on s = Ok () (s\<lparr>lks := set_intr True (lks s)\<rparr>) \<and> idle c (set_intr True (lks s))"
  using assms by (auto simp: idle_def lk_ok_def intr_on_def set_intr_def set_sstatus_def intr_def)

section \<open>Sleeping\<close>

text \<open>A thread that sleeps under rely and guarantee conditions.\<close>

lemma sleep_rg:
  assumes "sleep_pre p lk l" "lks s = lk_acq lk l"
    and G: "G (s\<lparr>lks := lk_acq (LProc p) l, procs := (procs s)(p := (procs s p)\<lparr>pchan := Some ch, pstate := SLEEPING\<rparr>)\<rparr>)"
    and Q: "\<And>s'. R (s\<lparr>lks := lk_acq (LProc p) l, procs := (procs s)(p := (procs s p)\<lparr>pchan := Some ch, pstate := SLEEPING\<rparr>)\<rparr>) s' \<Longrightarrow>
      \<exists>l'. sleep_pre p lk l' \<and> lks s' = lk_acq (LProc p) l'
        \<and> Q () (s'\<lparr>procs := (procs s')(p := (procs s' p)\<lparr>pchan := None\<rparr>), lks := lk_acq lk (set_intr (intr l) l')\<rparr>)"
  shows "rg G R (sleep ch lk) Q s"
proof -
  let ?s1 = "s\<lparr>lks := lk_acq (LProc p) l, procs := (procs s)(p := (procs s p)\<lparr>pchan := Some ch, pstate := SLEEPING\<rparr>)\<rparr>"
  note sl = sleep_Swtch [OF assms(1,2), of ch]
  show ?thesis
    unfolding rg_def sl
  proof (simp only: rg_out.simps, intro conjI allI impI)
    fix s' assume "R ?s1 s'"
    from Q [OF this] obtain l' where l': "sleep_pre p lk l'" "lks s' = lk_acq (LProc p) l'"
      "Q () (s'\<lparr>procs := (procs s')(p := (procs s' p)\<lparr>pchan := None\<rparr>), lks := lk_acq lk (set_intr (intr l) l')\<rparr>)"
      by blast
    have "lk \<noteq> LProc p" "\<not> locked (spinl l' lk)" using l'(1) by (simp_all add: sleep_pre_def)
    show "rg_out G R Q (then_do (Ok () (s'\<lparr>lks := upd_cpu (tp (lks s')) (\<lambda>k. k\<lparr>intena := intr l\<rparr>) (lks s')\<rparr>))
          (\<lambda>_. seq (upd_proc p (\<lambda>q. q\<lparr>pchan := None\<rparr>)) (seq (release (LProc p)) (acquire lk))))"
      using sleep_resume [of _ lk p _ "intr l"] l' by (simp add: sleep_pre_def)
  qed (rule G)
qed

text \<open>The lock state of a thread of \<open>p\<close> that holds no lock, and nobody else does.\<close>

definition free_lks :: "nat \<Rightarrow> lkstate \<Rightarrow> bool" where
  "free_lks p l \<longleftrightarrow> lk_ok l \<and> noff (curcpu l) = 0 \<and> cpu_proc (curcpu l) = Some p \<and> (\<forall>L. \<not> locked (spinl l L))"

lemma free_lks_sleep_pre: "free_lks p l \<Longrightarrow> lk \<noteq> LProc p \<Longrightarrow> sleep_pre p lk l"
  by (simp add: free_lks_def sleep_pre_def)

lemma free_lks_set_intr [simp]: "free_lks p (set_intr ie l) = free_lks p l"
  by (auto simp: free_lks_def lk_ok_def)

lemma free_lks_touch [simp]: "free_lks p (lk_touch l) = free_lks p l"
  by (auto simp: free_lks_def)

lemma sleep_while_rg:
  assumes "free_lks p l" "lks s = lk_acq lk l" "lk \<noteq> LProc p" "I s"
    and G: "\<And>s l. free_lks p l \<Longrightarrow> lks s = lk_acq lk l \<Longrightarrow> I s \<Longrightarrow> busy s \<Longrightarrow>
      G (s\<lparr>lks := lk_acq (LProc p) l, procs := (procs s)(p := (procs s p)\<lparr>pchan := Some ch, pstate := SLEEPING\<rparr>)\<rparr>)"
    and R: "\<And>s s'. R s s' \<Longrightarrow> \<exists>l. free_lks p l \<and> lks s' = lk_acq (LProc p) l
      \<and> (\<forall>m. I (s'\<lparr>procs := (procs s')(p := (procs s' p)\<lparr>pchan := None\<rparr>), lks := m\<rparr>))"
  shows "rg G R (sleep_while n busy ch lk) (\<lambda>_ s'. I s' \<and> \<not> busy s' \<and> (\<exists>l. free_lks p l \<and> lks s' = lk_acq lk l)) s"
  using assms(1,2,4)
proof (induction n arbitrary: s l)
  case 0
  then show ?case by (cases "busy s") (auto simp: rg_def)
next
  case (Suc n)
  show ?case
  proof (cases "busy s")
    case True
    have "rg G R (sleep ch lk) (\<lambda>_ s'. I s' \<and> (\<exists>l. free_lks p l \<and> lks s' = lk_acq lk l)) s"
    proof (rule sleep_rg [OF free_lks_sleep_pre [OF Suc.prems(1) assms(3)] Suc.prems(2)], goal_cases)
      case (2 s')
      from R [OF this] obtain l' where l': "free_lks p l'" "lks s' = lk_acq (LProc p) l'"
        "\<And>m. I (s'\<lparr>procs := (procs s')(p := (procs s' p)\<lparr>pchan := None\<rparr>), lks := m\<rparr>)" by blast
      have "\<exists>m. free_lks p m \<and> lk_acq lk (set_intr (intr l) l') = lk_acq lk m"
        using l'(1) by (intro exI [of _ "set_intr (intr l) l'"]) simp
      then show ?case
        by (rule_tac x = l' in exI) (use l' free_lks_sleep_pre [OF l'(1) assms(3)] in simp)
    qed (use G Suc.prems True in blast)
    then have "rg G R (seq (sleep ch lk) (sleep_while n busy ch lk))
        (\<lambda>_ s'. I s' \<and> \<not> busy s' \<and> (\<exists>l. free_lks p l \<and> lks s' = lk_acq lk l)) s"
      unfolding rg_seq by (rule rg_mono) (use Suc.IH in blast)
    moreover have "sleep_while (Suc n) busy ch lk s = seq (sleep ch lk) (sleep_while n busy ch lk) s"
      using True by simp
    ultimately show ?thesis by (simp only: rg_def)
  qed (use Suc.prems in \<open>auto simp: rg_def\<close>)
qed

section \<open>What the process table promises\<close>

text \<open>C8: \<open>sleep(chan, lk)\<close>, called with \<open>lk\<close> the only lock held, gives up the CPU with the
  process marked SLEEPING on \<open>chan\<close>, with \<open>lk\<close> released and \<open>p->lock\<close> held, so no \<open>wakeup\<close> can fall
  between the release and the sleep.  When the scheduler resumes it holding \<open>p->lock\<close>, it
  returns holding \<open>lk\<close> again and nothing else, off the channel, and with the thread's own
  interrupt-enable state.\<close>

theorem sleep_correct:
  assumes "sleep_pre p lk l" and "lks s = lk_acq lk l"
  shows "\<exists>k. sleep ch lk s =
      Swtch (s\<lparr>lks := lk_acq (LProc p) l,
               procs := (procs s)(p := (procs s p)\<lparr>pchan := Some ch, pstate := SLEEPING\<rparr>)\<rparr>) k
    \<and> (\<forall>s' l'. sleep_pre p lk l' \<and> lks s' = lk_acq (LProc p) l' \<longrightarrow>
        k s' = Ok () (s'\<lparr>procs := (procs s')(p := (procs s' p)\<lparr>pchan := None\<rparr>),
                         lks := lk_acq lk (set_intr (intr l) l')\<rparr>))"
  using sleep_resume [of _ lk p _ "intr l"]
  by (intro exI conjI) (rule sleep_Swtch [OF assms], auto simp: sleep_pre_def)

definition run0_lks :: lkstate where
  "run0_lks = upd_cpu 0 (\<lambda>k. k\<lparr>cpu_proc := Some 0\<rparr>) zero_lks"

lemma sleep_pre_run0: "sleep_pre 0 LTicks run0_lks"
  by (simp add: sleep_pre_def run0_lks_def lk_ok_def upd_cpu_def intr_def zero_lks_def)

theorem sleep_correct_witness:
  "\<exists>s1 k. sleep ChTicks LTicks (zero_state\<lparr>lks := lk_acq LTicks run0_lks\<rparr>) = Swtch s1 k
     \<and> pstate (procs s1 0) = SLEEPING \<and> \<not> locked (spinl (lks s1) LTicks)"
proof -
  obtain k where "sleep ChTicks LTicks (zero_state\<lparr>lks := lk_acq LTicks run0_lks\<rparr>) =
      Swtch (zero_state\<lparr>lks := lk_acq (LProc 0) run0_lks,
        procs := (procs zero_state)(0 := (procs zero_state 0)\<lparr>pchan := Some ChTicks, pstate := SLEEPING\<rparr>)\<rparr>) k"
    using sleep_correct [OF sleep_pre_run0, of "zero_state\<lparr>lks := lk_acq LTicks run0_lks\<rparr>" ChTicks]
    by auto
  then show ?thesis
    by (auto simp: run0_lks_def upd_cpu_def)
qed

lemma procs_free_zero: "procs_free (zero_state\<lparr>procs := f\<rparr>)"
  by (simp add: procs_free_def)

definition sleeper :: "nat \<Rightarrow> proc" where
  "sleeper p = zero_proc\<lparr>pid := 3, pstate := SLEEPING, pchan := Some ChTicks\<rparr>"

text \<open>C9: \<open>wakeup(chan)\<close> makes exactly the processes sleeping on \<open>chan\<close> RUNNABLE and changes
  nothing else of any process.\<close>

theorem wakeup_correct:
  assumes "procs_free s"
  shows "wp (wakeup ch) (\<lambda>_ s'. s' = s\<lparr>procs := procs s', lks := lk_touch (lks s)\<rparr>
     \<and> (\<forall>p < NPROC. procs s' p = (if pstate (procs s p) = SLEEPING \<and> pchan (procs s p) = Some ch
          then (procs s p)\<lparr>pstate := RUNNABLE\<rparr> else procs s p))) s"
  using assms by (simp add: wp_def wakeup_Ok wake_all_def wake1_def)

theorem wakeup_correct_witness:
  "wp (wakeup ChTicks) (\<lambda>_ s'. pstate (procs s' 5) = RUNNABLE) (zero_state\<lparr>procs := sleeper\<rparr>)"
  using wakeup_correct [of "zero_state\<lparr>procs := sleeper\<rparr>" ChTicks, OF procs_free_zero]
  by (rule wp_mono) (simp add: sleeper_def)

text \<open>C10: \<open>kill(pid)\<close> marks the first process with that pid as killed, wakes it if it sleeps, and
  returns 0; without such a process it returns -1 and changes no process.\<close>

theorem kill_correct:
  assumes "procs_free s"
  shows "kill n s = (case find (\<lambda>p. pid (procs s p) = n) [0..<NPROC] of
       None \<Rightarrow> Ok (- 1) (s\<lparr>lks := lk_touch (lks s)\<rparr>)
     | Some p \<Rightarrow> Ok 0 (s\<lparr>procs := (procs s)(p := (procs s p)\<lparr>killed := True,
          pstate := (if pstate (procs s p) = SLEEPING then RUNNABLE else pstate (procs s p))\<rparr>),
          lks := lk_touch (lks s)\<rparr>))"
  using assms unfolding kill_def kill1_def [symmetric]
  by (intro kill_scan_Ok) (auto simp: procs_free_def)

theorem kill_correct_witness:
  "wp (kill 3) (\<lambda>r s'. r = 0 \<and> killed (procs s' 0) \<and> pstate (procs s' 0) = RUNNABLE)
     (zero_state\<lparr>procs := sleeper\<rparr>)"
  using kill_correct [OF procs_free_zero, of 3 sleeper]
  by (simp add: wp_def sleeper_def upt_conv_Cons)

text \<open>C11: One pass of the scheduler over the process table, from any point of it.  If none of the
  remaining processes is RUNNABLE, the pass ends and has changed no process.  Otherwise
  it switches to the first RUNNABLE one: in the state it leaves, exactly that process has become
  RUNNING, \<open>c->proc\<close> is that process, and its lock is the one lock taken; and when the process
  comes back holding its lock alone, the pass clears \<open>c->proc\<close>, releases the lock and goes on behind
  that process.\<close>

theorem scheduler_pass:
  assumes "idle c (lks s)"
  shows "case find (\<lambda>p. pstate (procs s p) = RUNNABLE) [i..<NPROC] of
      None \<Rightarrow> scheduler_scan c [i..<NPROC] found s = Ok found (s\<lparr>lks := if i < NPROC then lk_touch (lks s) else lks s\<rparr>)
    | Some p \<Rightarrow> \<exists>k. scheduler_scan c [i..<NPROC] found s = Swtch (dispatched c p s) k
        \<and> (\<forall>l s'. idle c l \<and> lks s' = lk_acq (LProc p) l \<longrightarrow>
             k s' = scheduler_scan c [Suc p..<NPROC] True (taken_back c l s'))"
proof (cases "find (\<lambda>p. pstate (procs s p) = RUNNABLE) [i..<NPROC]")
  case None
  then have "\<forall>q \<in> set [i..<NPROC]. q < NPROC \<and> pstate (procs s q) \<noteq> RUNNABLE"
    by (auto simp: find_None_iff)
  from scan_skips [OF assms this, of "[]" found] None show ?thesis by auto
next
  case (Some p)
  then obtain j where j: "j < NPROC - i" "p = i + j" "pstate (procs s p) = RUNNABLE"
    "\<forall>q < j. pstate (procs s (i + q)) \<noteq> RUNNABLE"
    by (auto simp: find_Some_iff)
  have up: "[i..<NPROC] = [i..<p] @ p # [Suc p..<NPROC]"
    using j(1,2) upt_add_eq_append [of i p "NPROC - p"] by (simp add: upt_conv_Cons)
  have "\<forall>q \<in> set [i..<p]. q < NPROC \<and> pstate (procs s q) \<noteq> RUNNABLE"
  proof
    fix q assume "q \<in> set [i..<p]"
    then have "q = i + (q - i)" "q - i < j" "q < NPROC" using j(1,2) by auto
    then show "q < NPROC \<and> pstate (procs s q) \<noteq> RUNNABLE" using j(4) by metis
  qed
  note sk = scan_skips [OF assms this, of "p # [Suc p..<NPROC]" found, folded up]
  let ?s = "if [i..<p] = [] then s else s\<lparr>lks := lk_touch (lks s)\<rparr>"
  have "idle c (lks ?s)" "pstate (procs ?s p) = RUNNABLE" "p < NPROC" "dispatched c p ?s = dispatched c p s"
    using assms j dispatched_touch [of s c p] by (auto simp: idle_def)
  with scan_switch [of c ?s p "[Suc p..<NPROC]" found] Some sk show ?thesis by simp
qed

lemma scan_leads:
  assumes "idle c (lks s)" "set ps \<subseteq> {0..<NPROC}" "p \<in> set ps" "pstate (procs s p) = RUNNABLE"
  shows "leads (\<lambda>s s'. handed_back c s s' \<and> (pstate (procs s p) = RUNNABLE \<longrightarrow> pstate (procs s' p) = RUNNABLE))
    (\<lambda>s'. cpu_proc (cpus (lks s') c) = Some p \<and> pstate (procs s' p) = RUNNING) (scheduler_scan c ps found) s"
  using assms
proof (induction ps arbitrary: s found)
  case (Cons q ps)
  show ?case
  proof (cases "pstate (procs s q) = RUNNABLE")
    case True
    let ?d = "dispatched c q s"
    obtain k where k: "scheduler_scan c (q # ps) found s = Swtch ?d k"
      "\<And>l s'. idle c l \<Longrightarrow> lks s' = lk_acq (LProc q) l \<Longrightarrow> k s' = scheduler_scan c ps True (taken_back c l s')"
      using scan_switch [of c s q ps found] Cons.prems True by auto
    have cp: "cpu_proc (cpus (lks ?d) c) = Some q" by (simp add: dispatched_def)
    have hb: "handed_back c ?d ?d"
      using Cons.prems(1) by (auto simp: handed_back_def cp)
        (auto simp: dispatched_def intro!: exI [of _ "upd_cpu c (\<lambda>k. k\<lparr>cpu_proc := Some q\<rparr>) (lks s)"])
    show ?thesis
    proof (cases "q = p")
      case True
      have "pstate (procs ?d q) = RUNNING" by (simp add: dispatched_def)
      then show ?thesis unfolding leads_def k(1) using cp True by simp
    next
      case False
      have dp: "pstate (procs ?d p) = RUNNABLE" using False Cons.prems(4) by (simp add: dispatched_def)
      have "leads_out (\<lambda>s s'. handed_back c s s' \<and> (pstate (procs s p) = RUNNABLE \<longrightarrow> pstate (procs s' p) = RUNNABLE))
          (\<lambda>s'. cpu_proc (cpus (lks s') c) = Some p \<and> pstate (procs s' p) = RUNNING) (k s')"
        if b: "handed_back c ?d s'" "pstate (procs s' p) = RUNNABLE" for s'
      proof -
        obtain l where l: "idle c l" "lks s' = lk_acq (LProc q) l" using b(1) by (auto simp: handed_back_def cp)
        show ?thesis
          unfolding k(2) [OF l] leads_def [symmetric]
          by (rule Cons.IH [OF taken_back_idle [OF l(1)]]) (use Cons.prems False b(2) in \<open>auto simp: taken_back_def\<close>)
      qed
      then show ?thesis using hb dp by (auto simp: leads_def k(1))
    qed
  next
    case False
    then have "scheduler_scan c (q # ps) found s = scheduler_scan c ps found (s\<lparr>lks := lk_touch (lks s)\<rparr>)"
      using Cons.prems by (intro scan_skip) auto
    moreover have "p \<in> set ps" using False Cons.prems by auto
    ultimately show ?thesis using Cons.IH [of "s\<lparr>lks := lk_touch (lks s)\<rparr>" found] Cons.prems by (simp add: leads_def)
  qed
qed simp

text \<open>C12: No RUNNABLE process is passed over.  A process that is RUNNABLE when the scheduler of an idle CPU
  starts, and is left RUNNABLE by the processes that run before it, is
  switched to within the first pass over the table, whatever else these processes do to the state,
  as long as each comes back holding its own lock alone.\<close>

theorem scheduler_fair:
  assumes "idle c (lks s)" and "p < NPROC" and "pstate (procs s p) = RUNNABLE" and "0 < wake_bound s"
  shows "leads (\<lambda>s s'. handed_back c s s' \<and> (pstate (procs s p) = RUNNABLE \<longrightarrow> pstate (procs s' p) = RUNNABLE))
    (\<lambda>s'. cpu_proc (cpus (lks s') c) = Some p \<and> pstate (procs s' p) = RUNNING) scheduler s"
proof -
  obtain n where n: "wake_bound s = Suc n" using assms(4) by (cases "wake_bound s") simp_all
  have m: "mycpu s = Ok c s" using assms by (simp add: mycpu_def cpuid_def idle_def)
  let ?s = "s\<lparr>lks := upd_cpu c (\<lambda>k. k\<lparr>cpu_proc := None\<rparr>) (lks s)\<rparr>"
  have i: "intr_on ?s = Ok () (?s\<lparr>lks := set_intr True (lks ?s)\<rparr>)" "idle c (set_intr True (lks ?s))"
    using idle_intr_on [of c ?s] assms(1) by simp_all
  let ?R = "\<lambda>s s'. handed_back c s s' \<and> (pstate (procs s p) = RUNNABLE \<longrightarrow> pstate (procs s' p) = RUNNABLE)"
    and ?P = "\<lambda>s'. cpu_proc (cpus (lks s') c) = Some p \<and> pstate (procs s' p) = RUNNING"
  have "leads ?R ?P (scheduler_scan c [0..<NPROC] False) (?s\<lparr>lks := set_intr True (lks ?s)\<rparr>)"
    by (rule scan_leads) (use assms i(2) in simp_all)
  then have "leads ?R ?P (bind (scheduler_scan c [0..<NPROC] False) (\<lambda>found. seq (whenM (\<not> found) intr_on) (scheduler_loop c n)))
    (?s\<lparr>lks := set_intr True (lks ?s)\<rparr>)" by (rule leads_bind)
  moreover have "scheduler s = bind (scheduler_scan c [0..<NPROC] False) (\<lambda>found. seq (whenM (\<not> found) intr_on) (scheduler_loop c n))
    (?s\<lparr>lks := set_intr True (lks ?s)\<rparr>)"
    using i(1) by (simp add: scheduler_def m set_cpu_proc_def n)
  ultimately show ?thesis by (simp add: leads_def)
qed

definition two_runnable :: kstate where
  "two_runnable = zero_state\<lparr>procs := \<lambda>p. zero_proc\<lparr>pstate := if p = 3 \<or> p = 5 then RUNNABLE else UNUSED\<rparr>, wake_bound := 1\<rparr>"

lemma idle_two_runnable: "idle 0 (lks two_runnable)" "lks two_runnable = zero_lks"
  by (simp_all add: two_runnable_def idle_def, simp_all add: zero_lks_def)

theorem scheduler_pass_witness:
  "\<exists>k. scheduler_scan 0 [4..<NPROC] False two_runnable = Swtch (dispatched 0 5 two_runnable) k
    \<and> k (dispatched 0 5 two_runnable) =
        scheduler_scan 0 [6..<NPROC] True (taken_back 0 (upd_cpu 0 (\<lambda>k. k\<lparr>cpu_proc := Some 5\<rparr>) zero_lks) (dispatched 0 5 two_runnable))"
proof -
  have f: "find (\<lambda>p. pstate (procs two_runnable p) = RUNNABLE) [4..<NPROC] = Some 5"
    by (simp add: two_runnable_def upt_conv_Cons)
  have "idle 0 (upd_cpu 0 (\<lambda>k. k\<lparr>cpu_proc := Some 5\<rparr>) zero_lks)" using idle_two_runnable by simp
  with scheduler_pass [OF idle_two_runnable(1), of 4 False, unfolded f option.case] show ?thesis
    by (auto simp: dispatched_def idle_two_runnable(2))
qed

theorem scheduler_fair_witness:
  "leads (\<lambda>s s'. handed_back 0 s s' \<and> (pstate (procs s 5) = RUNNABLE \<longrightarrow> pstate (procs s' 5) = RUNNABLE))
    (\<lambda>s'. cpu_proc (cpus (lks s') 0) = Some 5 \<and> pstate (procs s' 5) = RUNNING) scheduler two_runnable"
  by (rule scheduler_fair [OF idle_two_runnable(1)]) (simp_all add: two_runnable_def)

section \<open>A thread that holds no lock\<close>

text \<open>A kernel thread of process \<open>p\<close> that holds no lock, with nobody else in the way.\<close>

definition idle_thread :: "nat \<Rightarrow> kstate \<Rightarrow> bool" where
  "idle_thread p s \<longleftrightarrow> lk_ok (lks s) \<and> cpu_proc (curcpu (lks s)) = Some p \<and> (\<forall>L. \<not> locked (spinl (lks s) L))"

definition woken :: "chan \<Rightarrow> kstate \<Rightarrow> kstate" where
  "woken ch s = s\<lparr>procs := wake_all ch (procs s), lks := lk_touch (lks s)\<rparr>"

lemma sleep_while_done: "\<not> busy s \<Longrightarrow> sleep_while n busy ch lk s = Ok () s"
  by (cases n) simp_all

end
