(* ===== verification/Sleeplock.thy ===== *)
theory Sleeplock
  imports Sched
begin

text \<open>
  \<open>kernel/sleeplock.c\<close>.  The sleep-locks of the kernel are the ones in the buffers and in the
  in-memory inodes; \<open>slid\<close> names them.
\<close>

fun get_sl :: "slid \<Rightarrow> kstate \<Rightarrow> sleeplock" where
  "get_sl (SLbuf b) s = b_lock (bufs s b)"
| "get_sl (SLinode i) s = i_lock (inodes s i)"

fun put_sl :: "slid \<Rightarrow> sleeplock \<Rightarrow> kstate \<Rightarrow> kstate" where
  "put_sl (SLbuf b) l s = s\<lparr>bufs := (bufs s)(b := (bufs s b)\<lparr>b_lock := l\<rparr>)\<rparr>"
| "put_sl (SLinode i) l s = s\<lparr>inodes := (inodes s)(i := (inodes s i)\<lparr>i_lock := l\<rparr>)\<rparr>"

definition upd_sl :: "slid \<Rightarrow> (sleeplock \<Rightarrow> sleeplock) \<Rightarrow> unit k" where
  "upd_sl L f = modify (\<lambda>s. put_sl L (f (get_sl L s)) s)"

definition initsleeplock :: "slid \<Rightarrow> string \<Rightarrow> unit k" where
  "initsleeplock L nm =
     seq (initlock (LSleep L) ''sleep lock'') (
     upd_sl L (\<lambda>l. l\<lparr>sl_name := nm, sl_locked := False, sl_pid := 0\<rparr>))"

definition acquiresleep :: "slid \<Rightarrow> unit k" where
  "acquiresleep L =
     seq (acquire (LSleep L)) (
     bind (gets wake_bound) (\<lambda>n.
     seq (sleep_while n (\<lambda>s. sl_locked (get_sl L s)) (ChSleep L) (LSleep L)) (
     seq (upd_sl L (\<lambda>l. l\<lparr>sl_locked := True\<rparr>)) (
     bind curproc (\<lambda>p.
     bind (gets (\<lambda>s. pid (procs s p))) (\<lambda>i.
     seq (upd_sl L (\<lambda>l. l\<lparr>sl_pid := i\<rparr>))
     (release (LSleep L))))))))"

definition releasesleep :: "slid \<Rightarrow> unit k" where
  "releasesleep L =
     seq (acquire (LSleep L)) (
     seq (upd_sl L (\<lambda>l. l\<lparr>sl_locked := False, sl_pid := 0\<rparr>)) (
     seq (wakeup (ChSleep L))
     (release (LSleep L))))"

text \<open>\<open>lk->locked && (lk->pid == myproc()->pid)\<close> calls \<open>myproc()\<close> only when the lock is locked.\<close>

definition holdingsleep :: "slid \<Rightarrow> bool k" where
  "holdingsleep L =
     seq (acquire (LSleep L)) (
     bind (gets (\<lambda>s. sl_locked (get_sl L s))) (\<lambda>l.
     bind (if l then bind curproc (\<lambda>p. gets (\<lambda>s. sl_pid (get_sl L s) = pid (procs s p)))
           else return False) (\<lambda>r.
     seq (release (LSleep L))
     (return r))))"

end
