(* ===== verification/Virtio.thy ===== *)
theory Virtio
  imports Sched
begin

text \<open>
  \<open>kernel/virtio_disk.c\<close>: the driver of the virtio block device, with its descriptor table and
  rings.  The device itself is outside: it moves \<open>used_id\<close>, fills \<open>used_elems\<close> and
  \<open>info_status\<close>, and reads or writes the data of the buffer a chain names.
\<close>

section \<open>Definitions\<close>

definition upd_disk :: "(vdisk \<Rightarrow> vdisk) \<Rightarrow> unit k" where
  "upd_disk f = modify (\<lambda>s. s\<lparr>vdiskst := f (vdiskst s)\<rparr>)"

definition upd_desc :: "nat \<Rightarrow> (vdesc \<Rightarrow> vdesc) \<Rightarrow> unit k" where
  "upd_desc i f = upd_disk (\<lambda>d. d\<lparr>vdesc := (vdesc d)(i := f (vdesc d i))\<rparr>)"

definition upd_buf :: "nat \<Rightarrow> (buf \<Rightarrow> buf) \<Rightarrow> unit k" where
  "upd_buf b f = modify (\<lambda>s. s\<lparr>bufs := (bufs s)(b := f (bufs s b))\<rparr>)"

definition reg_in :: "u64 \<Rightarrow> u64 k" where
  "reg_in r = gets (\<lambda>s. mmio_in s (VIRTIO0 + r))"

definition reg_out :: "u64 \<Rightarrow> u64 \<Rightarrow> unit k" where
  "reg_out r v = modify (\<lambda>s. s\<lparr>mmio_out := mmio_out s @ [(VIRTIO0 + r, v)]\<rparr>)"

abbreviation (input) VIRTIO_MMIO_MAGIC_VALUE :: u64 where "VIRTIO_MMIO_MAGIC_VALUE \<equiv> 0x000"
abbreviation (input) VIRTIO_MMIO_VERSION :: u64 where "VIRTIO_MMIO_VERSION \<equiv> 0x004"
abbreviation (input) VIRTIO_MMIO_DEVICE_ID :: u64 where "VIRTIO_MMIO_DEVICE_ID \<equiv> 0x008"
abbreviation (input) VIRTIO_MMIO_VENDOR_ID :: u64 where "VIRTIO_MMIO_VENDOR_ID \<equiv> 0x00c"
abbreviation (input) VIRTIO_MMIO_DEVICE_FEATURES :: u64 where "VIRTIO_MMIO_DEVICE_FEATURES \<equiv> 0x010"
abbreviation (input) VIRTIO_MMIO_DRIVER_FEATURES :: u64 where "VIRTIO_MMIO_DRIVER_FEATURES \<equiv> 0x020"
abbreviation (input) VIRTIO_MMIO_GUEST_PAGE_SIZE :: u64 where "VIRTIO_MMIO_GUEST_PAGE_SIZE \<equiv> 0x028"
abbreviation (input) VIRTIO_MMIO_QUEUE_SEL :: u64 where "VIRTIO_MMIO_QUEUE_SEL \<equiv> 0x030"
abbreviation (input) VIRTIO_MMIO_QUEUE_NUM_MAX :: u64 where "VIRTIO_MMIO_QUEUE_NUM_MAX \<equiv> 0x034"
abbreviation (input) VIRTIO_MMIO_QUEUE_NUM :: u64 where "VIRTIO_MMIO_QUEUE_NUM \<equiv> 0x038"
abbreviation (input) VIRTIO_MMIO_QUEUE_PFN :: u64 where "VIRTIO_MMIO_QUEUE_PFN \<equiv> 0x040"
abbreviation (input) VIRTIO_MMIO_QUEUE_NOTIFY :: u64 where "VIRTIO_MMIO_QUEUE_NOTIFY \<equiv> 0x050"
abbreviation (input) VIRTIO_MMIO_INTERRUPT_STATUS :: u64 where "VIRTIO_MMIO_INTERRUPT_STATUS \<equiv> 0x060"
abbreviation (input) VIRTIO_MMIO_INTERRUPT_ACK :: u64 where "VIRTIO_MMIO_INTERRUPT_ACK \<equiv> 0x064"
abbreviation (input) VIRTIO_MMIO_STATUS :: u64 where "VIRTIO_MMIO_STATUS \<equiv> 0x070"

abbreviation (input) VRING_DESC_F_NEXT :: u16 where "VRING_DESC_F_NEXT \<equiv> 1"
abbreviation (input) VRING_DESC_F_WRITE :: u16 where "VRING_DESC_F_WRITE \<equiv> 2"
abbreviation (input) VIRTIO_BLK_T_IN :: u32 where "VIRTIO_BLK_T_IN \<equiv> 0"
abbreviation (input) VIRTIO_BLK_T_OUT :: u32 where "VIRTIO_BLK_T_OUT \<equiv> 1"

text \<open>The feature bits that the driver declines: 5, 7, 11, 12, 27, 29 and 28.\<close>

definition drop_features :: "u64 \<Rightarrow> u64" where
  "drop_features f = fold (\<lambda>i x. x AND NOT (push_bit i 1)) [5, 7, 11, 12, 27, 29, 28] f"

definition virtio_disk_init :: "unit k" where
  "virtio_disk_init =
     seq (initlock LVdisk ''virtio_disk'') (
     bind (reg_in VIRTIO_MMIO_MAGIC_VALUE) (\<lambda>magic.
     bind (reg_in VIRTIO_MMIO_VERSION) (\<lambda>version.
     bind (reg_in VIRTIO_MMIO_DEVICE_ID) (\<lambda>device.
     bind (reg_in VIRTIO_MMIO_VENDOR_ID) (\<lambda>vendor.
     seq (panic_if (magic \<noteq> 0x74726976 \<or> version \<noteq> 1 \<or> device \<noteq> 2 \<or> vendor \<noteq> 0x554d4551)
            ''could not find virtio disk'') (
     seq (reg_out VIRTIO_MMIO_STATUS 1) (
     seq (reg_out VIRTIO_MMIO_STATUS 3) (
     bind (reg_in VIRTIO_MMIO_DEVICE_FEATURES) (\<lambda>features.
     seq (reg_out VIRTIO_MMIO_DRIVER_FEATURES (drop_features features)) (
     seq (reg_out VIRTIO_MMIO_STATUS 11) (
     seq (reg_out VIRTIO_MMIO_STATUS 15) (
     seq (reg_out VIRTIO_MMIO_GUEST_PAGE_SIZE PGSIZE) (
     seq (reg_out VIRTIO_MMIO_QUEUE_SEL 0) (
     bind (reg_in VIRTIO_MMIO_QUEUE_NUM_MAX) (\<lambda>mx.
     seq (panic_if (mx = 0) ''virtio disk has no queue 0'') (
     seq (panic_if (mx < of_nat NUM) ''virtio disk max queue too short'') (
     seq (reg_out VIRTIO_MMIO_QUEUE_NUM (of_nat NUM)) (
     seq (upd_disk (\<lambda>d. d\<lparr>vdesc := \<lambda>_. \<lparr>d_addr = ANull, d_len = 0, d_flags = 0, d_next = 0\<rparr>,
            avail_idx := 0, avail_ring := \<lambda>_. 0, used_id := 0, used_elems := \<lambda>_. 0\<rparr>)) (
     bind (gets (\<lambda>s. k_disk_pages (syms s))) (\<lambda>pages.
     seq (reg_out VIRTIO_MMIO_QUEUE_PFN (drop_bit PGSHIFT pages))
     (forM [0..<NUM] (\<lambda>i. upd_disk (\<lambda>d. d\<lparr>dfree := (dfree d)(i := True)\<rparr>)))))))))))))))))))))))"

text \<open>\<open>alloc_desc\<close>: the index, or \<open>None\<close> for -1.\<close>

definition alloc_desc :: "nat option k" where
  "alloc_desc =
     bind (gets (\<lambda>s. find (dfree (vdiskst s)) [0..<NUM])) (\<lambda>r.
     case r of None \<Rightarrow> return None
     | Some i \<Rightarrow> seq (upd_disk (\<lambda>d. d\<lparr>dfree := (dfree d)(i := False)\<rparr>)) (return (Some i)))"

definition free_desc :: "nat \<Rightarrow> unit k" where
  "free_desc i =
     seq (panic_if (NUM \<le> i) ''virtio_disk_intr 1'') (
     bind (gets (\<lambda>s. dfree (vdiskst s) i)) (\<lambda>f.
     seq (panic_if f ''virtio_disk_intr 2'') (
     seq (upd_desc i (\<lambda>d. d\<lparr>d_addr := ANull\<rparr>)) (
     seq (upd_disk (\<lambda>d. d\<lparr>dfree := (dfree d)(i := True)\<rparr>))
     (wakeup ChDiskFree)))))"

text \<open>Every round of \<open>free_chain\<close> frees a descriptor that was in use, so a chain that comes back to
  itself panics after at most \<open>NUM\<close> rounds; the counter never runs out before.\<close>

fun free_chain :: "nat \<Rightarrow> nat \<Rightarrow> unit k" where
  "free_chain 0 i = spin"
| "free_chain (Suc n) i =
     seq (free_desc i) (
     bind (gets (\<lambda>s. vdesc (vdiskst s) i)) (\<lambda>d.
     if d_flags d AND VRING_DESC_F_NEXT \<noteq> 0 then free_chain n (unat (d_next d)) else return ()))"

fun alloc3_from :: "nat \<Rightarrow> nat list \<Rightarrow> nat list option k" where
  "alloc3_from 0 idx = return (Some idx)"
| "alloc3_from (Suc n) idx =
     bind alloc_desc (\<lambda>r. case r of
       Some i \<Rightarrow> alloc3_from n (idx @ [i])
     | None \<Rightarrow> seq (forM idx free_desc) (return None))"

definition alloc3_desc :: "nat list option k" where
  "alloc3_desc = alloc3_from 3 []"

fun alloc3_wait :: "nat \<Rightarrow> nat list k" where
  "alloc3_wait n = bind alloc3_desc (\<lambda>r. case r of
       Some idx \<Rightarrow> return idx
     | None \<Rightarrow> (case n of 0 \<Rightarrow> spin
         | Suc n' \<Rightarrow> seq (sleep ChDiskFree LVdisk) (alloc3_wait n')))"

declare alloc3_wait.simps [simp del]

definition disk_format :: "nat \<Rightarrow> bool \<Rightarrow> u64 \<Rightarrow> nat \<Rightarrow> nat \<Rightarrow> nat \<Rightarrow> unit k" where
  "disk_format b wr sector i0 i1 i2 =
     seq (upd_desc i0 (\<lambda>d. d\<lparr>d_addr := AHeader (if wr then VIRTIO_BLK_T_OUT else VIRTIO_BLK_T_IN) sector,
            d_len := 16, d_flags := VRING_DESC_F_NEXT, d_next := of_nat i1\<rparr>)) (
     seq (upd_desc i1 (\<lambda>d. d\<lparr>d_addr := AData b, d_len := of_nat BSIZE,
            d_flags := (if wr then 0 else VRING_DESC_F_WRITE) OR VRING_DESC_F_NEXT, d_next := of_nat i2\<rparr>)) (
     seq (upd_disk (\<lambda>d. d\<lparr>info_status := (info_status d)(i0 := 0)\<rparr>))
     (upd_desc i2 (\<lambda>d. d\<lparr>d_addr := AStatus i0, d_len := 1, d_flags := VRING_DESC_F_WRITE, d_next := 0\<rparr>))))"

definition virtio_disk_rw :: "nat \<Rightarrow> bool \<Rightarrow> unit k" where
  "virtio_disk_rw b wr =
     bind (gets (\<lambda>s. ucast (b_blockno (bufs s b) * 2 :: u32))) (\<lambda>sector.
     seq (acquire LVdisk) (
     bind (gets wake_bound) (\<lambda>n.
     bind (alloc3_wait n) (\<lambda>idx.
     let i0 = idx ! 0; i1 = idx ! 1; i2 = idx ! 2 in
     seq (disk_format b wr sector i0 i1 i2) (
     seq (upd_buf b (\<lambda>x. x\<lparr>b_disk := True\<rparr>)) (
     seq (upd_disk (\<lambda>d. d\<lparr>info_b := (info_b d)(i0 := Some b)\<rparr>)) (
     seq (upd_disk (\<lambda>d. d\<lparr>avail_ring := (avail_ring d)(unat (avail_idx d) mod NUM := of_nat i0)\<rparr>)) (
     seq (upd_disk (\<lambda>d. d\<lparr>avail_idx := avail_idx d + 1\<rparr>)) (
     seq (reg_out VIRTIO_MMIO_QUEUE_NOTIFY 0) (
     seq (sleep_while n (\<lambda>s. b_disk (bufs s b)) (ChBuf b) LVdisk) (
     seq (upd_disk (\<lambda>d. d\<lparr>info_b := (info_b d)(i0 := None)\<rparr>)) (
     seq (free_chain (Suc NUM) i0)
     (release LVdisk)))))))))))))"

text \<open>The completion interrupt: \<open>used_idx\<close> follows \<open>used->id\<close> modulo \<open>NUM\<close>, so the loop ends after
  fewer than \<open>NUM\<close> rounds.\<close>

fun disk_intr_loop :: "nat \<Rightarrow> unit k" where
  "disk_intr_loop 0 = return ()"
| "disk_intr_loop (Suc n) =
     bind (gets vdiskst) (\<lambda>d.
     if unat (used_idx d) mod NUM = unat (used_id d) mod NUM then return ()
     else
       let id = unat (used_elems d (unat (used_idx d))) in
       seq (panic_if (info_status d id \<noteq> 0) ''virtio_disk_intr status'') (
       bind (deref (info_b d id)) (\<lambda>b.
       seq (upd_buf b (\<lambda>x. x\<lparr>b_disk := False\<rparr>)) (
       seq (wakeup (ChBuf b)) (
       seq (upd_disk (\<lambda>d. d\<lparr>used_idx := (used_idx d + 1) mod of_nat NUM\<rparr>))
       (disk_intr_loop n))))))"

definition virtio_disk_intr :: "unit k" where
  "virtio_disk_intr =
     seq (acquire LVdisk) (
     seq (disk_intr_loop NUM) (
     bind (reg_in VIRTIO_MMIO_INTERRUPT_STATUS) (\<lambda>st.
     seq (reg_out VIRTIO_MMIO_INTERRUPT_ACK (st AND 3))
     (release LVdisk))))"

section \<open>Descriptors\<close>

lemma alloc_desc_Ok:
  assumes "find (dfree (vdiskst s)) [0..<NUM] = Some i"
  shows "alloc_desc s = Ok (Some i) (s\<lparr>vdiskst := (vdiskst s)\<lparr>dfree := (dfree (vdiskst s))(i := False)\<rparr>\<rparr>)"
  using assms by (simp add: alloc_desc_def upd_disk_def)

lemma alloc3_desc_Ok:
  assumes "\<And>i. i < NUM \<Longrightarrow> dfree (vdiskst s) i"
  shows "alloc3_desc s = Ok (Some [0, 1, 2])
    (s\<lparr>vdiskst := (vdiskst s)\<lparr>dfree := (dfree (vdiskst s))(0 := False, 1 := False, 2 := False)\<rparr>\<rparr>)"
  using assms
  by (simp add: alloc3_desc_def numeral_3_eq_3 alloc_desc_def upd_disk_def upt_rec) (simp add: numeral_2_eq_2)

lemma free_desc_Ok:
  assumes "procs_free s" "0 < noff (curcpu (lks s))" "i < NUM" "\<not> dfree (vdiskst s) i"
  shows "free_desc i s = Ok () (s\<lparr>vdiskst := (vdiskst s)\<lparr>
      vdesc := (vdesc (vdiskst s))(i := (vdesc (vdiskst s) i)\<lparr>d_addr := ANull\<rparr>),
      dfree := (dfree (vdiskst s))(i := True)\<rparr>, procs := wake_all ChDiskFree (procs s)\<rparr>)"
proof -
  let ?s = "s\<lparr>vdiskst := (vdiskst s)\<lparr>
      vdesc := (vdesc (vdiskst s))(i := (vdesc (vdiskst s) i)\<lparr>d_addr := ANull\<rparr>),
      dfree := (dfree (vdiskst s))(i := True)\<rparr>\<rparr>"
  have "procs_free ?s" using assms(1) by (simp add: procs_free_def)
  from wakeup_Ok [OF this, of ChDiskFree] show ?thesis
    using assms(2-4) by (simp add: free_desc_def upd_desc_def upd_disk_def)
qed

text \<open>Freeing a chain stops: every round frees a descriptor that was in use, and there are
  only \<open>NUM\<close> of them.\<close>

definition in_use :: "vdisk \<Rightarrow> nat" where
  "in_use d = card {i. i < NUM \<and> \<not> dfree d i}"

lemma free_chain_stops:
  assumes "procs_free s" "0 < noff (curcpu (lks s))" "in_use (vdiskst s) < n"
  shows "(\<exists>s'. free_chain n i s = Ok () s') \<or> (\<exists>e s'. free_chain n i s = Panic e s')"
  using assms
proof (induction n arbitrary: i s)
  case 0
  then show ?case by simp
next
  case (Suc n)
  show ?case
  proof (cases "i < NUM \<and> \<not> dfree (vdiskst s) i")
    case False
    then show ?thesis by (auto simp: free_desc_def)
  next
    case True
    let ?v = "(vdiskst s)\<lparr>vdesc := (vdesc (vdiskst s))(i := (vdesc (vdiskst s) i)\<lparr>d_addr := ANull\<rparr>),
      dfree := (dfree (vdiskst s))(i := True)\<rparr>"
    let ?s = "s\<lparr>vdiskst := ?v, procs := wake_all ChDiskFree (procs s)\<rparr>"
    have f: "free_desc i s = Ok () ?s" using True Suc.prems by (intro free_desc_Ok) simp_all
    have "{j. j < NUM \<and> \<not> dfree (vdiskst s) j} = insert i {j. j < NUM \<and> \<not> dfree ?v j}"
      using True by auto
    moreover have "card (insert i {j. j < NUM \<and> \<not> dfree ?v j}) = Suc (card {j. j < NUM \<and> \<not> dfree ?v j})"
      by (rule card_insert_disjoint) simp_all
    ultimately have "in_use ?v < n" using Suc.prems(3) by (simp add: in_use_def)
    moreover have "procs_free ?s" using Suc.prems(1) by (simp add: procs_free_def)
    ultimately show ?thesis
      using Suc.IH [of ?s "unat (d_next (vdesc (vdiskst s) i))"] Suc.prems(2) f by auto
  qed
qed

section \<open>The completion interrupt\<close>

definition used_next :: "vdisk \<Rightarrow> vdisk" where
  "used_next d = d\<lparr>used_idx := (used_idx d + 1) mod of_nat NUM\<rparr>"

lemma used_id_next [simp]: "used_id (used_next d) = used_id d"
  by (simp add: used_next_def)

lemma disk_intr_loop_done:
  "unat (used_idx (vdiskst s)) mod NUM = unat (used_id (vdiskst s)) mod NUM \<Longrightarrow> disk_intr_loop n s = Ok () s"
  by (cases n) simp_all

lemma disk_intr_loop_one:
  assumes "procs_free s" "0 < noff (curcpu (lks s))"
    and "unat (used_idx (vdiskst s)) mod NUM \<noteq> unat (used_id (vdiskst s)) mod NUM"
    and "unat ((used_idx (vdiskst s) + 1) mod 8) mod NUM = unat (used_id (vdiskst s)) mod NUM"
  defines "hid \<equiv> unat (used_elems (vdiskst s) (unat (used_idx (vdiskst s))))"
  assumes "info_status (vdiskst s) hid = 0" "info_b (vdiskst s) hid = Some b"
  shows "disk_intr_loop (Suc n) s = Ok () (s\<lparr>bufs := (bufs s)(b := (bufs s b)\<lparr>b_disk := False\<rparr>),
     procs := wake_all (ChBuf b) (procs s), vdiskst := used_next (vdiskst s)\<rparr>)"
proof -
  let ?s = "s\<lparr>bufs := (bufs s)(b := (bufs s b)\<lparr>b_disk := False\<rparr>)\<rparr>"
  have "procs_free ?s" using assms(1) by (simp add: procs_free_def)
  from wakeup_Ok [OF this, of "ChBuf b"] show ?thesis
    using assms(2-) by (simp add: upd_buf_def upd_disk_def deref_def disk_intr_loop_done used_next_def)
qed

text \<open>A thread of process \<open>p\<close> in a kernel in which nobody else is active: it holds no lock, and
  no disk request is outstanding.\<close>

definition disk_quiet :: "vdisk \<Rightarrow> bool" where
  "disk_quiet d \<longleftrightarrow> (\<forall>i < NUM. dfree d i) \<and> unat (used_idx d) = unat (used_id d) mod NUM"

definition quiet :: "nat \<Rightarrow> kstate \<Rightarrow> bool" where
  "quiet p s \<longleftrightarrow> idle_thread p s \<and> noff (curcpu (lks s)) = 0 \<and> p < NPROC \<and> pstate (procs s p) = RUNNING
     \<and> pchan (procs s p) = None \<and> 0 < wake_bound s \<and> disk_quiet (vdiskst s)"

text \<open>What the device does with a request, by the virtio specification: it follows the chain whose
  head is the newest entry of the available ring, moves one block between the disk and the
  buffer, stores 0 in the status byte, and puts the head into the used ring.\<close>

definition device_serves :: "kstate \<Rightarrow> kstate \<Rightarrow> bool" where
  "device_serves s s' \<longleftrightarrow>
     (let v = vdiskst s; h = unat (avail_ring v (unat (avail_idx v - 1) mod NUM));
          i1 = unat (d_next (vdesc v h)); i2 = unat (d_next (vdesc v i1)) in
      \<exists>typ sector b k. d_addr (vdesc v h) = AHeader typ sector \<and> d_addr (vdesc v i1) = AData b
        \<and> d_addr (vdesc v i2) = AStatus k
        \<and> d_flags (vdesc v h) AND VRING_DESC_F_NEXT \<noteq> 0 \<and> d_flags (vdesc v i1) AND VRING_DESC_F_NEXT \<noteq> 0
        \<and> d_flags (vdesc v i2) AND VRING_DESC_F_WRITE \<noteq> 0
        \<and> d_len (vdesc v h) = 16 \<and> d_len (vdesc v i1) = of_nat BSIZE \<and> d_len (vdesc v i2) = 1
        \<and> (typ = VIRTIO_BLK_T_IN \<and> d_flags (vdesc v i1) AND VRING_DESC_F_WRITE \<noteq> 0
             \<and> bufs s' = (bufs s)(b := (bufs s b)\<lparr>b_data := dblocks s (ucast (sector div 2))\<rparr>)
             \<and> dblocks s' = dblocks s \<and> dhist s' = dhist s
          \<or> typ = VIRTIO_BLK_T_OUT \<and> d_flags (vdesc v i1) AND VRING_DESC_F_WRITE = 0
             \<and> bufs s' = bufs s \<and> dblocks s' = (dblocks s)(ucast (sector div 2) := b_data (bufs s b))
             \<and> dhist s' = dhist s @ [(ucast (sector div 2), b_data (bufs s b))])
        \<and> s' = s\<lparr>bufs := bufs s', dblocks := dblocks s', dhist := dhist s',
            vdiskst := v\<lparr>used_id := used_id v + 1,
              used_elems := (used_elems v)(unat (used_id v) mod NUM := of_nat h),
              info_status := (info_status v)(k := 0)\<rparr>\<rparr>)"

text \<open>Between the moment at which process \<open>p\<close> goes to sleep and the moment at which it runs again,
  the device serves the request, the interrupt handler runs on some hart, and the scheduler
  picks \<open>p\<close>, which the handler has made runnable.\<close>

definition all_free :: "lkstate \<Rightarrow> bool" where
  "all_free l \<longleftrightarrow> lk_ok l \<and> (\<forall>L. \<not> locked (spinl l L))"

definition disk_env :: "nat \<Rightarrow> kstate \<Rightarrow> kstate \<Rightarrow> bool" where
  "disk_env p s s' \<longleftrightarrow> (\<exists>s1 s2 l1 l2. device_serves s s1 \<and> all_free l1
     \<and> virtio_disk_intr (s1\<lparr>lks := l1\<rparr>) = Ok () s2 \<and> pstate (procs s2 p) = RUNNABLE
     \<and> sleep_pre p LVdisk l2 \<and> all_free l2
     \<and> s' = s2\<lparr>procs := (procs s2)(p := (procs s2 p)\<lparr>pstate := RUNNING\<rparr>), lks := lk_acq (LProc p) l2\<rparr>)"

lemma virtio_disk_intr_Ok:
  assumes "all_free (lks s)" and "used_id (vdiskst s) = uid + 1" "unat (used_idx (vdiskst s)) = unat uid mod NUM"
  defines "hid \<equiv> unat (used_elems (vdiskst s) (unat (used_idx (vdiskst s))))"
  assumes "info_status (vdiskst s) hid = 0" "info_b (vdiskst s) hid = Some b"
  shows "\<exists>l o'. virtio_disk_intr s = Ok () (s\<lparr>bufs := (bufs s)(b := (bufs s b)\<lparr>b_disk := False\<rparr>),
     procs := wake_all (ChBuf b) (procs s), vdiskst := used_next (vdiskst s), mmio_out := o', lks := l\<rparr>)
     \<and> unat (used_idx (used_next (vdiskst s))) = unat (used_id (vdiskst s)) mod NUM"
proof -
  let ?v = "vdiskst s"
  have u1: "unat (used_id ?v) mod 8 = (unat uid + 1) mod 8"
    by (simp add: assms(2) unat_word_ariths mod_mod_cancel)
  have lt: "unat (used_idx ?v) < 8" using assms(3) by simp
  then have u2: "unat (used_idx ?v + 1) = unat (used_idx ?v) + 1"
    by (subst unat_add_lem [THEN iffD1]) simp_all
  have eq: "unat ((used_idx ?v + 1) mod 8) = unat (used_id ?v) mod 8"
    unfolding unat_mod u2 u1 assms(3) by (simp add: mod_simps)
  have ne: "unat (used_idx ?v) mod 8 \<noteq> unat (used_id ?v) mod 8"
    unfolding u1 assms(3) by (simp add: mod_Suc)
  have l: "lk_ok (lks s)" "\<And>L. \<not> locked (spinl (lks s) L)" using assms(1) by (simp_all add: all_free_def)
  have acq: "acquire LVdisk s = Ok () (s\<lparr>lks := lk_acq LVdisk (lks s)\<rparr>)"
    using l by (simp add: acquire_can)
  let ?s = "s\<lparr>lks := lk_acq LVdisk (lks s)\<rparr>"
  have "disk_intr_loop 8 ?s = Ok () (?s\<lparr>bufs := (bufs s)(b := (bufs s b)\<lparr>b_disk := False\<rparr>),
     procs := wake_all (ChBuf b) (procs s), vdiskst := used_next (vdiskst s)\<rparr>)"
    using disk_intr_loop_one [of ?s b 7] l ne eq assms(5,6)
    by (simp add: procs_free_def hid_def lk_ok_def)
  then show ?thesis
    using acq l eq
    by (simp add: virtio_disk_intr_def reg_in_def reg_out_def release_Ok [where l = "lks s"] used_next_def)
      blast
qed

section \<open>What a thread may rely on across a disk request\<close>

text \<open>Everything but the state that the file system works on, the other processes, the locks and
  the device registers.\<close>

definition rest :: "nat \<Rightarrow> kstate \<Rightarrow> kstate" where
  "rest p s = s\<lparr>lks := lks zero_state, procs := \<lambda>_. procs s p, mmio_out := mmio_out zero_state,
     vdiskst := vdiskst zero_state, bufs := bufs zero_state, dblocks := dblocks zero_state,
     dhist := dhist zero_state, logst := logst zero_state, inodes := inodes zero_state\<rparr>"

lemma rest_upd [simp]:
  "rest p (s\<lparr>lks := l\<rparr>) = rest p s"
  "rest p (s\<lparr>mmio_out := x\<rparr>) = rest p s"
  "rest p (s\<lparr>vdiskst := v\<rparr>) = rest p s"
  "rest p (s\<lparr>bufs := B\<rparr>) = rest p s"
  "rest p (s\<lparr>dblocks := D\<rparr>) = rest p s"
  "rest p (s\<lparr>dhist := H\<rparr>) = rest p s"
  "rest p (s\<lparr>logst := L\<rparr>) = rest p s"
  "rest p (s\<lparr>inodes := I\<rparr>) = rest p s"
  by (simp_all add: rest_def)

lemma rest_lks_procs [simp]: "rest p (s\<lparr>lks := l, procs := f\<rparr>) = rest p (s\<lparr>procs := f\<rparr>)"
  by (simp add: rest_def)

lemma rest_procs: "f p = procs s p \<Longrightarrow> rest p (s\<lparr>procs := f\<rparr>) = rest p s"
  by (simp add: rest_def)

lemma rest_set_procs: "(rest p (s\<lparr>procs := g\<rparr>))\<lparr>procs := \<lambda>_. f p\<rparr> = rest p (s\<lparr>procs := f\<rparr>)"
  by (rule kstate.equality) (simp_all add: rest_def)

lemma rest_procs_cong:
  assumes "rest p (s'\<lparr>procs := g\<rparr>) = rest p (s\<lparr>procs := h\<rparr>)" "f p = f' p"
  shows "rest p (s'\<lparr>procs := f\<rparr>) = rest p (s\<lparr>procs := f'\<rparr>)"
  using arg_cong [OF assms(1), of "\<lambda>x. x\<lparr>procs := \<lambda>_. f p\<rparr>"] assms(2)
  by (metis rest_set_procs)

lemma rest_eqD:
  assumes "rest p s' = rest p s"
  shows "procs s' p = procs s p" "sb s' = sb s" "mem s' = mem s" "wake_bound s' = wake_bound s"
    "files s' = files s" "syms s' = syms s" "pipes s' = pipes s" "devsws s' = devsws s"
proof -
  have "procs (rest p s') p = procs (rest p s) p" "sb (rest p s') = sb (rest p s)"
    "mem (rest p s') = mem (rest p s)" "wake_bound (rest p s') = wake_bound (rest p s)"
    "files (rest p s') = files (rest p s)" "syms (rest p s') = syms (rest p s)"
    "pipes (rest p s') = pipes (rest p s)" "devsws (rest p s') = devsws (rest p s)"
    using assms by simp_all
  then show "procs s' p = procs s p" "sb s' = sb s" "mem s' = mem s" "wake_bound s' = wake_bound s"
    "files s' = files s" "syms s' = syms s" "pipes s' = pipes s" "devsws s' = devsws s"
    by (simp_all add: rest_def)
qed

definition fsx :: "nat \<Rightarrow> kstate \<Rightarrow> (nat \<Rightarrow> buf) \<Rightarrow> (u32 \<Rightarrow> block) \<Rightarrow> (u32 \<times> block) list \<Rightarrow> log \<Rightarrow> (nat \<Rightarrow> inode)
    \<Rightarrow> kstate \<Rightarrow> bool" where
  "fsx p s B D H L I s' \<longleftrightarrow> quiet p s' \<and> rest p s' = rest p s \<and> bufs s' = B \<and> dblocks s' = D \<and> dhist s' = H
     \<and> logst s' = L \<and> inodes s' = I"

text \<open>The second half of \<open>virtio_disk_rw\<close>, from the point at which the device has been notified.\<close>

definition disk_finish :: "nat \<Rightarrow> nat \<Rightarrow> nat \<Rightarrow> unit k" where
  "disk_finish n b i0 =
     seq (sleep_while n (\<lambda>s. b_disk (bufs s b)) (ChBuf b) LVdisk) (
     seq (upd_disk (\<lambda>d. d\<lparr>info_b := (info_b d)(i0 := None)\<rparr>)) (
     seq (free_chain (Suc NUM) i0)
     (release LVdisk)))"

text \<open>The chain 0, 1, 2 of a request.\<close>

definition chain3 :: "nat \<Rightarrow> bool \<Rightarrow> u64 \<Rightarrow> vdisk \<Rightarrow> bool" where
  "chain3 b wr sector v \<longleftrightarrow>
     d_addr (vdesc v 0) = AHeader (if wr then VIRTIO_BLK_T_OUT else VIRTIO_BLK_T_IN) sector
     \<and> d_len (vdesc v 0) = 16 \<and> d_flags (vdesc v 0) = 1 \<and> d_next (vdesc v 0) = 1
     \<and> d_addr (vdesc v 1) = AData b \<and> d_len (vdesc v 1) = 1024
     \<and> d_flags (vdesc v 1) = (if wr then 1 else 3) \<and> d_next (vdesc v 1) = 2
     \<and> d_addr (vdesc v 2) = AStatus 0 \<and> d_len (vdesc v 2) = 1 \<and> d_flags (vdesc v 2) = 2
     \<and> info_b v 0 = Some b \<and> info_status v 0 = 0
     \<and> \<not> dfree v 0 \<and> \<not> dfree v 1 \<and> \<not> dfree v 2 \<and> (\<forall>i < NUM. 2 < i \<longrightarrow> dfree v i)
     \<and> avail_ring v (unat (avail_idx v - 1) mod NUM) = 0"

definition requested :: "nat \<Rightarrow> bool \<Rightarrow> kstate \<Rightarrow> kstate \<Rightarrow> bool" where
  "requested b wr s s' \<longleftrightarrow> chain3 b wr (ucast (b_blockno (bufs s b) * 2)) (vdiskst s')
     \<and> used_idx (vdiskst s') = used_idx (vdiskst s) \<and> used_id (vdiskst s') = used_id (vdiskst s)
     \<and> bufs s' = (bufs s)(b := (bufs s b)\<lparr>b_disk := True\<rparr>) \<and> lks s' = lk_acq LVdisk (lks s)
     \<and> procs s' = procs s \<and> dblocks s' = dblocks s \<and> dhist s' = dhist s \<and> logst s' = logst s \<and> inodes s' = inodes s
     \<and> (\<forall>p. rest p s' = rest p s)"

lemma alloc3_wait_Ok:
  assumes "\<And>i. i < NUM \<Longrightarrow> dfree (vdiskst s) i"
  shows "alloc3_wait n s = Ok [0, 1, 2]
    (s\<lparr>vdiskst := (vdiskst s)\<lparr>dfree := (dfree (vdiskst s))(0 := False, 1 := False, 2 := False)\<rparr>\<rparr>)"
  by (subst alloc3_wait.simps) (simp add: alloc3_desc_Ok [OF assms])

lemma virtio_disk_rw_request:
  assumes "all_free (lks s)" "\<And>i. i < NUM \<Longrightarrow> dfree (vdiskst s) i"
  shows "\<exists>s'. virtio_disk_rw b wr s = disk_finish (wake_bound s) b 0 s' \<and> requested b wr s s'"
proof -
  have acq: "acquire LVdisk s = Ok () (s\<lparr>lks := lk_acq LVdisk (lks s)\<rparr>)"
    using assms(1) by (simp add: all_free_def acquire_can)
  let ?s = "s\<lparr>lks := lk_acq LVdisk (lks s)\<rparr>"
  have al: "alloc3_wait n ?s = Ok [0, 1, 2]
    (?s\<lparr>vdiskst := (vdiskst s)\<lparr>dfree := (dfree (vdiskst s))(0 := False, 1 := False, 2 := False)\<rparr>\<rparr>)" for n
    using alloc3_wait_Ok [of ?s] assms(2) by simp
  show ?thesis
    using assms(2) unfolding virtio_disk_rw_def Let_def disk_finish_def [symmetric]
    by (cases wr; simp add: acq al disk_format_def upd_desc_def upd_disk_def upd_buf_def reg_out_def)
      (intro exI conjI, rule refl, simp add: requested_def chain3_def)+
qed

section \<open>Serving the request\<close>

lemma sector_block: "unat bn < 2 ^ 31 \<Longrightarrow> ucast (ucast (bn * 2 :: u32) div (2 :: u64)) = (bn :: u32)"
proof -
  assume "unat bn < 2 ^ 31"
  then have "unat bn * unat (2 :: u32) < 2 ^ LENGTH(32)" by simp
  then have m: "unat (bn * 2) = unat bn * 2" by (subst unat_mult_lem [THEN iffD1]) simp_all
  have "unat (ucast (bn * 2 :: u32) :: u64) = unat bn * 2"
    using \<open>unat bn < 2 ^ 31\<close> unfolding unsigned_ucast_eq m by (simp add: take_bit_eq_mod)
  then have "unat (ucast (bn * 2) div (2 :: u64)) = unat bn"
    by (simp add: unat_div)
  then show ?thesis
    using \<open>unat bn < 2 ^ 31\<close> by (simp add: word_unat_eq_iff unsigned_ucast_eq take_bit_eq_mod)
qed

text \<open>The effect of a request on a buffer and on the disk.\<close>

definition rw_buf :: "bool \<Rightarrow> (u32 \<Rightarrow> block) \<Rightarrow> buf \<Rightarrow> buf" where
  "rw_buf wr D x = x\<lparr>b_data := (if wr then b_data x else D (b_blockno x)), b_disk := False\<rparr>"

definition rw_disk :: "bool \<Rightarrow> buf \<Rightarrow> (u32 \<Rightarrow> block) \<Rightarrow> u32 \<Rightarrow> block" where
  "rw_disk wr x D = (if wr then D(b_blockno x := b_data x) else D)"

definition rw_hist :: "bool \<Rightarrow> buf \<Rightarrow> (u32 \<times> block) list \<Rightarrow> (u32 \<times> block) list" where
  "rw_hist wr x H = (if wr then H @ [(b_blockno x, b_data x)] else H)"

definition asleep :: "nat \<Rightarrow> nat \<Rightarrow> bool \<Rightarrow> kstate \<Rightarrow> bool" where
  "asleep p b wr s \<longleftrightarrow> p < NPROC \<and> pstate (procs s p) = SLEEPING \<and> pchan (procs s p) = Some (ChBuf b)
     \<and> unat (b_blockno (bufs s b)) < 2 ^ 31 \<and> chain3 b wr (ucast (b_blockno (bufs s b) * 2)) (vdiskst s)
     \<and> unat (used_idx (vdiskst s)) = unat (used_id (vdiskst s)) mod NUM"

definition completed :: "nat \<Rightarrow> nat \<Rightarrow> bool \<Rightarrow> kstate \<Rightarrow> kstate \<Rightarrow> bool" where
  "completed p b wr s s' \<longleftrightarrow> chain3 b wr (ucast (b_blockno (bufs s b) * 2)) (vdiskst s')
     \<and> unat (used_idx (vdiskst s')) = unat (used_id (vdiskst s')) mod NUM
     \<and> bufs s' = (bufs s)(b := rw_buf wr (dblocks s) (bufs s b))
     \<and> dblocks s' = rw_disk wr (bufs s b) (dblocks s) \<and> dhist s' = rw_hist wr (bufs s b) (dhist s)
     \<and> logst s' = logst s \<and> inodes s' = inodes s
     \<and> procs s' p = (procs s p)\<lparr>pstate := RUNNING\<rparr> \<and> rest p (s'\<lparr>procs := procs s\<rparr>) = rest p s
     \<and> (\<exists>l. sleep_pre p LVdisk l \<and> all_free l \<and> lks s' = lk_acq (LProc p) l)"

lemma device_serves_chain3:
  assumes "asleep p b wr s"
  shows "device_serves s s1 \<longleftrightarrow> s1 = s\<lparr>bufs := (if wr then bufs s else (bufs s)(b := (bufs s b)\<lparr>b_data := dblocks s (b_blockno (bufs s b))\<rparr>)),
     dblocks := rw_disk wr (bufs s b) (dblocks s), dhist := rw_hist wr (bufs s b) (dhist s),
     vdiskst := (vdiskst s)\<lparr>used_id := used_id (vdiskst s) + 1,
       used_elems := (used_elems (vdiskst s))(unat (used_id (vdiskst s)) mod NUM := 0),
       info_status := (info_status (vdiskst s))(0 := 0)\<rparr>\<rparr>"
  using assms sector_block [of "b_blockno (bufs s b)"]
  by (cases wr) (auto simp: asleep_def chain3_def device_serves_def Let_def rw_disk_def rw_hist_def)

lemma chain3_used [simp]:
  "chain3 b wr x (used_next v) = chain3 b wr x v"
  "chain3 b wr x (v\<lparr>used_id := i, used_elems := e, info_status := (info_status v)(0 := 0)\<rparr>)
     = chain3 b wr x (v\<lparr>info_status := (info_status v)(0 := 0)\<rparr>)"
  by (simp_all add: chain3_def used_next_def)

lemma disk_env_completes:
  assumes "asleep p b wr s"
  shows "disk_env p s s' \<Longrightarrow> completed p b wr s s'"
    and "sleep_pre p LVdisk l \<Longrightarrow> all_free l \<Longrightarrow> \<exists>s'. disk_env p s s'"
proof -
  let ?v = "vdiskst s"
  let ?B = "if wr then bufs s else (bufs s)(b := (bufs s b)\<lparr>b_data := dblocks s (b_blockno (bufs s b))\<rparr>)"
  define v1 where "v1 = ?v\<lparr>used_id := used_id ?v + 1, used_elems := (used_elems ?v)(unat (used_id ?v) mod NUM := 0),
       info_status := (info_status ?v)(0 := 0)\<rparr>"
  define s1 where "s1 = s\<lparr>bufs := ?B, dblocks := rw_disk wr (bufs s b) (dblocks s),
     dhist := rw_hist wr (bufs s b) (dhist s), vdiskst := v1\<rparr>"
  have a: "p < NPROC" "pstate (procs s p) = SLEEPING" "pchan (procs s p) = Some (ChBuf b)"
    "unat (used_idx ?v) = unat (used_id ?v) mod NUM" and c: "chain3 b wr (ucast (b_blockno (bufs s b) * 2)) ?v"
    using assms by (simp_all add: asleep_def)
  have c1: "chain3 b wr (ucast (b_blockno (bufs s b) * 2)) v1" using c by (simp add: v1_def chain3_def)
  have v1: "used_id v1 = used_id ?v + 1" "unat (used_idx v1) = unat (used_id ?v) mod NUM"
    "used_elems v1 (unat (used_idx v1)) = 0" "info_status v1 0 = 0" "info_b v1 0 = Some b"
    using a c by (simp_all add: v1_def chain3_def)
  have intr: "\<exists>l' o'. virtio_disk_intr (s1\<lparr>lks := l\<rparr>) = Ok () (s1\<lparr>bufs := (?B)(b := (?B b)\<lparr>b_disk := False\<rparr>),
     procs := wake_all (ChBuf b) (procs s), vdiskst := used_next v1, mmio_out := o', lks := l'\<rparr>)
     \<and> unat (used_idx (used_next v1)) = unat (used_id v1) mod NUM" if "all_free l" for l
    using virtio_disk_intr_Ok [of "s1\<lparr>lks := l\<rparr>" "used_id ?v" b] that v1 by (simp add: s1_def)
  have rB: "(?B)(b := (?B b)\<lparr>b_disk := False\<rparr>) = (bufs s)(b := rw_buf wr (dblocks s) (bufs s b))"
    by (simp add: rw_buf_def)
  have wk: "wake_all (ChBuf b) (procs s) p = (procs s p)\<lparr>pstate := RUNNABLE\<rparr>"
    using a by (simp add: wake_all_def wake1_def)
  show "completed p b wr s s'" if de: "disk_env p s s'"
  proof -
    obtain s2 l1 l2 where l1: "all_free l1" and s2: "virtio_disk_intr (s1\<lparr>lks := l1\<rparr>) = Ok () s2"
      and l2: "sleep_pre p LVdisk l2" "all_free l2"
      and s': "s' = s2\<lparr>procs := (procs s2)(p := (procs s2 p)\<lparr>pstate := RUNNING\<rparr>), lks := lk_acq (LProc p) l2\<rparr>"
      using de unfolding disk_env_def device_serves_chain3 [OF assms] s1_def v1_def by auto
    obtain l' o' where "s2 = s1\<lparr>bufs := (?B)(b := (?B b)\<lparr>b_disk := False\<rparr>),
        procs := wake_all (ChBuf b) (procs s), vdiskst := used_next v1, mmio_out := o', lks := l'\<rparr>"
      and "unat (used_idx (used_next v1)) = unat (used_id v1) mod NUM"
      using intr [OF l1] s2 by auto
    then show ?thesis
      unfolding s' rB using l2 wk c1
      by (simp add: completed_def s1_def) (auto simp: rest_procs)
  qed
  show "\<exists>s'. disk_env p s s'" if l: "sleep_pre p LVdisk l" "all_free l"
  proof -
    obtain l' o' where i: "virtio_disk_intr (s1\<lparr>lks := l\<rparr>) = Ok () (s1\<lparr>bufs := (?B)(b := (?B b)\<lparr>b_disk := False\<rparr>),
        procs := wake_all (ChBuf b) (procs s), vdiskst := used_next v1, mmio_out := o', lks := l'\<rparr>)"
      using intr [OF l(2)] by blast
    have "device_serves s s1" unfolding device_serves_chain3 [OF assms] s1_def v1_def ..
    with i wk l show ?thesis unfolding disk_env_def by fastforce
  qed
qed

lemma wake_all_twice [simp]: "wake_all ch (wake_all ch f) = wake_all ch f"
  by (rule ext) (simp add: wake_all_def)

lemma free_chain3:
  assumes "procs_free s" "0 < noff (curcpu (lks s))" "chain3 b wr x v" "vdiskst s = v\<lparr>info_b := I\<rparr>"
  shows "\<exists>v'. free_chain (Suc (Suc (Suc n))) 0 s = Ok () (s\<lparr>vdiskst := v', procs := wake_all ChDiskFree (procs s)\<rparr>)
     \<and> (\<forall>i < NUM. dfree v' i) \<and> used_idx v' = used_idx v \<and> used_id v' = used_id v"
proof -
  note c = assms(3) [unfolded chain3_def]
  define s0 where "s0 = s"
  define v1 where "v1 = (vdiskst s)\<lparr>vdesc := (vdesc v)(0 := (vdesc v 0)\<lparr>d_addr := ANull\<rparr>), dfree := (dfree v)(0 := True)\<rparr>"
  define v2 where "v2 = v1\<lparr>vdesc := (vdesc v1)(1 := (vdesc v1 1)\<lparr>d_addr := ANull\<rparr>), dfree := (dfree v1)(1 := True)\<rparr>"
  define v3 where "v3 = v2\<lparr>vdesc := (vdesc v2)(2 := (vdesc v2 2)\<lparr>d_addr := ANull\<rparr>), dfree := (dfree v2)(2 := True)\<rparr>"
  let ?P = "wake_all ChDiskFree (procs s)"
  have pf: "procs_free (s\<lparr>vdiskst := w, procs := f\<rparr>)" for w f using assms(1) by (simp add: procs_free_def)
  have f0: "free_desc 0 s = Ok () (s\<lparr>vdiskst := v1, procs := ?P\<rparr>)"
    using free_desc_Ok [OF assms(1,2), of 0] c by (simp add: assms(4) v1_def)
  have f1: "free_desc 1 (s\<lparr>vdiskst := v1, procs := ?P\<rparr>) = Ok () (s\<lparr>vdiskst := v2, procs := ?P\<rparr>)"
    using free_desc_Ok [OF pf [of ?P v1], of 1] assms(2) c by (simp add: v1_def v2_def assms(4))
  have f2: "free_desc 2 (s\<lparr>vdiskst := v2, procs := ?P\<rparr>) = Ok () (s\<lparr>vdiskst := v3, procs := ?P\<rparr>)"
    using free_desc_Ok [OF pf [of ?P v2], of 2] assms(2) c by (simp add: v1_def v2_def v3_def assms(4))
  have fl: "d_flags (vdesc v1 0) = 1" "d_next (vdesc v1 0) = 1" "d_flags (vdesc v2 1) AND 1 = 1" "d_next (vdesc v2 1) = 2"
    "d_flags (vdesc v3 2) = 2"
    using c by (simp_all add: v1_def v2_def v3_def assms(4))
  have "free_chain (Suc (Suc (Suc n))) 0 s = Ok () (s\<lparr>vdiskst := v3, procs := ?P\<rparr>)"
    using f1 fl by (simp add: f0 f2)
  moreover have "dfree v3 i" if "i < NUM" for i
    using that c by (simp add: v1_def v2_def v3_def assms(4))
  moreover have "used_idx v3 = used_idx v" "used_id v3 = used_id v"
    by (simp_all add: v1_def v2_def v3_def assms(4))
  ultimately show ?thesis by blast
qed

lemma rt_Swtch:
  "m s = Swtch s1 k \<Longrightarrow> rt R m Q s \<longleftrightarrow> (\<exists>s'. R s1 s') \<and> (\<forall>s'. R s1 s' \<longrightarrow> rt_out R Q (k s'))"
  by (simp add: rt_def)

lemma disk_finish_rt:
  assumes l: "all_free l" "noff (curcpu l) = 0" "cpu_proc (curcpu l) = Some p" "lks s = lk_acq LVdisk l"
    and n: "0 < n" and p: "p < NPROC" "pstate (procs s p) = RUNNING" "pchan (procs s p) = None"
    and bd: "b_disk (bufs s b)" "unat (b_blockno (bufs s b)) < 2 ^ 31" "0 < wake_bound s"
    and c: "chain3 b wr (ucast (b_blockno (bufs s b) * 2)) (vdiskst s)" "unat (used_idx (vdiskst s)) = unat (used_id (vdiskst s)) mod NUM"
  shows "rt (disk_env p) (disk_finish n b 0)
    (\<lambda>_. fsx p s ((bufs s)(b := rw_buf wr (dblocks s) (bufs s b))) (rw_disk wr (bufs s b) (dblocks s))
       (rw_hist wr (bufs s b) (dhist s)) (logst s) (inodes s)) s"
proof -
  have sp: "sleep_pre p LVdisk l" using l by (simp add: sleep_pre_def all_free_def)
  let ?s = "s\<lparr>lks := lk_acq (LProc p) l,
      procs := (procs s)(p := (procs s p)\<lparr>pchan := Some (ChBuf b), pstate := SLEEPING\<rparr>)\<rparr>"
  have as: "asleep p b wr ?s" using p bd c by (simp add: asleep_def)
  obtain w where w: "n = Suc w" using n by (cases n) simp_all
  let ?Q = "\<lambda>_. fsx p s ((bufs s)(b := rw_buf wr (dblocks s) (bufs s b))) (rw_disk wr (bufs s b) (dblocks s))
       (rw_hist wr (bufs s b) (dhist s)) (logst s) (inodes s)"
  let ?K = "seq (sleep_while w (\<lambda>s. b_disk (bufs s b)) (ChBuf b) LVdisk) (
     seq (upd_disk (\<lambda>d. d\<lparr>info_b := (info_b d)(0 := None)\<rparr>)) (seq (free_chain (Suc NUM) 0) (release LVdisk)))"
  have after: "rt (disk_env p) ?K ?Q (s'\<lparr>procs := (procs s')(p := (procs s' p)\<lparr>pchan := None\<rparr>), lks := lk_acq LVdisk (set_intr (intr l) l')\<rparr>)"
    if co: "completed p b wr ?s s'" and l': "sleep_pre p LVdisk l'" "all_free l'" "lks s' = lk_acq (LProc p) l'" for s' l'
  proof -
    let ?l = "set_intr (intr l) l'" and ?f = "(procs s')(p := (procs s' p)\<lparr>pchan := None\<rparr>)"
    let ?v = "(vdiskst s')\<lparr>info_b := (info_b (vdiskst s'))(0 := None)\<rparr>"
    let ?t = "s'\<lparr>procs := ?f, lks := lk_acq LVdisk ?l, vdiskst := ?v\<rparr>"
    have lk: "lk_ok ?l" "\<And>L. \<not> locked (spinl ?l L)" "noff (curcpu ?l) = 0" "cpu_proc (curcpu ?l) = Some p"
      using l' by (auto simp: all_free_def sleep_pre_def lk_ok_def)
    note co' = co [unfolded completed_def]
    have nb: "\<not> b_disk (bufs s' b)" using co' by (simp add: rw_buf_def)
    obtain v' where fc: "free_chain (Suc NUM) 0 ?t = Ok () (?t\<lparr>vdiskst := v', procs := wake_all ChDiskFree ?f\<rparr>)"
      and v': "\<forall>i < NUM. dfree v' i" "used_idx v' = used_idx (vdiskst s')" "used_id v' = used_id (vdiskst s')"
    proof -
      have "procs_free ?t" "0 < noff (curcpu (lks ?t))" using lk acq_fields(2) [of LVdisk ?l] by (simp_all add: procs_free_def)
      moreover have "chain3 b wr (ucast (b_blockno (bufs s b) * 2)) (vdiskst s')" using co' by simp
      moreover have "vdiskst ?t = (vdiskst s')\<lparr>info_b := (info_b (vdiskst s'))(0 := None)\<rparr>" by simp
      ultimately obtain v' where "free_chain (Suc (Suc (Suc 6))) 0 ?t = Ok () (?t\<lparr>vdiskst := v', procs := wake_all ChDiskFree (procs ?t)\<rparr>)"
        "\<forall>i < NUM. dfree v' i" "used_idx v' = used_idx (vdiskst s')" "used_id v' = used_id (vdiskst s')"
        using free_chain3 by blast
      then show ?thesis by (intro that [of v']) simp_all
    qed
    have fp: "wake_all ChDiskFree ?f p = procs s p"
      using co' p by (simp add: wake_all_def wake1_def)
    have "rest p (s'\<lparr>procs := wake_all ChDiskFree ?f\<rparr>) = rest p (s\<lparr>procs := procs s\<rparr>)"
      by (rule rest_procs_cong [where g = "procs ?s" and h = "procs ?s"]) (use co' fp in simp_all)
    then have r: "rest p (s'\<lparr>procs := wake_all ChDiskFree ?f\<rparr>) = rest p s" by simp
    from rest_eqD(4) [OF this] have wb: "wake_bound s' = wake_bound s" by simp
    have q: "quiet p (s'\<lparr>vdiskst := v', procs := wake_all ChDiskFree ?f, lks := lk_touch ?l\<rparr>)"
      using lk p v' co' wb bd(3) fp by (simp add: quiet_def idle_thread_def disk_quiet_def)
    then have "?Q () (s'\<lparr>vdiskst := v', procs := wake_all ChDiskFree ?f, lks := lk_touch ?l\<rparr>)"
    proof -
      have "rest p (s'\<lparr>vdiskst := v', procs := wake_all ChDiskFree ?f, lks := lk_touch ?l\<rparr>) =
          rest p (s'\<lparr>procs := wake_all ChDiskFree ?f\<rparr>)"
        by (simp add: rest_def)
      with q r co' show ?thesis by (simp add: fsx_def)
    qed
    moreover have "?K (s'\<lparr>procs := ?f, lks := lk_acq LVdisk ?l\<rparr>) =
        Ok () (s'\<lparr>vdiskst := v', procs := wake_all ChDiskFree ?f, lks := lk_touch ?l\<rparr>)"
    proof -
      have "release LVdisk (?t\<lparr>vdiskst := v', procs := wake_all ChDiskFree ?f\<rparr>) =
          Ok () (s'\<lparr>vdiskst := v', procs := wake_all ChDiskFree ?f, lks := lk_touch ?l\<rparr>)"
        using lk by (subst release_Ok [where l = ?l]) simp_all
      then show ?thesis
        using nb fc by (simp add: sleep_while_done upd_disk_def)
    qed
    ultimately show ?thesis by (subst rt_Ok) assumption+
  qed
  let ?k = "\<lambda>s'. then_do (Ok () (s'\<lparr>lks := upd_cpu (tp (lks s')) (\<lambda>k. k\<lparr>intena := intr l\<rparr>) (lks s')\<rparr>))
      (\<lambda>_. seq (upd_proc p (\<lambda>q. q\<lparr>pchan := None\<rparr>)) (seq (release (LProc p)) (acquire LVdisk)))"
  have sl: "disk_finish n b 0 s = Swtch ?s (\<lambda>s'. then_do (?k s') (\<lambda>_. ?K))"
    using sleep_Swtch [OF sp l(4), of "ChBuf b"] bd(1) by (simp add: disk_finish_def w then_do_assoc seq_def bind_def)
  show ?thesis
    unfolding rt_Swtch [where m = "disk_finish n b 0" and s = s, OF sl]
  proof (intro conjI allI impI)
    show "\<exists>s'. disk_env p ?s s'" by (rule disk_env_completes(2) [OF as sp l(1)])
    fix s' assume "disk_env p ?s s'"
    then have co: "completed p b wr ?s s'" by (rule disk_env_completes(1) [OF as])
    then obtain l' where l': "sleep_pre p LVdisk l'" "all_free l'" "lks s' = lk_acq (LProc p) l'"
      by (auto simp: completed_def)
    have eq: "?k s' = Ok () (s'\<lparr>procs := (procs s')(p := (procs s' p)\<lparr>pchan := None\<rparr>),
                lks := lk_acq LVdisk (set_intr (intr l) l')\<rparr>)"
      by (rule sleep_resume) (use l' in \<open>simp_all add: sleep_pre_def all_free_def\<close>)
    show "rt_out (disk_env p) ?Q (then_do (?k s') (\<lambda>_. ?K))"
      unfolding eq unfolding then_do.simps(1) using after [OF co l'] unfolding rt_def .
  qed
qed

lemma virtio_disk_rw_rt:
  assumes "quiet p s" "unat (b_blockno (bufs s b)) < 2 ^ 31"
  shows "rt (disk_env p) (virtio_disk_rw b wr)
    (\<lambda>_. fsx p s ((bufs s)(b := rw_buf wr (dblocks s) (bufs s b))) (rw_disk wr (bufs s b) (dblocks s))
       (rw_hist wr (bufs s b) (dhist s)) (logst s) (inodes s)) s"
proof -
  have q: "all_free (lks s)" "noff (curcpu (lks s)) = 0" "cpu_proc (curcpu (lks s)) = Some p" "p < NPROC"
    "pstate (procs s p) = RUNNING" "pchan (procs s p) = None" "0 < wake_bound s" "\<And>i. i < NUM \<Longrightarrow> dfree (vdiskst s) i"
    "unat (used_idx (vdiskst s)) = unat (used_id (vdiskst s)) mod NUM"
    using assms(1) by (simp_all add: quiet_def idle_thread_def all_free_def disk_quiet_def)
  obtain s' where s': "virtio_disk_rw b wr s = disk_finish (wake_bound s) b 0 s'" and r: "requested b wr s s'"
    using virtio_disk_rw_request [OF q(1,8)] by blast
  note r' = r [unfolded requested_def]
  have b: "rw_buf wr D (x\<lparr>b_disk := True\<rparr>) = rw_buf wr D x" "rw_disk wr (x\<lparr>b_disk := True\<rparr>) = rw_disk wr x"
    "rw_hist wr (x\<lparr>b_disk := True\<rparr>) = rw_hist wr x" for D x
    by (simp_all add: rw_buf_def rw_disk_def rw_hist_def fun_eq_iff)
  have "rt (disk_env p) (disk_finish (wake_bound s) b 0)
    (\<lambda>_. fsx p s' ((bufs s')(b := rw_buf wr (dblocks s') (bufs s' b))) (rw_disk wr (bufs s' b) (dblocks s'))
       (rw_hist wr (bufs s' b) (dhist s')) (logst s') (inodes s')) s'"
    by (rule disk_finish_rt [OF q(1-3)]) (use q r' assms(2) rest_eqD(4) [of p s' s] in simp_all)
  then have "rt (disk_env p) (disk_finish (wake_bound s) b 0)
    (\<lambda>_. fsx p s ((bufs s)(b := rw_buf wr (dblocks s) (bufs s b))) (rw_disk wr (bufs s b) (dblocks s))
       (rw_hist wr (bufs s b) (dhist s)) (logst s) (inodes s)) s'"
    by (rule rt_mono) (use r' in \<open>simp add: fsx_def b\<close>)
  then show ?thesis by (simp add: rt_def s')
qed

section \<open>The driver and the device together\<close>

text \<open>C23: A disk request completes. From a state in which the thread holds no lock and no
  request is outstanding, \<open>virtio_disk_rw\<close> posts a chain of three descriptors and sleeps; whenever
  the device serves the chain that it finds in the rings, \<open>virtio_disk_intr\<close> runs and the
  scheduler resumes the process, the call returns without a panic. A write has put the data of
  the buffer into its block of the disk and a read has put the block into the buffer; no other
  buffer, block, file-system variable or process field changes, all descriptors are free again
  and the request lock is released.\<close>

theorem virtio_disk_rw_correct:
  assumes "quiet p s" "unat (b_blockno (bufs s b)) < 2 ^ 31"
  shows "rt (disk_env p) (virtio_disk_rw b wr) (\<lambda>_ s'. quiet p s' \<and> rest p s' = rest p s
     \<and> logst s' = logst s \<and> inodes s' = inodes s \<and> (\<forall>c. c \<noteq> b \<longrightarrow> bufs s' c = bufs s c)
     \<and> bufs s' b = (bufs s b)\<lparr>b_data := b_data (bufs s' b), b_disk := False\<rparr>
     \<and> (if wr
        then dblocks s' = (dblocks s)(b_blockno (bufs s b) := b_data (bufs s b)) \<and> b_data (bufs s' b) = b_data (bufs s b)
        else dblocks s' = dblocks s \<and> b_data (bufs s' b) = dblocks s (b_blockno (bufs s b)))) s"
  by (rule rt_mono [OF virtio_disk_rw_rt [OF assms]]) (auto simp: fsx_def rw_buf_def rw_disk_def)

definition disk_ready :: kstate where
  "disk_ready = zero_state\<lparr>lks := run0_lks, vdiskst := (vdiskst zero_state)\<lparr>dfree := \<lambda>_. True\<rparr>,
     procs := \<lambda>_. zero_proc\<lparr>pstate := RUNNING\<rparr>, dblocks := \<lambda>n i. ucast n, wake_bound := 1\<rparr>"

lemma quiet_disk_ready: "quiet 0 disk_ready"
  by (simp add: quiet_def idle_thread_def disk_quiet_def disk_ready_def)
    (simp add: run0_lks_def lk_ok_def upd_cpu_def intr_def zero_lks_def zero_state_def zero_proc_def)

theorem virtio_disk_rw_correct_witness:
  "rt (disk_env 0) (virtio_disk_rw 3 False) (\<lambda>_ s'. b_data (bufs s' 3) 17 = 9)
     (disk_ready\<lparr>bufs := \<lambda>_. zero_buf\<lparr>b_blockno := 9\<rparr>\<rparr>)"
proof -
  let ?s = "disk_ready\<lparr>bufs := \<lambda>_. zero_buf\<lparr>b_blockno := 9\<rparr>\<rparr>"
  have "quiet 0 ?s" using quiet_disk_ready by (simp add: quiet_def idle_thread_def)
  from virtio_disk_rw_correct [OF this, of 3 False] show ?thesis
    by (simp, elim rt_mono) (simp add: disk_ready_def)
qed

text \<open>C24: \<open>free_chain\<close> ends. Whatever the descriptor table holds, following \<open>next\<close> from any index
  returns or panics within \<open>NUM + 1\<close> rounds, when it is called with the disk lock held and no process lock:
  each round frees a descriptor that was in use, and a chain that comes back to itself or leaves the table is caught
  by the checks of \<open>free_desc\<close>, at the latest in the round after all \<open>NUM\<close> descriptors are free.\<close>

theorem free_chain_terminates:
  assumes "procs_free s" "0 < noff (curcpu (lks s))"
  shows "(\<exists>s'. free_chain (Suc NUM) i s = Ok () s') \<or> (\<exists>e s'. free_chain (Suc NUM) i s = Panic e s')"
proof (rule free_chain_stops [OF assms])
  have "in_use (vdiskst s) \<le> card {..<NUM}" unfolding in_use_def by (rule card_mono) auto
  then show "in_use (vdiskst s) < Suc NUM" by simp
qed

theorem free_chain_terminates_witness:
  "\<exists>e s'. free_chain (Suc NUM) 4 (zero_state\<lparr>lks := lk_acq LVdisk zero_lks,
      vdiskst := (vdiskst zero_state)\<lparr>vdesc := \<lambda>_. \<lparr>d_addr = ANull, d_len = 0, d_flags = 1, d_next = 4\<rparr>\<rparr>\<rparr>) = Panic e s'"
proof -
  let ?s = "zero_state\<lparr>lks := lk_acq LVdisk zero_lks,
      vdiskst := (vdiskst zero_state)\<lparr>vdesc := \<lambda>_. \<lparr>d_addr = ANull, d_len = 0, d_flags = 1, d_next = 4\<rparr>\<rparr>\<rparr>"
  have pf: "procs_free ?s" by (simp add: procs_free_def)
  have nf: "0 < noff (curcpu (lks ?s))"
    using acq_fields(2) [of LVdisk zero_lks] by (simp add: zero_lks_def)
  have "\<nexists>s'. free_chain (Suc NUM) 4 ?s = Ok () s'"
  proof -
    define s1 where "s1 = ?s\<lparr>vdiskst := (vdiskst ?s)\<lparr>
        vdesc := (vdesc (vdiskst ?s))(4 := (vdesc (vdiskst ?s) 4)\<lparr>d_addr := ANull\<rparr>),
        dfree := (dfree (vdiskst ?s))(4 := True)\<rparr>, procs := wake_all ChDiskFree (procs ?s)\<rparr>"
    have f: "free_desc 4 ?s = Ok () s1"
      unfolding s1_def by (rule free_desc_Ok [OF pf nf]) (simp_all add: zero_state_def)
    have "free_desc 4 s1 = Panic ''virtio_disk_intr 2'' s1" "vdesc (vdiskst s1) 4 = \<lparr>d_addr = ANull, d_len = 0, d_flags = 1, d_next = 4\<rparr>"
      by (simp_all add: free_desc_def s1_def)
    then have "free_chain (Suc (Suc 7)) 4 ?s = Panic ''virtio_disk_intr 2'' s1"
      by (simp only: free_chain.simps seq_apply bind_apply f then_do.simps gets_apply) simp
    then show ?thesis by simp
  qed
  with free_chain_terminates [OF pf nf, of 4] show ?thesis by blast
qed

end
