(* ===== verification/Bio.thy ===== *)
theory Bio
  imports Sleeplock Virtio
begin

text \<open>
  \<open>kernel/bio.c\<close>: the buffer cache.  \<open>bufs\<close> holds \<open>bcache.buf[0..NBUF-1]\<close> and, at index \<open>NBUF\<close>,
  \<open>bcache.head\<close>; \<open>b_prev\<close> and \<open>b_next\<close> are the links of the list kept in order of use.
\<close>

section \<open>Definitions\<close>

abbreviation (input) bhead :: nat where "bhead \<equiv> NBUF"

definition set_next :: "nat \<Rightarrow> nat \<Rightarrow> unit k" where
  "set_next b c = upd_buf b (\<lambda>x. x\<lparr>b_next := c\<rparr>)"

definition set_prev :: "nat \<Rightarrow> nat \<Rightarrow> unit k" where
  "set_prev b c = upd_buf b (\<lambda>x. x\<lparr>b_prev := c\<rparr>)"

text \<open>The last two assignments with which \<open>binit\<close> and \<open>brelse\<close> put \<open>b\<close> behind the head.\<close>

definition link_front :: "nat \<Rightarrow> unit k" where
  "link_front b =
     bind (gets (\<lambda>s. b_next (bufs s bhead))) (\<lambda>f.
     seq (set_prev f b)
     (set_next bhead b))"

definition binit :: "unit k" where
  "binit =
     seq (initlock LBcache ''bcache'') (
     seq (set_prev bhead bhead) (
     seq (set_next bhead bhead)
     (forM [0..<NBUF] (\<lambda>b.
        bind (gets (\<lambda>s. b_next (bufs s bhead))) (\<lambda>f.
        seq (set_next b f) (
        seq (set_prev b bhead) (
        seq (initsleeplock (SLbuf b) ''buffer'')
        (link_front b))))))))"

text \<open>The two searches of \<open>bget\<close>, from \<open>b\<close> along \<open>next\<close> and along \<open>prev\<close>.  The list has \<open>NBUF\<close>
  buffers; a list that does not come back to the head is followed for ever.\<close>

fun bget_cached :: "nat \<Rightarrow> u32 \<Rightarrow> u32 \<Rightarrow> nat \<Rightarrow> nat option k" where
  "bget_cached 0 dev bn b = spin"
| "bget_cached (Suc n) dev bn b =
     (if b = bhead then return None
      else bind (gets (\<lambda>s. bufs s b)) (\<lambda>x.
        if b_dev x = dev \<and> b_blockno x = bn then return (Some b)
        else bget_cached n dev bn (b_next x)))"

fun bget_free :: "nat \<Rightarrow> nat \<Rightarrow> nat option k" where
  "bget_free 0 b = spin"
| "bget_free (Suc n) b =
     (if b = bhead then return None
      else bind (gets (\<lambda>s. bufs s b)) (\<lambda>x.
        if b_refcnt x = 0 then return (Some b) else bget_free n (b_prev x)))"

definition bget :: "u32 \<Rightarrow> u32 \<Rightarrow> nat k" where
  "bget dev bn =
     seq (acquire LBcache) (
     bind (gets (\<lambda>s. b_next (bufs s bhead))) (\<lambda>f.
     bind (bget_cached (Suc NBUF) dev bn f) (\<lambda>r. case r of
       Some b \<Rightarrow>
         seq (upd_buf b (\<lambda>x. x\<lparr>b_refcnt := b_refcnt x + 1\<rparr>)) (
         seq (release LBcache) (
         seq (acquiresleep (SLbuf b))
         (return b)))
     | None \<Rightarrow>
         bind (gets (\<lambda>s. b_prev (bufs s bhead))) (\<lambda>l.
         bind (bget_free (Suc NBUF) l) (\<lambda>r. case r of
           Some b \<Rightarrow>
             seq (upd_buf b (\<lambda>x. x\<lparr>b_dev := dev, b_blockno := bn, b_valid := False, b_refcnt := 1\<rparr>)) (
             seq (release LBcache) (
             seq (acquiresleep (SLbuf b))
             (return b)))
         | None \<Rightarrow> panic ''bget: no buffers'')))))"

definition bread :: "u32 \<Rightarrow> u32 \<Rightarrow> nat k" where
  "bread dev bn =
     bind (bget dev bn) (\<lambda>b.
     bind (gets (\<lambda>s. b_valid (bufs s b))) (\<lambda>v.
     seq (whenM (\<not> v) (seq (virtio_disk_rw b False) (upd_buf b (\<lambda>x. x\<lparr>b_valid := True\<rparr>))))
     (return b)))"

definition bwrite :: "nat \<Rightarrow> unit k" where
  "bwrite b =
     bind (holdingsleep (SLbuf b)) (\<lambda>h.
     seq (panic_if (\<not> h) ''bwrite'')
     (virtio_disk_rw b True))"

definition brelse :: "nat \<Rightarrow> unit k" where
  "brelse b =
     bind (holdingsleep (SLbuf b)) (\<lambda>h.
     seq (panic_if (\<not> h) ''brelse'') (
     seq (releasesleep (SLbuf b)) (
     seq (acquire LBcache) (
     seq (upd_buf b (\<lambda>x. x\<lparr>b_refcnt := b_refcnt x - 1\<rparr>)) (
     bind (gets (\<lambda>s. bufs s b)) (\<lambda>x.
     seq (whenM (b_refcnt x = 0) (
       seq (set_prev (b_next x) (b_prev x)) (
       bind (gets (\<lambda>s. bufs s b)) (\<lambda>y.
       seq (set_next (b_prev y) (b_next y)) (
       bind (gets (\<lambda>s. b_next (bufs s bhead))) (\<lambda>f.
       seq (set_next b f) (
       seq (set_prev b bhead)
       (link_front b))))))))
     (release LBcache)))))))"

definition bpin :: "nat \<Rightarrow> unit k" where
  "bpin b =
     seq (acquire LBcache) (
     seq (upd_buf b (\<lambda>x. x\<lparr>b_refcnt := b_refcnt x + 1\<rparr>))
     (release LBcache))"

definition bunpin :: "nat \<Rightarrow> unit k" where
  "bunpin b =
     seq (acquire LBcache) (
     seq (upd_buf b (\<lambda>x. x\<lparr>b_refcnt := b_refcnt x - 1\<rparr>))
     (release LBcache))"

section \<open>Locks of buffers\<close>

lemma quietD:
  assumes "quiet p s"
  shows "lk_ok (lks s)" "\<not> locked (spinl (lks s) L)" "cpu_proc (curcpu (lks s)) = Some p" "noff (curcpu (lks s)) = 0"
    "all_free (lks s)" "procs_free s" "p < NPROC"
  using assms by (simp_all add: quiet_def idle_thread_def all_free_def procs_free_def)

text \<open>The state in which a quiet thread is left by code that touches its lock state only.\<close>

lemma quiet_upd:
  assumes "quiet p s"
  shows "quiet p (s\<lparr>lks := lk_touch (lks s)\<rparr>)" "quiet p (s\<lparr>bufs := B\<rparr>)" "quiet p (s\<lparr>logst := L\<rparr>)" "quiet p (s\<lparr>inodes := I\<rparr>)"
    "quiet p (s\<lparr>lks := lk_touch (lks s), bufs := B\<rparr>)" "quiet p (s\<lparr>bufs := B, lks := lk_touch (lks s)\<rparr>)"
    "quiet p (s\<lparr>inodes := I, lks := lk_touch (lks s)\<rparr>)" "quiet p (s\<lparr>logst := L, lks := lk_touch (lks s)\<rparr>)"
  using assms by (simp_all add: quiet_def idle_thread_def)

lemma wake_all_self: "pstate (f p) = RUNNING \<Longrightarrow> wake_all ch f p = f p"
  by (simp add: wake_all_def wake1_def)

definition set_sl :: "slid \<Rightarrow> bool \<Rightarrow> int \<Rightarrow> kstate \<Rightarrow> kstate" where
  "set_sl L b i s = put_sl L ((get_sl L s)\<lparr>sl_locked := b, sl_pid := i\<rparr>) s"

lemma put_sl_fields [simp]:
  "lks (put_sl L l s) = lks s" "procs (put_sl L l s) = procs s" "wake_bound (put_sl L l s) = wake_bound s"
  "vdiskst (put_sl L l s) = vdiskst s" "get_sl L (put_sl L l s) = l" "dblocks (put_sl L l s) = dblocks s"
  "dhist (put_sl L l s) = dhist s" "logst (put_sl L l s) = logst s" "rest p (put_sl L l s) = rest p s"
  "put_sl L l' (put_sl L l s) = put_sl L l' s"
  by (cases L; simp)+

lemma put_sl_lks [simp]: "put_sl L l (s\<lparr>lks := k\<rparr>) = (put_sl L l s)\<lparr>lks := k\<rparr>" "get_sl L (s\<lparr>lks := k\<rparr>) = get_sl L s"
  by (cases L; simp)+

lemma acquiresleep_Ok:
  assumes "quiet p s" "\<not> sl_locked (get_sl L s)"
  shows "acquiresleep L s = Ok () ((set_sl L True (pid (procs s p)) s)\<lparr>lks := lk_touch (lks s)\<rparr>)"
proof -
  note q = quietD [OF assms(1)]
  have a: "acquire (LSleep L) s = Ok () (s\<lparr>lks := lk_acq (LSleep L) (lks s)\<rparr>)"
    using q by (simp add: acquire_can)
  show ?thesis
    using assms(2) q
    by (simp add: acquiresleep_def a sleep_while_done upd_sl_def curproc_Ok set_sl_def
        release_Ok [where l = "lks s"])
qed

lemma holdingsleep_Ok:
  assumes "quiet p s" "sl_locked (get_sl L s)"
  shows "holdingsleep L s = Ok (sl_pid (get_sl L s) = pid (procs s p)) (s\<lparr>lks := lk_touch (lks s)\<rparr>)"
proof -
  note q = quietD [OF assms(1)]
  have a: "acquire (LSleep L) s = Ok () (s\<lparr>lks := lk_acq (LSleep L) (lks s)\<rparr>)"
    using q by (simp add: acquire_can)
  show ?thesis
    using assms(2) q by (simp add: holdingsleep_def a curproc_Ok release_Ok [where l = "lks s"])
qed

lemma put_sl_procs [simp]: "put_sl L l (s\<lparr>procs := f\<rparr>) = (put_sl L l s)\<lparr>procs := f\<rparr>"
  by (cases L; simp)

lemma releasesleep_Ok:
  assumes "quiet p s"
  shows "releasesleep L s = Ok () ((set_sl L False 0 s)\<lparr>procs := wake_all (ChSleep L) (procs s), lks := lk_touch (lks s)\<rparr>)"
proof -
  note q = quietD [OF assms(1)]
  let ?s = "s\<lparr>lks := lk_acq (LSleep L) (lks s)\<rparr>"
  have a: "acquire (LSleep L) s = Ok () ?s"
    using q by (simp add: acquire_can)
  have "procs_free (set_sl L False 0 ?s)" using q by (simp add: procs_free_def set_sl_def)
  note w = wakeup_Ok [OF this, of "ChSleep L"]
  show ?thesis
    using q w by (simp add: releasesleep_def a upd_sl_def set_sl_def release_Ok [where l = "lks s"])
qed

section \<open>The list of buffers\<close>

fun linked :: "(nat \<Rightarrow> buf) \<Rightarrow> nat list \<Rightarrow> bool" where
  "linked B (x # y # zs) \<longleftrightarrow> b_next (B x) = y \<and> b_prev (B y) = x \<and> linked B (y # zs)"
| "linked B [x] \<longleftrightarrow> True"
| "linked B [] \<longleftrightarrow> True"

definition blist :: "(nat \<Rightarrow> buf) \<Rightarrow> nat list \<Rightarrow> bool" where
  "blist B xs \<longleftrightarrow> distinct xs \<and> set xs = {..<NBUF} \<and> linked B (bhead # xs @ [bhead])"

lemma linked_append: "linked B (xs @ y # zs) \<longleftrightarrow> linked B (xs @ [y]) \<and> linked B (y # zs)"
  by (induction B xs rule: linked.induct) auto

lemma linked_cong:
  assumes "\<And>x. x \<in> set (butlast xs) \<Longrightarrow> b_next (B' x) = b_next (B x)" "\<And>x. x \<in> set (tl xs) \<Longrightarrow> b_prev (B' x) = b_prev (B x)"
  shows "linked B' xs = linked B xs"
  using assms by (induction B xs rule: linked.induct) auto

lemma bget_cached_Ok:
  assumes "linked (bufs s) (ys @ [bhead])" "bhead \<notin> set ys" "length ys < n"
  shows "bget_cached n dev bn (hd (ys @ [bhead])) s =
    Ok (find (\<lambda>i. b_dev (bufs s i) = dev \<and> b_blockno (bufs s i) = bn) ys) s"
  using assms
proof (induction ys arbitrary: n)
  case Nil
  then show ?case by (cases n) simp_all
next
  case (Cons y ys)
  then obtain m where n: "n = Suc m" by (cases n) simp_all
  have "b_next (bufs s y) = hd (ys @ [bhead])" "linked (bufs s) (ys @ [bhead])"
    using Cons.prems(1) by (cases ys; simp)+
  with Cons show ?case by (simp add: n)
qed

lemma bget_free_Ok:
  assumes "linked (bufs s) (bhead # ys)" "bhead \<notin> set ys" "length ys < n"
  shows "bget_free n (last (bhead # ys)) s = Ok (find (\<lambda>i. b_refcnt (bufs s i) = 0) (rev ys)) s"
  using assms
proof (induction ys arbitrary: n rule: rev_induct)
  case Nil
  then show ?case by (cases n) simp_all
next
  case (snoc y ys)
  then obtain m where n: "n = Suc m" by (cases n) simp_all
  have "linked (bufs s) (bhead # ys) \<and> b_prev (bufs s y) = last (bhead # ys)"
  proof (cases ys rule: rev_cases)
    case Nil
    then show ?thesis using snoc.prems(1) by simp
  next
    case (snoc zs z)
    then show ?thesis
      using snoc.prems(1) linked_append [of "bufs s" "bhead # zs" z "[y]"] by (simp add: snoc)
  qed
  with snoc show ?case by (simp add: n)
qed

section \<open>bget\<close>

definition grab :: "u32 \<Rightarrow> u32 \<Rightarrow> int \<Rightarrow> buf \<Rightarrow> buf" where
  "grab dev bn i x =
     (let y = (if b_dev x = dev \<and> b_blockno x = bn then x\<lparr>b_refcnt := b_refcnt x + 1\<rparr>
               else x\<lparr>b_dev := dev, b_blockno := bn, b_valid := False, b_refcnt := 1\<rparr>)
      in y\<lparr>b_lock := (b_lock y)\<lparr>sl_locked := True, sl_pid := i\<rparr>\<rparr>)"

lemma grab_links [simp]: "b_next (grab dev bn i x) = b_next x" "b_prev (grab dev bn i x) = b_prev x"
  by (simp_all add: grab_def Let_def)

lemma blist_next_prev:
  assumes "blist B xs"
  shows "b_next (B bhead) = hd (xs @ [bhead])" "b_prev (B bhead) = last (bhead # xs)"
    "linked B (xs @ [bhead])" "linked B (bhead # xs)" "bhead \<notin> set xs" "length xs = NBUF"
proof -
  have l: "linked B (bhead # xs @ [bhead])" "distinct xs" "set xs = {..<NBUF}" using assms by (simp_all add: blist_def)
  show "b_next (B bhead) = hd (xs @ [bhead])" "linked B (xs @ [bhead])" using l(1) by (cases xs; simp)+
  show "linked B (bhead # xs) " "b_prev (B bhead) = last (bhead # xs)"
  proof -
    have "linked B (bhead # xs) \<and> b_prev (B bhead) = last (bhead # xs)"
    proof (cases xs rule: rev_cases)
      case Nil
      then show ?thesis using l(1) by simp
    next
      case (snoc zs z)
      then show ?thesis
        using l(1) linked_append [of B "bhead # zs" z "[bhead]"] by simp
    qed
    then show "linked B (bhead # xs) " "b_prev (B bhead) = last (bhead # xs)" by simp_all
  qed
  show "bhead \<notin> set xs" using l(3) by simp
  show "length xs = NBUF" using l(2,3) distinct_card [of xs] by simp
qed

lemma blist_links:
  assumes "\<And>i. b_next (B' i) = b_next (B i)" "\<And>i. b_prev (B' i) = b_prev (B i)"
  shows "blist B' xs = blist B xs"
  unfolding blist_def using linked_cong [of "bhead # xs @ [bhead]" B' B] assms by simp

text \<open>The choice of \<open>bget\<close>: the buffer that caches the block, or the least recently used buffer
  that nobody refers to.\<close>

definition pick_buf :: "(nat \<Rightarrow> buf) \<Rightarrow> nat list \<Rightarrow> u32 \<Rightarrow> u32 \<Rightarrow> nat option" where
  "pick_buf B xs dev bn =
     (case find (\<lambda>i. b_dev (B i) = dev \<and> b_blockno (B i) = bn) xs of
        Some i \<Rightarrow> Some i
      | None \<Rightarrow> find (\<lambda>i. b_refcnt (B i) = 0) (rev xs))"

lemma find_SomeD: "find P xs = Some x \<Longrightarrow> x \<in> set xs \<and> P x"
  by (induction xs) (auto split: if_splits)

lemma bget_Ok:
  assumes "quiet p s" "blist (bufs s) xs" "pick_buf (bufs s) xs dev bn = Some b" "\<not> sl_locked (b_lock (bufs s b))"
  shows "bget dev bn s = Ok b (s\<lparr>bufs := (bufs s)(b := grab dev bn (pid (procs s p)) (bufs s b)), lks := lk_touch (lks s)\<rparr>)"
proof -
  note q = quietD [OF assms(1)]
  let ?B = "bufs s"
  note bl = blist_next_prev [OF assms(2)]
  let ?s = "s\<lparr>lks := lk_acq LBcache (lks s)\<rparr>"
  have acq: "acquire LBcache s = Ok () ?s" using q by (simp add: acquire_can)
  have c: "bget_cached (Suc NBUF) dev bn (b_next (?B bhead)) ?s =
      Ok (find (\<lambda>i. b_dev (?B i) = dev \<and> b_blockno (?B i) = bn) xs) ?s"
    using bget_cached_Ok [of ?s xs "Suc NBUF" dev bn] bl by simp
  have f: "bget_free (Suc NBUF) (b_prev (?B bhead)) ?s = Ok (find (\<lambda>i. b_refcnt (?B i) = 0) (rev xs)) ?s"
    using bget_free_Ok [of ?s xs "Suc NBUF"] bl by simp
  have asl: "acquiresleep (SLbuf b) (s\<lparr>bufs := (bufs s)(b := x), lks := lk_touch (lks s)\<rparr>) =
     Ok () (s\<lparr>bufs := (bufs s)(b := x\<lparr>b_lock := (b_lock x)\<lparr>sl_locked := True, sl_pid := pid (procs s p)\<rparr>\<rparr>), lks := lk_touch (lks s)\<rparr>)"
    if "\<not> sl_locked (b_lock x)" for x
    using acquiresleep_Ok [of p "s\<lparr>bufs := (bufs s)(b := x), lks := lk_touch (lks s)\<rparr>" "SLbuf b"] that quiet_upd(6) [OF assms(1)]
    by (simp add: set_sl_def)
  show ?thesis
  proof (cases "find (\<lambda>i. b_dev (?B i) = dev \<and> b_blockno (?B i) = bn) xs")
    case (Some i)
    then have "i = b" using assms(3) by (simp add: pick_buf_def)
    moreover have "b_dev (?B i) = dev" "b_blockno (?B i) = bn" using find_SomeD [OF Some] by simp_all
    ultimately have "i = b" "b_dev (?B b) = dev" "b_blockno (?B b) = bn" by simp_all
    then show ?thesis
      using q c Some assms(4) acq
      by (simp add: bget_def upd_buf_def release_Ok [where l = "lks s"] asl grab_def)
  next
    case None
    then have fr: "find (\<lambda>i. b_refcnt (?B i) = 0) (rev xs) = Some b" using assms(3) by (simp add: pick_buf_def)
    then have "b \<in> set xs" using find_SomeD by fastforce
    then have "\<not> (b_dev (?B b) = dev \<and> b_blockno (?B b) = bn)" using None by (auto simp: find_None_iff)
    then have g: "grab dev bn i (?B b) = (?B b)\<lparr>b_dev := dev, b_blockno := bn, b_valid := False, b_refcnt := 1,
        b_lock := (b_lock (?B b))\<lparr>sl_locked := True, sl_pid := i\<rparr>\<rparr>" for i
      by (auto simp: grab_def)
    show ?thesis
      using q c None f fr assms(4) acq
      by (simp add: bget_def upd_buf_def release_Ok [where l = "lks s"] asl g)
  qed
qed

section \<open>brelse\<close>

definition nx :: "nat \<Rightarrow> nat \<Rightarrow> (nat \<Rightarrow> buf) \<Rightarrow> nat \<Rightarrow> buf" where
  "nx b c B = B(b := (B b)\<lparr>b_next := c\<rparr>)"

definition pv :: "nat \<Rightarrow> nat \<Rightarrow> (nat \<Rightarrow> buf) \<Rightarrow> nat \<Rightarrow> buf" where
  "pv b c B = B(b := (B b)\<lparr>b_prev := c\<rparr>)"

lemma link_upd [simp]:
  "b_next (nx b c B i) = (if i = b then c else b_next (B i))" "b_prev (nx b c B i) = b_prev (B i)"
  "b_prev (pv b c B i) = (if i = b then c else b_prev (B i))" "b_next (pv b c B i) = b_next (B i)"
  by (simp_all add: nx_def pv_def)

definition to_front :: "nat \<Rightarrow> (nat \<Rightarrow> buf) \<Rightarrow> nat \<Rightarrow> buf" where
  "to_front b B =
     (let B1 = pv (b_next (B b)) (b_prev (B b)) B;
          B2 = nx (b_prev (B1 b)) (b_next (B1 b)) B1;
          B3 = nx b (b_next (B2 bhead)) B2;
          B4 = pv b bhead B3;
          B5 = pv (b_next (B4 bhead)) b B4
      in nx bhead b B5)"

text \<open>The buffers without their links.\<close>

definition nolinks :: "(nat \<Rightarrow> buf) \<Rightarrow> nat \<Rightarrow> buf" where
  "nolinks B i = (B i)\<lparr>b_prev := 0, b_next := 0\<rparr>"

lemma nolinks_upd [simp]: "nolinks (nx b c B) = nolinks B" "nolinks (pv b c B) = nolinks B" "nolinks (to_front b B) = nolinks B"
proof -
  show *: "nolinks (nx b c B) = nolinks B" "nolinks (pv b c B) = nolinks B" for b c B
    by (rule ext, simp add: nolinks_def nx_def pv_def)+
  show "nolinks (to_front b B) = nolinks B" by (simp add: to_front_def Let_def *)
qed

lemma nolinks_eqD:
  assumes "nolinks B' = nolinks B"
  shows "b_dev (B' i) = b_dev (B i)" "b_blockno (B' i) = b_blockno (B i)" "b_valid (B' i) = b_valid (B i)"
    "b_lock (B' i) = b_lock (B i)" "b_refcnt (B' i) = b_refcnt (B i)" "b_data (B' i) = b_data (B i)" "b_disk (B' i) = b_disk (B i)"
proof -
  have "b_dev (nolinks B' i) = b_dev (nolinks B i)" "b_blockno (nolinks B' i) = b_blockno (nolinks B i)"
    "b_valid (nolinks B' i) = b_valid (nolinks B i)" "b_lock (nolinks B' i) = b_lock (nolinks B i)"
    "b_refcnt (nolinks B' i) = b_refcnt (nolinks B i)" "b_data (nolinks B' i) = b_data (nolinks B i)"
    "b_disk (nolinks B' i) = b_disk (nolinks B i)"
    using assms by simp_all
  then show "b_dev (B' i) = b_dev (B i)" "b_blockno (B' i) = b_blockno (B i)" "b_valid (B' i) = b_valid (B i)"
    "b_lock (B' i) = b_lock (B i)" "b_refcnt (B' i) = b_refcnt (B i)" "b_data (B' i) = b_data (B i)" "b_disk (B' i) = b_disk (B i)"
    by (simp_all add: nolinks_def)
qed

lemma linked_join:
  assumes "xs \<noteq> []" "ys \<noteq> []"
  shows "linked B (xs @ ys) \<longleftrightarrow> linked B xs \<and> linked B ys \<and> b_next (B (last xs)) = hd ys \<and> b_prev (B (hd ys)) = last xs"
  using assms
proof (induction xs)
  case (Cons x xs)
  then show ?case by (cases xs; cases ys; auto)
qed simp

lemma unlink:
  assumes l: "linked B (bhead # us @ b # vs @ [bhead])" and d: "distinct (bhead # us @ b # vs)"
  defines "B2 \<equiv> nx (b_prev (B b)) (b_next (B b)) (pv (b_next (B b)) (b_prev (B b)) B)"
  shows "linked B2 (bhead # us @ vs @ [bhead])" "b_next (B b) \<noteq> b"
proof -
  have "linked B ((bhead # us) @ (b # vs @ [bhead]))" using l by simp
  then have u: "linked B (bhead # us)" "linked B (b # vs @ [bhead])" "b_prev (B b) = last (bhead # us)"
    using linked_join [of "bhead # us" "b # vs @ [bhead]" B] by simp_all
  then have v: "linked B (vs @ [bhead])" "b_next (B b) = hd (vs @ [bhead])"
    using linked_join [of "[b]" "vs @ [bhead]" B] by simp_all
  show "b_next (B b) \<noteq> b" unfolding v(2) using d by (cases vs) auto
  have "linked B2 (bhead # us)"
  proof (rule linked_cong [THEN iffD2, OF _ _ u(1)])
    fix x assume "x \<in> set (butlast (bhead # us))"
    moreover have "distinct (bhead # us)" using d by simp
    ultimately have "x \<noteq> last (bhead # us)"
      by (metis append_butlast_last_id distinct_append disjoint_iff list.distinct(1) list.set_intros(1))
    then show "b_next (B2 x) = b_next (B x)" by (simp add: B2_def u(3))
  next
    fix x assume "x \<in> set (tl (bhead # us))"
    then have "x \<noteq> hd (vs @ [bhead])" using d by (cases vs) auto
    then show "b_prev (B2 x) = b_prev (B x)" by (simp add: B2_def v(2))
  qed
  moreover have "linked B2 (vs @ [bhead])"
  proof (rule linked_cong [THEN iffD2, OF _ _ v(1)])
    fix x assume "x \<in> set (butlast (vs @ [bhead]))"
    then have "x \<in> set vs" by simp
    moreover have "last (bhead # us) \<in> set (bhead # us)" by (rule last_in_set) simp
    ultimately have "x \<noteq> last (bhead # us)" using d by auto
    then show "b_next (B2 x) = b_next (B x)" by (simp add: B2_def u(3))
  next
    fix x assume "x \<in> set (tl (vs @ [bhead]))"
    then have "x \<noteq> hd (vs @ [bhead])" using d by (cases vs) auto
    then show "b_prev (B2 x) = b_prev (B x)" by (simp add: B2_def v(2))
  qed
  moreover have "b_next (B2 (last (bhead # us))) = hd (vs @ [bhead])" "b_prev (B2 (hd (vs @ [bhead]))) = last (bhead # us)"
    by (simp_all add: B2_def u(3) v(2))
  ultimately show "linked B2 (bhead # us @ vs @ [bhead])"
    using linked_join [of "bhead # us" "vs @ [bhead]" B2] by simp
qed

lemma relink:
  assumes l: "linked B (bhead # ys @ [bhead])" and d: "distinct (bhead # b # ys)"
  defines "f \<equiv> b_next (B bhead)"
  defines "B' \<equiv> nx bhead b (pv f b (pv b bhead (nx b f B)))"
  shows "linked B' (bhead # b # ys @ [bhead])"
proof -
  have f: "f = hd (ys @ [bhead])" and l': "linked B (ys @ [bhead])" using l by (cases ys; simp add: f_def)+
  have "linked B' (ys @ [bhead])"
  proof (rule linked_cong [THEN iffD2, OF _ _ l'])
    fix x assume "x \<in> set (butlast (ys @ [bhead]))"
    then show "b_next (B' x) = b_next (B x)" using d by (auto simp: B'_def)
  next
    fix x assume x: "x \<in> set (tl (ys @ [bhead]))"
    then have "x \<noteq> f" "x \<noteq> b" using d by (cases ys; auto simp: f)+
    then show "b_prev (B' x) = b_prev (B x)" by (simp add: B'_def)
  qed
  moreover have "f \<noteq> b" using d by (cases ys) (auto simp: f)
  ultimately show ?thesis
    using d f by (cases ys) (auto simp: B'_def)
qed

lemma blist_to_front:
  assumes "blist B xs" "b < NBUF"
  shows "\<exists>ys. blist (to_front b B) ys"
proof -
  have xs: "distinct xs" "set xs = {..<NBUF}" "linked B (bhead # xs @ [bhead])" using assms(1) by (simp_all add: blist_def)
  then have "b \<in> set xs" using assms(2) by simp
  then obtain us vs where us: "xs = us @ b # vs" using split_list by metis
  have "bhead \<notin> set xs" using xs(2) by simp
  then have d: "distinct (bhead # us @ b # vs)" using xs(1) us by simp
  have l: "linked B (bhead # us @ b # vs @ [bhead])" using xs(3) us by simp
  let ?B1 = "pv (b_next (B b)) (b_prev (B b)) B"
  have n: "b_prev (?B1 b) = b_prev (B b)" "b_next (?B1 b) = b_next (B b)" using unlink(2) [OF l d] by simp_all
  define B2 where "B2 = nx (b_prev (B b)) (b_next (B b)) ?B1"
  have "b_next (pv b bhead (nx b (b_next (B2 bhead)) B2) bhead) = b_next (B2 bhead)" using d by simp
  then have tf: "to_front b B = nx bhead b (pv (b_next (B2 bhead)) b (pv b bhead (nx b (b_next (B2 bhead)) B2)))"
    unfolding to_front_def Let_def n B2_def [symmetric] by (simp only:)
  have "linked B2 (bhead # (us @ vs) @ [bhead])" using unlink(1) [OF l d] by (simp only: B2_def append_assoc)
  moreover have "distinct (bhead # b # us @ vs)" using d by auto
  ultimately have "linked (to_front b B) (bhead # b # (us @ vs) @ [bhead])"
    unfolding tf by (rule relink)
  moreover have "set (b # us @ vs) = set xs" "distinct (b # us @ vs)" using us d by auto
  ultimately have "blist (to_front b B) (b # us @ vs)" using xs(2) by (simp add: blist_def)
  then show ?thesis by blast
qed

lemma set_link [simp]: "set_next b c s = Ok () (s\<lparr>bufs := nx b c (bufs s)\<rparr>)" "set_prev b c s = Ok () (s\<lparr>bufs := pv b c (bufs s)\<rparr>)"
  by (simp_all add: set_next_def set_prev_def upd_buf_def nx_def pv_def)

lemma to_front_code:
  "bind (gets (\<lambda>s. bufs s b)) (\<lambda>x.
     seq (set_prev (b_next x) (b_prev x)) (
     bind (gets (\<lambda>s. bufs s b)) (\<lambda>y.
     seq (set_next (b_prev y) (b_next y)) (
     bind (gets (\<lambda>s. b_next (bufs s bhead))) (\<lambda>f.
     seq (set_next b f) (
     seq (set_prev b bhead)
     (link_front b))))))) s = Ok () (s\<lparr>bufs := to_front b (bufs s)\<rparr>)"
  by (simp add: to_front_def Let_def link_front_def del: link_upd)

definition drop_ref :: "buf \<Rightarrow> buf" where
  "drop_ref x = x\<lparr>b_lock := (b_lock x)\<lparr>sl_locked := False, sl_pid := 0\<rparr>, b_refcnt := b_refcnt x - 1\<rparr>"

lemma brelse_Ok:
  assumes "quiet p s" "sl_locked (b_lock (bufs s b))" "sl_pid (b_lock (bufs s b)) = pid (procs s p)"
  defines "B1 \<equiv> (bufs s)(b := drop_ref (bufs s b))"
  shows "\<exists>s'. brelse b s = Ok () s' \<and>
    fsx p s (if b_refcnt (bufs s b) = 1 then to_front b B1 else B1) (dblocks s) (dhist s) (logst s) (inodes s) s'"
proof -
  note q = quietD [OF assms(1)]
  have run: "pstate (procs s p) = RUNNING" using assms(1) by (simp add: quiet_def)
  have h: "holdingsleep (SLbuf b) s = Ok True (s\<lparr>lks := lk_touch (lks s)\<rparr>)"
    using holdingsleep_Ok [OF assms(1), of "SLbuf b"] assms(2,3) by simp
  have r: "releasesleep (SLbuf b) (s\<lparr>lks := lk_touch (lks s)\<rparr>) =
    Ok () (s\<lparr>bufs := (bufs s)(b := (bufs s b)\<lparr>b_lock := (b_lock (bufs s b))\<lparr>sl_locked := False, sl_pid := 0\<rparr>\<rparr>),
       procs := wake_all (ChSleep (SLbuf b)) (procs s), lks := lk_touch (lks s)\<rparr>)"
    using releasesleep_Ok [OF quiet_upd(1) [OF assms(1)], of "SLbuf b"] by (simp add: set_sl_def)
  let ?f = "wake_all (ChSleep (SLbuf b)) (procs s)"
  let ?s1 = "s\<lparr>procs := ?f, lks := lk_acq LBcache (lk_touch (lks s)), bufs := B1\<rparr>"
  let ?B = "if b_refcnt (bufs s b) = 1 then to_front b B1 else B1"
  have acq: "acquire LBcache (s\<lparr>bufs := B, procs := ?f, lks := lk_touch (lks s)\<rparr>) =
      Ok () (s\<lparr>bufs := B, procs := ?f, lks := lk_acq LBcache (lk_touch (lks s))\<rparr>)" for B
    using q by (simp add: acquire_can)
  have rel: "release LBcache (s\<lparr>procs := ?f, lks := lk_acq LBcache (lk_touch (lks s)), bufs := B\<rparr>) =
      Ok () (s\<lparr>procs := ?f, bufs := B, lks := lk_touch (lks s)\<rparr>)" for B
    using q by (subst release_Ok [where l = "lk_touch (lks s)"]) simp_all
  have "brelse b s = Ok () (s\<lparr>procs := ?f, bufs := ?B, lks := lk_touch (lks s)\<rparr>)"
  proof (cases "b_refcnt (bufs s b) = 1")
    case True
    then show ?thesis
      by (simp add: brelse_def h r acq upd_buf_def drop_ref_def B1_def rel to_front_def Let_def link_front_def del: link_upd)
  next
    case False
    then have "b_refcnt (bufs s b) - 1 \<noteq> 0" by simp
    then show ?thesis
      using False by (simp add: brelse_def h r acq upd_buf_def drop_ref_def B1_def rel)
  qed
  moreover have "fsx p s ?B (dblocks s) (dhist s) (logst s) (inodes s) (s\<lparr>procs := ?f, bufs := ?B, lks := lk_touch (lks s)\<rparr>)"
    using assms(1) run by (simp add: fsx_def quiet_def idle_thread_def wake_all_self rest_procs)
  ultimately show ?thesis by blast
qed

section \<open>The cache as a view of the disk\<close>

text \<open>\<open>G\<close> holds the blocks that a transaction has modified and pinned, with their new contents, and
  \<open>R\<close> the blocks that the thread holds, each with its buffer and that buffer's data.  A block
  that is not held reads as \<open>val G D\<close> says.  \<open>E\<close> is what the reference count of the buffer of a
  block has too much or too little; it is 0 unless something went wrong.\<close>

definition val :: "(u32 \<rightharpoonup> block) \<Rightarrow> (u32 \<Rightarrow> block) \<Rightarrow> u32 \<Rightarrow> block" where
  "val G D bn = (case G bn of Some d \<Rightarrow> d | None \<Rightarrow> D bn)"

type_synonym held = "u32 \<rightharpoonup> nat \<times> block"

definition cnt :: "(u32 \<Rightarrow> u32) \<Rightarrow> (u32 \<rightharpoonup> block) \<Rightarrow> held \<Rightarrow> u32 \<Rightarrow> u32" where
  "cnt E G R bn = E bn + (if G bn = None then 0 else 1) + (if R bn = None then 0 else 1)"

definition cell :: "u32 \<Rightarrow> (u32 \<Rightarrow> u32) \<Rightarrow> (u32 \<rightharpoonup> block) \<Rightarrow> held \<Rightarrow> (u32 \<Rightarrow> block) \<Rightarrow> buf \<Rightarrow> bool" where
  "cell dv E G R D x \<longleftrightarrow>
     (if b_dev x = dv
      then b_refcnt x = cnt E G R (b_blockno x) \<and> (sl_locked (b_lock x) \<longleftrightarrow> R (b_blockno x) \<noteq> None)
        \<and> (b_valid x \<and> R (b_blockno x) = None \<longrightarrow> b_data x = val G D (b_blockno x))
      else b_refcnt x = 0 \<and> \<not> sl_locked (b_lock x))"

definition caches :: "u32 \<Rightarrow> u32 \<Rightarrow> buf \<Rightarrow> bool" where
  "caches dv bn x \<longleftrightarrow> b_dev x = dv \<and> b_blockno x = bn"

definition bcore :: "u32 \<Rightarrow> int \<Rightarrow> (u32 \<Rightarrow> u32) \<Rightarrow> (u32 \<rightharpoonup> block) \<Rightarrow> held \<Rightarrow> (u32 \<Rightarrow> block) \<Rightarrow> (nat \<Rightarrow> buf) \<Rightarrow> bool" where
  "bcore dv i E G R D B \<longleftrightarrow>
     (\<forall>b < NBUF. cell dv E G R D (B b))
     \<and> (\<forall>b < NBUF. \<forall>c < NBUF. \<forall>bn. caches dv bn (B b) \<and> caches dv bn (B c) \<longrightarrow> b = c)
     \<and> (\<forall>bn. G bn \<noteq> None \<or> E bn \<noteq> 0 \<longrightarrow> (\<exists>b < NBUF. caches dv bn (B b) \<and> b_valid (B b)))
     \<and> (\<forall>bn b d. R bn = Some (b, d) \<longrightarrow> b < NBUF \<and> caches dv bn (B b) \<and> b_valid (B b) \<and> b_data (B b) = d
          \<and> sl_pid (b_lock (B b)) = i)"

definition sound :: "(u32 \<Rightarrow> u32) \<Rightarrow> (u32 \<rightharpoonup> block) \<Rightarrow> held \<Rightarrow> bool" where
  "sound E G R \<longleftrightarrow> (\<forall>m. E m \<noteq> 0 \<longrightarrow> G m = None \<and> R m = None)"

definition used :: "(u32 \<Rightarrow> u32) \<Rightarrow> (u32 \<rightharpoonup> block) \<Rightarrow> held \<Rightarrow> u32 set" where
  "used E G R = dom G \<union> dom R \<union> {m. E m \<noteq> 0}"

lemma sound_0 [simp]: "sound (\<lambda>_. 0) G R"
  by (simp add: sound_def)

lemma used_0 [simp]: "used (\<lambda>_. 0) G R = dom G \<union> dom R"
  by (simp add: used_def)

lemma cnt_0: "sound E G R \<Longrightarrow> cnt E G R bn = 0 \<longleftrightarrow> G bn = None \<and> R bn = None \<and> E bn = 0"
  by (cases "E bn = 0") (auto simp: cnt_def sound_def)

lemma caches_links:
  assumes "nolinks B' = nolinks B"
  shows "caches dv bn (B' b) = caches dv bn (B b)"
  by (simp add: caches_def nolinks_eqD [OF assms])

lemma bcore_links:
  assumes "nolinks B' = nolinks B"
  shows "bcore dv i E G R D B' = bcore dv i E G R D B"
  by (simp add: bcore_def cell_def caches_links [OF assms] nolinks_eqD [OF assms])

definition fetch :: "(u32 \<Rightarrow> block) \<Rightarrow> buf \<Rightarrow> buf" where
  "fetch D x = (if b_valid x then x else (rw_buf False D x)\<lparr>b_valid := True\<rparr>)"

lemma bcore_bread:
  assumes bc: "bcore dv i E G R D B" and R: "R bn = None" and b: "b < NBUF" and E: "E bn = 0" "sound E G R"
    and ch: "caches dv bn (B b) \<or> b_refcnt (B b) = 0 \<and> (\<forall>c < NBUF. \<not> caches dv bn (B c))"
  shows "bcore dv i E G (R(bn \<mapsto> (b, val G D bn))) D (B(b := fetch D (grab dv bn i (B b))))"
proof -
  define y where "y = fetch D (grab dv bn i (B b))"
  let ?R = "R(bn \<mapsto> (b, val G D bn))" and ?B = "B(b := y)"
  have cells: "\<And>c. c < NBUF \<Longrightarrow> cell dv E G R D (B c)" and uniq: "\<And>c d m. c < NBUF \<Longrightarrow> d < NBUF \<Longrightarrow> caches dv m (B c) \<Longrightarrow> caches dv m (B d) \<Longrightarrow> c = d"
    and G: "\<And>m. G m \<noteq> None \<or> E m \<noteq> 0 \<Longrightarrow> \<exists>c < NBUF. caches dv m (B c) \<and> b_valid (B c)"
    and held: "\<And>m c d. R m = Some (c, d) \<Longrightarrow> c < NBUF \<and> caches dv m (B c) \<and> b_valid (B c) \<and> b_data (B c) = d \<and> sl_pid (b_lock (B c)) = i"
    using bc unfolding bcore_def by blast+
  have y: "b_dev y = dv" "b_blockno y = bn" "b_valid y" "sl_locked (b_lock y)" "sl_pid (b_lock y) = i"
    by (simp_all add: y_def fetch_def grab_def Let_def rw_buf_def)
  have yr: "b_refcnt y = cnt E G ?R bn \<and> b_data y = val G D bn"
  proof (cases "caches dv bn (B b)")
    case True
    have "G bn = None" if "\<not> b_valid (B b)"
    proof (rule ccontr)
      assume "G bn \<noteq> None"
      from G [OF disjI1, OF this] obtain c where "c < NBUF" "caches dv bn (B c)" "b_valid (B c)" by blast
      with uniq [OF b _ True] that show False by blast
    qed
    with True cells [OF b] R show ?thesis
      by (auto simp: y_def fetch_def grab_def rw_buf_def caches_def cell_def cnt_def val_def)
  next
    case False
    then have nc: "\<not> caches dv bn (B c)" if "c < NBUF" for c using ch that by blast
    have "G bn = None" using G [of bn] nc by blast
    with False E show ?thesis
      by (auto simp: y_def fetch_def grab_def Let_def rw_buf_def caches_def cnt_def val_def)
  qed
  have old: "caches dv bn (B c) \<Longrightarrow> c = b" if "c < NBUF" for c
    using ch uniq [OF that b] that by blast
  have lost: "G m = None \<and> R m = None \<and> E m = 0" if "caches dv m (B b)" "m \<noteq> bn" for m
  proof -
    have "\<not> caches dv bn (B b)" using that by (simp add: caches_def)
    then have "b_refcnt (B b) = 0" using ch by blast
    with cells [OF b] that(1) show ?thesis by (simp add: cell_def caches_def cnt_0 [OF E(2)])
  qed
  show ?thesis
    unfolding bcore_def y_def [symmetric]
  proof (intro conjI allI impI)
    fix c assume c: "c < NBUF"
    show "cell dv E G ?R D (?B c)"
    proof (cases "c = b")
      case True
      then show ?thesis using y yr by (simp add: cell_def)
    next
      case False
      then have "\<not> caches dv bn (B c)" using old [OF c] by blast
      then show ?thesis using cells [OF c] False by (auto simp: cell_def caches_def cnt_def)
    qed
    fix d m assume d: "d < NBUF" and cd: "caches dv m (?B c) \<and> caches dv m (?B d)"
    have m: "m = bn" if "caches dv m y" using that y(2) by (simp add: caches_def)
    show "c = d"
    proof (cases "c = b \<or> d = b")
      case True
      then have "m = bn" using cd m by auto
      then show ?thesis using True cd old [OF c] old [OF d] by (metis fun_upd_other)
    next
      case False
      then show ?thesis using cd uniq [OF c d, of m] by simp
    qed
  next
    fix m assume m: "G m \<noteq> None \<or> E m \<noteq> 0"
    from G [OF this] obtain c where c: "c < NBUF" "caches dv m (B c)" "b_valid (B c)" by blast
    show "\<exists>c < NBUF. caches dv m (?B c) \<and> b_valid (?B c)"
    proof (cases "m = bn")
      case True
      then show ?thesis using b y by (intro exI [of _ b]) (simp add: caches_def)
    next
      case False
      have "c \<noteq> b" using lost [OF _ False] c(2) m by metis
      then show ?thesis using c by (intro exI [of _ c]) simp
    qed
  next
    fix m c d assume m: "?R m = Some (c, d)"
    show "c < NBUF" "caches dv m (?B c)" "b_valid (?B c)" "b_data (?B c) = d" "sl_pid (b_lock (?B c)) = i"
    proof -
      have "c < NBUF \<and> caches dv m (?B c) \<and> b_valid (?B c) \<and> b_data (?B c) = d \<and> sl_pid (b_lock (?B c)) = i"
      proof (cases "m = bn")
        case True
        then show ?thesis using m b y yr by (simp add: caches_def)
      next
        case False
        then have h: "R m = Some (c, d)" using m by simp
        have "c \<noteq> b" using lost [OF _ False] held [OF h] h by (metis option.distinct(1))
        then show ?thesis using held [OF h] by simp
      qed
      then show "c < NBUF" "caches dv m (?B c)" "b_valid (?B c)" "b_data (?B c) = d" "sl_pid (b_lock (?B c)) = i" by blast+
    qed
  qed
qed

definition bcache :: "u32 \<Rightarrow> nat \<Rightarrow> (u32 \<Rightarrow> u32) \<Rightarrow> (u32 \<rightharpoonup> block) \<Rightarrow> held \<Rightarrow> kstate \<Rightarrow> bool" where
  "bcache dv p E G R s \<longleftrightarrow> quiet p s \<and> (\<exists>xs. blist (bufs s) xs) \<and> bcore dv (pid (procs s p)) E G R (dblocks s) (bufs s)"

definition keep :: "nat \<Rightarrow> kstate \<Rightarrow> kstate \<Rightarrow> bool" where
  "keep p s s' \<longleftrightarrow> rest p s' = rest p s \<and> dblocks s' = dblocks s \<and> dhist s' = dhist s \<and> logst s' = logst s \<and> inodes s' = inodes s"

lemma keep_refl [simp]: "keep p s s"
  by (simp add: keep_def)

lemma keep_trans: "keep p s s' \<Longrightarrow> keep p s' s'' \<Longrightarrow> keep p s s''"
  by (simp add: keep_def)

lemma free_buf_exists:
  assumes "bcore dv i E G R D B" "finite (used E G R)" "sound E G R" "card (used E G R) < NBUF"
  shows "\<exists>b < NBUF. b_refcnt (B b) = 0"
proof (rule ccontr)
  assume none: "\<not> ?thesis"
  have cell: "cell dv E G R D (B b)" if "b < NBUF" for b using assms(1) that unfolding bcore_def by blast
  have uniq: "b = c" if "b < NBUF" "c < NBUF" "caches dv m (B b)" "caches dv m (B c)" for b c m
    using assms(1) that unfolding bcore_def by blast
  have in_use: "caches dv (b_blockno (B b)) (B b)" "b_blockno (B b) \<in> used E G R" if "b < NBUF" for b
  proof -
    have "b_refcnt (B b) \<noteq> 0" using none that by blast
    with cell [OF that] have "b_dev (B b) = dv" "cnt E G R (b_blockno (B b)) \<noteq> 0" by (auto simp: cell_def split: if_splits)
    then show "caches dv (b_blockno (B b)) (B b)" "b_blockno (B b) \<in> used E G R"
      by (auto simp: caches_def cnt_0 [OF assms(3)] used_def)
  qed
  have "inj_on (\<lambda>b. b_blockno (B b)) {..<NBUF}"
    by (rule inj_onI) (use in_use(1) uniq in \<open>metis lessThan_iff\<close>)
  moreover have "(\<lambda>b. b_blockno (B b)) ` {..<NBUF} \<subseteq> used E G R" using in_use(2) by auto
  ultimately have "card {..<NBUF} \<le> card (used E G R)"
    using assms(2) by (intro card_inj_on_le [of _ _ "used E G R"]) auto
  with assms(4) show False by simp
qed

lemma pick_buf_Some:
  assumes bc: "bcore dv i E G R D B" and bl: "blist B xs"
    and ex: "(\<exists>c < NBUF. caches dv bn (B c)) \<or> (\<exists>c < NBUF. b_refcnt (B c) = 0)"
  shows "\<exists>b < NBUF. pick_buf B xs dv bn = Some b
    \<and> (caches dv bn (B b) \<or> b_refcnt (B b) = 0 \<and> (\<forall>c < NBUF. \<not> caches dv bn (B c)))"
proof -
  have set: "set xs = {..<NBUF}" using bl by (simp add: blist_def)
  show ?thesis
  proof (cases "find (\<lambda>i. b_dev (B i) = dv \<and> b_blockno (B i) = bn) xs")
    case (Some b)
    then show ?thesis using find_SomeD [OF Some] set by (auto simp: pick_buf_def caches_def)
  next
    case None
    then have nc: "\<not> caches dv bn (B c)" if "c < NBUF" for c
      using that set by (auto simp: find_None_iff caches_def)
    with ex obtain c where c: "c < NBUF" "b_refcnt (B c) = 0" by blast
    then have "find (\<lambda>i. b_refcnt (B i) = 0) (rev xs) \<noteq> None" using set by (auto simp: find_None_iff)
    then obtain b where b: "find (\<lambda>i. b_refcnt (B i) = 0) (rev xs) = Some b" by blast
    then show ?thesis using find_SomeD [OF b] nc None set by (auto simp: pick_buf_def)
  qed
qed

lemma bread_rt:
  assumes bc: "bcache dv p E G R s" and R: "R bn = None" and bn: "unat bn < 2 ^ 31"
    and E: "E bn = 0" "sound E G R" and room: "finite (used E G R)" "card (used E G R) < NBUF \<or> bn \<in> dom G"
  shows "rt (disk_env p) (bread dv bn) (\<lambda>b s'. keep p s s' \<and> bcache dv p E G (R(bn \<mapsto> (b, val G (dblocks s) bn))) s') s"
proof -
  let ?B = "bufs s" and ?D = "dblocks s" and ?i = "pid (procs s p)"
  obtain xs where q: "quiet p s" and bl: "blist ?B xs" and co: "bcore dv ?i E G R ?D ?B"
    using bc by (auto simp: bcache_def)
  have ex: "(\<exists>c < NBUF. caches dv bn (?B c)) \<or> (\<exists>c < NBUF. b_refcnt (?B c) = 0)"
  proof (cases "bn \<in> dom G")
    case True
    then have "G bn \<noteq> None" by blast
    then show ?thesis using co unfolding bcore_def by blast
  next
    case False
    then show ?thesis using free_buf_exists [OF co room(1) E(2)] room(2) by blast
  qed
  obtain b where b: "b < NBUF" and pk: "pick_buf ?B xs dv bn = Some b"
    and ch: "caches dv bn (?B b) \<or> b_refcnt (?B b) = 0 \<and> (\<forall>c < NBUF. \<not> caches dv bn (?B c))"
    using pick_buf_Some [OF co bl ex] by blast
  have "cell dv E G R ?D (?B b)" using co b unfolding bcore_def by blast
  then have nl: "\<not> sl_locked (b_lock (?B b))"
    using ch R by (auto simp: cell_def caches_def cnt_0 [OF E(2)] split: if_splits)
  define x where "x = grab dv bn ?i (?B b)"
  let ?s1 = "s\<lparr>bufs := ?B(b := x), lks := lk_touch (lks s)\<rparr>"
  have g: "bget dv bn s = Ok b ?s1" using bget_Ok [OF q bl pk nl] by (simp add: x_def)
  have q1: "quiet p ?s1" by (rule quiet_upd(6) [OF q])
  have xb: "b_blockno x = bn" by (simp add: x_def grab_def Let_def)
  have fin: "keep p s s' \<and> bcache dv p E G (R(bn \<mapsto> (b, val G ?D bn))) s'"
    if "fsx p ?s1 (?B(b := fetch ?D x)) ?D (dhist s) (logst s) (inodes s) s'" for s'
  proof -
    have r: "rest p s' = rest p s" and f: "bufs s' = ?B(b := fetch ?D x)" "dblocks s' = ?D" "quiet p s'"
      "dhist s' = dhist s" "logst s' = logst s" "inodes s' = inodes s"
      using that by (simp_all add: fsx_def)
    have "blist (?B(b := fetch ?D x)) xs"
      using blist_links [of "?B(b := fetch ?D x)" ?B xs] bl by (simp add: x_def fetch_def rw_buf_def)
    then show ?thesis
      using bcore_bread [OF co R b E ch] f r rest_eqD(1) [OF r] by (auto simp: keep_def bcache_def x_def)
  qed
  show ?thesis
  proof (cases "b_valid x")
    case True
    then show ?thesis
      using fin [of ?s1] q1 by (simp add: bread_def rt_def g fsx_def fetch_def)
  next
    case False
    have rw: "rt (disk_env p) (virtio_disk_rw b False)
      (\<lambda>_. fsx p ?s1 (?B(b := rw_buf False ?D x)) ?D (dhist s) (logst s) (inodes s)) ?s1"
      using virtio_disk_rw_rt [OF q1, of b False] xb bn by (simp add: rw_disk_def rw_hist_def)
    have "rt (disk_env p) (seq (virtio_disk_rw b False) (seq (upd_buf b (\<lambda>x. x\<lparr>b_valid := True\<rparr>)) (return b)))
      (\<lambda>b s'. keep p s s' \<and> bcache dv p E G (R(bn \<mapsto> (b, val G ?D bn))) s') ?s1"
      unfolding rt_seq
    proof (rule rt_mono [OF rw])
      fix a s2 assume a: "fsx p ?s1 (?B(b := rw_buf False ?D x)) ?D (dhist s) (logst s) (inodes s) s2"
      let ?s3 = "s2\<lparr>bufs := (bufs s2)(b := (bufs s2 b)\<lparr>b_valid := True\<rparr>)\<rparr>"
      have "fsx p ?s1 (?B(b := fetch ?D x)) ?D (dhist s) (logst s) (inodes s) ?s3"
        using a False by (simp add: fsx_def fetch_def quiet_upd)
      from fin [OF this] show "rt (disk_env p) (upd_buf b (\<lambda>x. x\<lparr>b_valid := True\<rparr>)) (\<lambda>_. rt (disk_env p) (return b)
          (\<lambda>b s'. keep p s s' \<and> bcache dv p E G (R(bn \<mapsto> (b, val G ?D bn))) s')) s2"
        by (simp add: upd_buf_def)
    qed
    then show ?thesis using False by (simp add: bread_def rt_Ok [where m = "bget dv bn", OF g])
  qed
qed

section \<open>Working on a held buffer\<close>

lemma bcore_held:
  assumes bc: "bcore dv i E G R D B" and R: "R bn = Some (b, d)"
    and y: "caches dv bn y" "b_valid y" "cell dv E' G' R' D' y"
    and fr: "\<And>m. m \<noteq> bn \<Longrightarrow> E' m = E m \<and> G' m = G m \<and> R' m = R m \<and> D' m = D m"
    and hd: "\<And>c e. R' bn = Some (c, e) \<Longrightarrow> c = b \<and> e = b_data y \<and> sl_pid (b_lock y) = i"
  shows "bcore dv i E' G' R' D' (B(b := y))"
proof -
  have cells: "\<And>c. c < NBUF \<Longrightarrow> cell dv E G R D (B c)" and uniq: "\<And>c d m. c < NBUF \<Longrightarrow> d < NBUF \<Longrightarrow> caches dv m (B c) \<Longrightarrow> caches dv m (B d) \<Longrightarrow> c = d"
    and G: "\<And>m. G m \<noteq> None \<or> E m \<noteq> 0 \<Longrightarrow> \<exists>c < NBUF. caches dv m (B c) \<and> b_valid (B c)"
    and held: "\<And>m c d. R m = Some (c, d) \<Longrightarrow> c < NBUF \<and> caches dv m (B c) \<and> b_valid (B c) \<and> b_data (B c) = d \<and> sl_pid (b_lock (B c)) = i"
    using bc unfolding bcore_def by blast+
  have b: "b < NBUF" "caches dv bn (B b)" using held [OF R] by blast+
  have eq: "caches dv m ((B(b := y)) c) = caches dv m (B c)" for m c
    using y(1) b(2) by (auto simp: caches_def)
  show ?thesis
    unfolding bcore_def eq
  proof (intro conjI allI impI)
    fix c assume c: "c < NBUF"
    show "cell dv E' G' R' D' ((B(b := y)) c)"
    proof (cases "c = b")
      case False
      have "b_blockno (B c) \<noteq> bn" if "b_dev (B c) = dv"
        using uniq [OF c b(1), of bn] b(2) False that by (auto simp: caches_def)
      with cells [OF c] fr [of "b_blockno (B c)"] False show ?thesis
        by (auto simp: cell_def cnt_def val_def split: option.splits)
    qed (use y in simp)
    fix d m assume "d < NBUF" "caches dv m (B c) \<and> caches dv m (B d)"
    then show "c = d" using uniq c by blast
  next
    fix m assume m: "G' m \<noteq> None \<or> E' m \<noteq> 0"
    show "\<exists>c < NBUF. caches dv m (B c) \<and> b_valid ((B(b := y)) c)"
    proof (cases "m = bn")
      case True
      then show ?thesis using b y(2) by (intro exI [of _ b]) simp
    next
      case False
      with m fr obtain c where "c < NBUF" "caches dv m (B c)" "b_valid (B c)" using G [of m] by metis
      then show ?thesis using y(2) by (intro exI [of _ c]) simp
    qed
  next
    fix m c e assume m: "R' m = Some (c, e)"
    have "c < NBUF \<and> caches dv m (B c) \<and> b_valid ((B(b := y)) c) \<and> b_data ((B(b := y)) c) = e \<and> sl_pid (b_lock ((B(b := y)) c)) = i"
    proof (cases "m = bn")
      case True
      then show ?thesis using hd m b y by simp
    next
      case False
      then have h: "R m = Some (c, e)" using m fr by metis
      have "c \<noteq> b" using held [OF h] b(2) False by (auto simp: caches_def)
      then show ?thesis using held [OF h] by simp
    qed
    then show "c < NBUF" "caches dv m (B c)" "b_valid ((B(b := y)) c)" "b_data ((B(b := y)) c) = e" "sl_pid (b_lock ((B(b := y)) c)) = i"
      by blast+
  qed
qed

lemma bcache_held:
  assumes "bcache dv p E G R s" "R bn = Some (b, d)"
  shows "b < NBUF" "caches dv bn (bufs s b)" "b_valid (bufs s b)" "b_data (bufs s b) = d"
    "sl_pid (b_lock (bufs s b)) = pid (procs s p)" "sl_locked (b_lock (bufs s b))" "cell dv E G R (dblocks s) (bufs s b)" "quiet p s"
proof -
  have h: "bcore dv (pid (procs s p)) E G R (dblocks s) (bufs s)" and q: "quiet p s" using assms(1) by (simp_all add: bcache_def)
  then show "b < NBUF" "caches dv bn (bufs s b)" "b_valid (bufs s b)" "b_data (bufs s b) = d"
    "sl_pid (b_lock (bufs s b)) = pid (procs s p)" "quiet p s"
    using assms(2) unfolding bcore_def by blast+
  then show c: "cell dv E G R (dblocks s) (bufs s b)" using h unfolding bcore_def by blast
  then show "sl_locked (b_lock (bufs s b))"
    using assms(2) \<open>caches dv bn (bufs s b)\<close> by (simp add: cell_def caches_def)
qed

lemma blist_same_links:
  assumes "blist B xs" "b_next y = b_next (B b)" "b_prev y = b_prev (B b)"
  shows "blist (B(b := y)) xs"
  using blist_links [of "B(b := y)" B xs] assms by simp

lemma bcache_data:
  assumes bc: "bcache dv p E G R s" and R: "R bn = Some (b, d)"
  shows "bcache dv p E G (R(bn \<mapsto> (b, d'))) (s\<lparr>bufs := (bufs s)(b := (bufs s b)\<lparr>b_data := d'\<rparr>)\<rparr>)"
proof -
  note h = bcache_held [OF bc R]
  have co: "bcore dv (pid (procs s p)) E G R (dblocks s) (bufs s)" using bc by (simp add: bcache_def)
  have "bcore dv (pid (procs s p)) E G (R(bn \<mapsto> (b, d'))) (dblocks s) ((bufs s)(b := (bufs s b)\<lparr>b_data := d'\<rparr>))"
    by (rule bcore_held [OF co R]) (use h R in \<open>auto simp: caches_def cell_def cnt_def\<close>)
  with bc show ?thesis
    using blist_same_links [of "bufs s" _ "(bufs s b)\<lparr>b_data := d'\<rparr>" b] by (auto simp: bcache_def quiet_upd)
qed

lemma bwrite_rt:
  assumes bc: "bcache dv p E G R s" and R: "R bn = Some (b, d)" and bn: "unat bn < 2 ^ 31"
  shows "rt (disk_env p) (bwrite b) (\<lambda>_ s'. rest p s' = rest p s \<and> dblocks s' = (dblocks s)(bn := d)
    \<and> dhist s' = dhist s @ [(bn, d)] \<and> logst s' = logst s \<and> inodes s' = inodes s \<and> bcache dv p E G R s') s"
proof -
  note h = bcache_held [OF bc R]
  obtain xs where co: "bcore dv (pid (procs s p)) E G R (dblocks s) (bufs s)" and bl: "blist (bufs s) xs" using bc by (auto simp: bcache_def)
  have hs: "holdingsleep (SLbuf b) s = Ok True (s\<lparr>lks := lk_touch (lks s)\<rparr>)"
    using holdingsleep_Ok [OF h(8), of "SLbuf b"] h(5,6) by simp
  let ?y = "rw_buf True (dblocks s) (bufs s b)" and ?s1 = "s\<lparr>lks := lk_touch (lks s)\<rparr>"
  have bb: "b_blockno (bufs s b) = bn" using h(2) by (simp add: caches_def)
  have rw: "rt (disk_env p) (virtio_disk_rw b True) (\<lambda>_. fsx p ?s1 ((bufs s)(b := ?y)) ((dblocks s)(bn := d))
      (dhist s @ [(bn, d)]) (logst s) (inodes s)) ?s1"
    using virtio_disk_rw_rt [OF quiet_upd(1) [OF h(8)], of b True] bn bb h(4) by (simp add: rw_disk_def rw_hist_def)
  have "bcore dv (pid (procs s p)) E G R ((dblocks s)(bn := d)) ((bufs s)(b := ?y))"
    by (rule bcore_held [OF co R]) (use h R in \<open>auto simp: caches_def cell_def rw_buf_def\<close>)
  moreover have "blist ((bufs s)(b := ?y)) xs"
    by (rule blist_same_links [OF bl]) (simp_all add: rw_buf_def)
  ultimately have fin: "rest p s' = rest p s \<and> dblocks s' = (dblocks s)(bn := d)
    \<and> dhist s' = dhist s @ [(bn, d)] \<and> logst s' = logst s \<and> inodes s' = inodes s \<and> bcache dv p E G R s'"
    if "fsx p ?s1 ((bufs s)(b := ?y)) ((dblocks s)(bn := d)) (dhist s @ [(bn, d)]) (logst s) (inodes s) s'" for s'
    using that rest_eqD(1) [of p s' s] by (auto simp: fsx_def bcache_def)
  show ?thesis
    unfolding bwrite_def rt_bind rt_Ok [where m = "holdingsleep (SLbuf b)", OF hs]
    by (simp, rule rt_mono [OF rw]) (rule fin)
qed

lemma brelse_rt:
  assumes bc: "bcache dv p E G R s" and R: "R bn = Some (b, d)" and d: "d = val G (dblocks s) bn"
  shows "rt (disk_env p) (brelse b) (\<lambda>_ s'. keep p s s' \<and> bcache dv p E G (R(bn := None)) s') s"
proof -
  note h = bcache_held [OF bc R]
  obtain xs where co: "bcore dv (pid (procs s p)) E G R (dblocks s) (bufs s)" and bl: "blist (bufs s) xs" using bc by (auto simp: bcache_def)
  let ?B1 = "(bufs s)(b := drop_ref (bufs s b))"
  let ?B = "if b_refcnt (bufs s b) = 1 then to_front b ?B1 else ?B1"
  obtain s' where s': "brelse b s = Ok () s'" and f: "fsx p s ?B (dblocks s) (dhist s) (logst s) (inodes s) s'"
    using brelse_Ok [OF h(8,6,5)] by blast
  have "bcore dv (pid (procs s p)) E G (R(bn := None)) (dblocks s) ?B1"
    by (rule bcore_held [OF co R]) (use h R d in \<open>auto simp: caches_def cell_def drop_ref_def cnt_def\<close>)
  then have "bcore dv (pid (procs s p)) E G (R(bn := None)) (dblocks s) ?B"
    using bcore_links [of "to_front b ?B1" ?B1] by simp
  moreover have bl1: "blist ?B1 xs" by (rule blist_same_links [OF bl]) (simp_all add: drop_ref_def)
  then have "\<exists>ys. blist ?B ys" using blist_to_front [OF bl1 h(1)] by auto
  ultimately have "keep p s s' \<and> bcache dv p E G (R(bn := None)) s'"
    using f rest_eqD(1) [of p s' s] by (simp add: fsx_def keep_def bcache_def)
  then show ?thesis by (simp add: rt_Ok [where m = "brelse b", OF s'])
qed

lemma bpin_Ok:
  assumes "quiet p s"
  shows "bpin b s = Ok () (s\<lparr>bufs := (bufs s)(b := (bufs s b)\<lparr>b_refcnt := b_refcnt (bufs s b) + 1\<rparr>), lks := lk_touch (lks s)\<rparr>)"
    and "bunpin b s = Ok () (s\<lparr>bufs := (bufs s)(b := (bufs s b)\<lparr>b_refcnt := b_refcnt (bufs s b) - 1\<rparr>), lks := lk_touch (lks s)\<rparr>)"
  using quietD [OF assms]
  by (simp_all add: bpin_def bunpin_def acquire_can upd_buf_def release_Ok [where l = "lks s"])

lemma bcache_refcnt:
  assumes bc: "bcache dv p E G R s" and R: "R bn = Some (b, d)" and G': "\<And>m. m \<noteq> bn \<Longrightarrow> E' m = E m \<and> G' m = G m"
    and n: "n = cnt E' G' R bn"
  shows "bcache dv p E' G' R (s\<lparr>bufs := (bufs s)(b := (bufs s b)\<lparr>b_refcnt := n\<rparr>), lks := lk_touch (lks s)\<rparr>)"
proof -
  note h = bcache_held [OF bc R]
  obtain xs where co: "bcore dv (pid (procs s p)) E G R (dblocks s) (bufs s)" and bl: "blist (bufs s) xs" using bc by (auto simp: bcache_def)
  have "bcore dv (pid (procs s p)) E' G' R (dblocks s) ((bufs s)(b := (bufs s b)\<lparr>b_refcnt := n\<rparr>))"
    by (rule bcore_held [OF co R]) (use h R G' n in \<open>auto simp: caches_def cell_def\<close>)
  moreover have "blist ((bufs s)(b := (bufs s b)\<lparr>b_refcnt := n\<rparr>)) xs" by (rule blist_same_links [OF bl]) simp_all
  ultimately show ?thesis using quiet_upd(6) [OF h(8)] by (auto simp: bcache_def)
qed

lemma bcache_cnt:
  assumes "bcache dv p E G R s" "R bn = Some (b, d)"
  shows "b_refcnt (bufs s b) = cnt E G R bn"
  using bcache_held(2,7) [OF assms] by (simp add: cell_def caches_def)

lemma bpin_rt:
  assumes bc: "bcache dv p E G R s" and R: "R bn = Some (b, d)" and G: "G bn = None"
  shows "rt (disk_env p) (bpin b) (\<lambda>_ s'. keep p s s' \<and> bcache dv p E (G(bn \<mapsto> e)) R s') s"
proof -
  note h = bcache_held [OF bc R]
  have "bcache dv p E (G(bn \<mapsto> e)) R (s\<lparr>bufs := (bufs s)(b := (bufs s b)\<lparr>b_refcnt := b_refcnt (bufs s b) + 1\<rparr>), lks := lk_touch (lks s)\<rparr>)"
    using R G by (intro bcache_refcnt [OF bc R]) (simp_all add: bcache_cnt [OF bc R] cnt_def)
  then show ?thesis by (simp add: rt_Ok [where m = "bpin b", OF bpin_Ok(1) [OF h(8)]] keep_def)
qed

lemma bunpin_rt:
  assumes bc: "bcache dv p E G R s" and R: "R bn = Some (b, d)" and G: "G bn \<noteq> None"
  shows "rt (disk_env p) (bunpin b) (\<lambda>_ s'. keep p s s' \<and> bcache dv p E (G(bn := None)) R s') s"
proof -
  note h = bcache_held [OF bc R]
  have "bcache dv p E (G(bn := None)) R (s\<lparr>bufs := (bufs s)(b := (bufs s b)\<lparr>b_refcnt := b_refcnt (bufs s b) - 1\<rparr>), lks := lk_touch (lks s)\<rparr>)"
    using R G by (intro bcache_refcnt [OF bc R]) (simp_all add: bcache_cnt [OF bc R] cnt_def)
  then show ?thesis by (simp add: rt_Ok [where m = "bunpin b", OF bpin_Ok(2) [OF h(8)]] keep_def)
qed

text \<open>Unpinning a block that is not pinned is not noticed; its buffer has one reference too few.\<close>

lemma bunpin_unpinned_rt:
  assumes bc: "bcache dv p E G R s" and R: "R bn = Some (b, d)"
  shows "rt (disk_env p) (bunpin b) (\<lambda>_ s'. keep p s s' \<and> bcache dv p (E(bn := E bn - 1)) G R s') s"
proof -
  note h = bcache_held [OF bc R]
  have "bcache dv p (E(bn := E bn - 1)) G R (s\<lparr>bufs := (bufs s)(b := (bufs s b)\<lparr>b_refcnt := b_refcnt (bufs s b) - 1\<rparr>), lks := lk_touch (lks s)\<rparr>)"
    by (intro bcache_refcnt [OF bc R]) (simp_all add: bcache_cnt [OF bc R] cnt_def)
  then show ?thesis by (simp add: rt_Ok [where m = "bunpin b", OF bpin_Ok(2) [OF h(8)]] keep_def)
qed

text \<open>What a held and pinned block will read as is up to its holder.\<close>

lemma bcache_pinned:
  assumes bc: "bcache dv p E G R s" and R: "R bn = Some (b, d)" and G: "G bn \<noteq> None"
  shows "bcache dv p E (G(bn \<mapsto> e)) R s"
proof -
  note h = bcache_held [OF bc R]
  have co: "bcore dv (pid (procs s p)) E G R (dblocks s) (bufs s)" using bc by (simp add: bcache_def)
  have "bcore dv (pid (procs s p)) E (G(bn \<mapsto> e)) R (dblocks s) ((bufs s)(b := bufs s b))"
    by (rule bcore_held [OF co R]) (use h R G in \<open>auto simp: caches_def cell_def cnt_def\<close>)
  with bc show ?thesis by (simp add: bcache_def)
qed

section \<open>The cache after binit\<close>

lemma nx_pv_lock [simp]: "b_lock (nx b c B i) = b_lock (B i)" "b_lock (pv b c B i) = b_lock (B i)"
  by (simp_all add: nx_def pv_def)

definition fresh :: "(nat \<Rightarrow> buf) \<Rightarrow> nat list \<Rightarrow> (nat \<Rightarrow> buf) \<Rightarrow> bool" where
  "fresh B zs B' \<longleftrightarrow> linked B' (bhead # rev zs @ [bhead])
     \<and> (\<forall>b. b_dev (B' b) = b_dev (B b) \<and> b_refcnt (B' b) = b_refcnt (B b))
     \<and> (\<forall>b \<in> set zs. \<not> sl_locked (b_lock (B' b)))"

lemma fresh_Suc:
  assumes "fresh B zs C" "distinct (bhead # y # zs)"
  defines "f \<equiv> b_next (C bhead)" and "C1 \<equiv> pv y bhead (nx y (b_next (C bhead)) C)"
  shows "fresh B (zs @ [y]) (nx bhead y (pv f y (C1(y := (C1 y)\<lparr>b_lock := l\<lparr>sl_name := nm, sl_locked := False, sl_pid := 0\<rparr>\<rparr>))))"
proof -
  let ?C2 = "C1(y := (C1 y)\<lparr>b_lock := l\<lparr>sl_name := nm, sl_locked := False, sl_pid := 0\<rparr>\<rparr>)"
  have "linked (nx bhead y (pv f y C1)) (bhead # y # rev zs @ [bhead])"
    using relink [of C "rev zs" y] assms by (simp add: fresh_def)
  then have "linked (nx bhead y (pv f y ?C2)) (bhead # y # rev zs @ [bhead])"
    by (rule linked_cong [THEN iffD2, rotated 2]) simp_all
  moreover have "\<not> sl_locked (b_lock (nx bhead y (pv f y ?C2) b))" if "b \<in> set (zs @ [y])" for b
    using that assms by (auto simp: fresh_def nx_def pv_def)
  moreover have "b_dev (nx bhead y (pv f y ?C2) b) = b_dev (B b) \<and> b_refcnt (nx bhead y (pv f y ?C2) b) = b_refcnt (B b)" for b
    using assms(1) by (simp add: fresh_def nx_def pv_def C1_def)
  ultimately show ?thesis unfolding fresh_def by simp
qed

lemma binit_wp:
  "wp binit (\<lambda>_ s'. fresh (bufs s) [0..<NBUF] (bufs s') \<and> dblocks s' = dblocks s \<and> procs s' = procs s) s"
proof -
  let ?I = "\<lambda>ys s'. \<exists>zs. zs @ ys = [0..<NBUF] \<and> fresh (bufs s) zs (bufs s') \<and> dblocks s' = dblocks s \<and> procs s' = procs s"
  let ?f = "\<lambda>b. bind (gets (\<lambda>s. b_next (bufs s bhead))) (\<lambda>f.
        seq (set_next b f) (
        seq (set_prev b bhead) (
        seq (initsleeplock (SLbuf b) ''buffer'')
        (link_front b))))"
  have step: "wp (?f y) (\<lambda>_. ?I ys) s'" if "?I (y # ys) s'" for y ys s'
  proof -
    from that obtain zs where z: "zs @ y # ys = [0..<NBUF]" "fresh (bufs s) zs (bufs s')" "dblocks s' = dblocks s" "procs s' = procs s" by blast
    have "distinct (zs @ y # ys)" "set (zs @ y # ys) = {..<NBUF}" using z(1) by auto
    then have d: "distinct (bhead # y # zs)" by auto
    then have y30: "y \<noteq> bhead" by auto
    note F = fresh_Suc [OF z(2) d]
    have "(zs @ [y]) @ ys = [0..<NBUF]" using z(1) by simp
    then show ?thesis
      using F [where l = "b_lock (bufs s' y)" and nm = "''buffer''"] z(3,4) y30
      by (simp add: link_front_def initsleeplock_def initlock_def upd_sl_def wp_def)
        (intro exI [of _ "zs @ [y]"], simp)
  qed
  have "?I [0..<NBUF] (s\<lparr>bufs := nx bhead bhead (pv bhead bhead (bufs s))\<rparr>)"
    by (intro exI [of _ "[]"]) (simp add: fresh_def nx_def pv_def)
  then have "?I [0..<NBUF] (s\<lparr>lks := upd_spin LBcache (\<lambda>k. k\<lparr>lk_name := ''bcache'', locked := False, lk_cpu := None\<rparr>) (lks s),
      bufs := nx bhead bhead (pv bhead bhead (bufs s))\<rparr>)"
    by simp
  from wp_forM [where I = ?I and f = ?f, OF this step]
  have "wp (forM [0..<NBUF] ?f) (\<lambda>_ s'. fresh (bufs s) [0..<NBUF] (bufs s') \<and> dblocks s' = dblocks s \<and> procs s' = procs s)
      (s\<lparr>lks := upd_spin LBcache (\<lambda>k. k\<lparr>lk_name := ''bcache'', locked := False, lk_cpu := None\<rparr>) (lks s),
      bufs := nx bhead bhead (pv bhead bhead (bufs s))\<rparr>)"
    by simp
  then show ?thesis
    unfolding binit_def wp_seq by (simp add: initlock_def wp_def [of "set_prev _ _"] wp_def [of "set_next _ _"])
qed

text \<open>C25: \<open>binit\<close> establishes the invariant of the buffer cache: whatever the links were before, the
  30 buffers end up in one circular list, each once, doubly linked through the head, all of them
  unlocked, and as no buffer refers to the device yet, the cache agrees with the disk.\<close>

theorem binit_correct:
  assumes "\<forall>b < NBUF. b_dev (bufs s b) \<noteq> dv \<and> b_refcnt (bufs s b) = 0"
  shows "wp binit (\<lambda>_ s'. blist (bufs s') (rev [0..<NBUF]) \<and> bcore dv i (\<lambda>_. 0) Map.empty Map.empty (dblocks s) (bufs s')) s"
proof (rule wp_mono [OF binit_wp])
  fix a s' assume f: "fresh (bufs s) [0..<NBUF] (bufs s') \<and> dblocks s' = dblocks s \<and> procs s' = procs s"
  then have "cell dv (\<lambda>_. 0) Map.empty Map.empty (dblocks s) (bufs s' b)" "\<not> caches dv bn (bufs s' b)" if "b < NBUF" for b bn
    using assms that by (auto simp: fresh_def cell_def caches_def)
  moreover have "blist (bufs s') (rev [0..<NBUF])"
    using f by (auto simp: fresh_def blist_def)
  ultimately show "blist (bufs s') (rev [0..<NBUF]) \<and> bcore dv i (\<lambda>_. 0) Map.empty Map.empty (dblocks s) (bufs s')"
    by (auto simp: bcore_def)
qed

theorem binit_correct_witness: "wp binit (\<lambda>_ s'. blist (bufs s') (rev [0..<NBUF])) zero_state"
  using binit_correct [of zero_state 1 0] by (rule wp_mono) (simp_all add: zero_state_def zero_buf_def)

text \<open>C26: \<open>bread\<close> returns a locked buffer that holds the current contents of the block: what the
  running transaction has put into the pinned buffer of that block, or else what the disk holds. It
  never evicts a pinned or held buffer, at most one buffer caches a block, and only buffers
  change. Releasing the buffer unmodified restores the state of the cache. The
  requirements are that the reference counts are in order and that fewer than 30 blocks are pinned or held.\<close>

theorem bread_correct:
  assumes "bcache dv p E G R s" "R bn = None" "unat bn < 2 ^ 31" "E bn = 0" "sound E G R"
    and "finite (used E G R)" "card (used E G R) < NBUF \<or> bn \<in> dom G"
  shows "rt (disk_env p) (bread dv bn) (\<lambda>b s'. keep p s s' \<and> bcache dv p E G (R(bn \<mapsto> (b, val G (dblocks s) bn))) s'
     \<and> b_data (bufs s' b) = val G (dblocks s) bn \<and> b_blockno (bufs s' b) = bn \<and> sl_locked (b_lock (bufs s' b))
     \<and> (\<forall>c < NBUF. caches dv bn (bufs s' c) \<longrightarrow> c = b)
     \<and> rt (disk_env p) (brelse b) (\<lambda>_ s''. keep p s s'' \<and> bcache dv p E G R s'') s') s"
proof (rule rt_mono [OF bread_rt [OF assms]])
  fix b s' assume a: "keep p s s' \<and> bcache dv p E G (R(bn \<mapsto> (b, val G (dblocks s) bn))) s'"
  let ?R = "R(bn \<mapsto> (b, val G (dblocks s) bn))"
  have bc: "bcache dv p E G ?R s'" and k: "keep p s s'" using a by simp_all
  have Rb: "?R bn = Some (b, val G (dblocks s) bn)" by simp
  note h = bcache_held [OF bc Rb]
  have D: "dblocks s' = dblocks s" using k by (simp add: keep_def)
  have "rt (disk_env p) (brelse b) (\<lambda>_ s''. keep p s' s'' \<and> bcache dv p E G (?R(bn := None)) s'') s'"
    by (rule brelse_rt [OF bc Rb]) (simp add: D)
  then have "rt (disk_env p) (brelse b) (\<lambda>_ s''. keep p s s'' \<and> bcache dv p E G R s'') s'"
  proof (rule rt_mono)
    fix a s'' assume "keep p s' s'' \<and> bcache dv p E G (?R(bn := None)) s''"
    moreover have "?R(bn := None) = R" using assms(2) by (simp add: fun_upd_idem)
    ultimately show "keep p s s'' \<and> bcache dv p E G R s''" using keep_trans [OF k] by simp
  qed
  moreover have "bcore dv (pid (procs s' p)) E G ?R (dblocks s') (bufs s')" using bc by (simp add: bcache_def)
  then have "\<forall>c < NBUF. caches dv bn (bufs s' c) \<longrightarrow> c = b"
    using h(1,2) unfolding bcore_def by blast
  moreover have "b_blockno (bufs s' b) = bn" using h(2) by (simp add: caches_def)
  ultimately show "keep p s s' \<and> bcache dv p E G ?R s'
     \<and> b_data (bufs s' b) = val G (dblocks s) bn \<and> b_blockno (bufs s' b) = bn \<and> sl_locked (b_lock (bufs s' b))
     \<and> (\<forall>c < NBUF. caches dv bn (bufs s' c) \<longrightarrow> c = b)
     \<and> rt (disk_env p) (brelse b) (\<lambda>_ s''. keep p s s'' \<and> bcache dv p E G R s'') s'"
    using bc k h(4,6) by blast
qed

definition cache_ready :: kstate where
  "cache_ready = disk_ready\<lparr>bufs := \<lambda>i. zero_buf\<lparr>b_next := (if i = 0 then 30 else i - 1), b_prev := (if i = 30 then 0 else i + 1)\<rparr>\<rparr>"

lemma cache_ready_linked: "n \<le> 30 \<Longrightarrow> linked (bufs cache_ready) (n # rev [0..<n] @ [30])"
  by (induction n) (simp_all add: cache_ready_def)

lemma bcache_ready: "bcache 1 0 (\<lambda>_. 0) Map.empty Map.empty cache_ready"
proof -
  have "blist (bufs cache_ready) (rev [0..<NBUF])"
    using cache_ready_linked [of 30] by (auto simp add: blist_def)
  moreover have "quiet 0 cache_ready"
    using quiet_upd(2) [OF quiet_disk_ready] by (simp add: cache_ready_def)
  moreover have "bcore 1 i (\<lambda>_. 0) Map.empty Map.empty (dblocks cache_ready) (bufs cache_ready)" for i
    by (simp add: bcore_def cell_def caches_def cache_ready_def zero_buf_def zero_sleeplock_def)
  ultimately show ?thesis by (auto simp: bcache_def)
qed

theorem bread_correct_witness:
  "rt (disk_env 0) (bread 1 9) (\<lambda>b s'. b_data (bufs s' b) 17 = 9) cache_ready"
proof -
  have "val Map.empty (dblocks cache_ready) 9 17 = 9" by (simp add: val_def cache_ready_def disk_ready_def)
  then show ?thesis
    by (intro rt_mono [OF bread_correct [OF bcache_ready, of 9]]) simp_all
qed

end
