(* ===== verification/Log.thy ===== *)
theory Log
  imports Bio
begin

text \<open>
  \<open>kernel/log.c\<close>: the redo log.  The header block holds \<open>n\<close> and the block numbers as 32-bit
  words; \<open>bld\<close> and \<open>bst\<close> read and write a word of a disk block.
\<close>

section \<open>Words of a disk block\<close>

definition bld :: "nat \<Rightarrow> block \<Rightarrow> nat \<Rightarrow> 'w::len word" where
  "bld n d off = le_load n (\<lambda>i. d (off + i))"

definition bst :: "nat \<Rightarrow> nat \<Rightarrow> 'w::len word \<Rightarrow> block \<Rightarrow> block" where
  "bst n off v d = (\<lambda>i. if off \<le> i \<and> i < off + n then le_byte v (i - off) else d i)"

section \<open>Definitions\<close>

definition upd_log :: "(log \<Rightarrow> log) \<Rightarrow> unit k" where
  "upd_log f = modify (\<lambda>s. s\<lparr>logst := f (logst s)\<rparr>)"

definition set_data :: "nat \<Rightarrow> (block \<Rightarrow> block) \<Rightarrow> unit k" where
  "set_data b f = upd_buf b (\<lambda>x. x\<lparr>b_data := f (b_data x)\<rparr>)"

text \<open>\<open>memmove(to->data, from->data, BSIZE)\<close>: the data of a buffer is exactly \<open>BSIZE\<close> bytes.\<close>

definition copy_block :: "nat \<Rightarrow> nat \<Rightarrow> unit k" where
  "copy_block to from =
     bind (gets (\<lambda>s. b_data (bufs s from))) (\<lambda>d.
     set_data to (\<lambda>e i. if i < BSIZE then d i else e i))"

definition install_trans :: "unit k" where
  "install_trans =
     bind (gets (\<lambda>s. lh_n (lh (logst s)))) (\<lambda>n.
     forM [0..<nat n] (\<lambda>tail.
       bind (gets logst) (\<lambda>l.
       bind (bread (log_dev l) (log_start l + of_nat tail + 1)) (\<lambda>lbuf.
       bind (bread (log_dev l) (lh_block (lh l) tail)) (\<lambda>dbuf.
       seq (copy_block dbuf lbuf) (
       seq (bwrite dbuf) (
       seq (bunpin dbuf) (
       seq (brelse lbuf)
       (brelse dbuf))))))))) "

definition read_head :: "unit k" where
  "read_head =
     bind (gets logst) (\<lambda>l.
     bind (bread (log_dev l) (log_start l)) (\<lambda>b.
     bind (gets (\<lambda>s. b_data (bufs s b))) (\<lambda>d.
     seq (upd_log (\<lambda>l. l\<lparr>lh := (lh l)\<lparr>lh_n := sint (bld 4 d 0 :: u32)\<rparr>\<rparr>)) (
     seq (forM [0..<nat (sint (bld 4 d 0 :: u32))] (\<lambda>i.
        upd_log (\<lambda>l. l\<lparr>lh := (lh l)\<lparr>lh_block := (lh_block (lh l))(i := bld 4 d (4 + 4 * i))\<rparr>\<rparr>)))
     (brelse b)))))"

definition write_head :: "unit k" where
  "write_head =
     bind (gets logst) (\<lambda>l.
     bind (bread (log_dev l) (log_start l)) (\<lambda>b.
     seq (set_data b (bst 4 0 (word_of_int (lh_n (lh l)) :: u32))) (
     seq (forM [0..<nat (lh_n (lh l))] (\<lambda>i.
        set_data b (bst 4 (4 + 4 * i) (lh_block (lh l) i)))) (
     seq (bwrite b)
     (brelse b)))))"

definition recover_from_log :: "unit k" where
  "recover_from_log =
     seq read_head (
     seq install_trans (
     seq (upd_log (\<lambda>l. l\<lparr>lh := (lh l)\<lparr>lh_n := 0\<rparr>\<rparr>))
     write_head))"

text \<open>\<open>sizeof(struct logheader)\<close> is 4 + 4 * LOGSIZE = 124, so the first test never fires.\<close>

definition initlog :: "u32 \<Rightarrow> superblock \<Rightarrow> unit k" where
  "initlog dev sbk =
     seq (panic_if (BSIZE \<le> 4 + 4 * nat LOGSIZE) ''initlog: too big logheader'') (
     seq (initlock LLog ''log'') (
     seq (upd_log (\<lambda>l. l\<lparr>log_start := sb_logstart sbk, log_size := sint (sb_nlog sbk), log_dev := dev\<rparr>))
     recover_from_log))"

definition log_busy :: "kstate \<Rightarrow> bool" where
  "log_busy s \<longleftrightarrow> committing (logst s) \<or>
     lh_n (lh (logst s)) + (outstanding (logst s) + 1) * MAXOPBLOCKS > LOGSIZE"

definition begin_op :: "unit k" where
  "begin_op =
     seq (acquire LLog) (
     bind (gets wake_bound) (\<lambda>n.
     seq (sleep_while n log_busy ChLog LLog) (
     seq (upd_log (\<lambda>l. l\<lparr>outstanding := outstanding l + 1\<rparr>))
     (release LLog))))"

definition write_log :: "unit k" where
  "write_log =
     bind (gets (\<lambda>s. lh_n (lh (logst s)))) (\<lambda>n.
     forM [0..<nat n] (\<lambda>tail.
       bind (gets logst) (\<lambda>l.
       bind (bread (log_dev l) (log_start l + of_nat tail + 1)) (\<lambda>to.
       bind (bread (log_dev l) (lh_block (lh l) tail)) (\<lambda>from.
       seq (copy_block to from) (
       seq (bwrite to) (
       seq (brelse from)
       (brelse to))))))))"

definition commit :: "unit k" where
  "commit =
     bind (gets (\<lambda>s. lh_n (lh (logst s)))) (\<lambda>n.
     whenM (0 < n) (
       seq write_log (
       seq write_head (
       seq install_trans (
       seq (upd_log (\<lambda>l. l\<lparr>lh := (lh l)\<lparr>lh_n := 0\<rparr>\<rparr>))
       write_head)))))"

definition end_op :: "unit k" where
  "end_op =
     seq (acquire LLog) (
     seq (upd_log (\<lambda>l. l\<lparr>outstanding := outstanding l - 1\<rparr>)) (
     bind (gets (\<lambda>s. committing (logst s))) (\<lambda>c.
     seq (panic_if c ''log.committing'') (
     bind (gets (\<lambda>s. outstanding (logst s) = 0)) (\<lambda>do_commit.
     seq (if do_commit then upd_log (\<lambda>l. l\<lparr>committing := True\<rparr>) else wakeup ChLog) (
     seq (release LLog)
     (whenM do_commit (
        seq commit (
        seq (acquire LLog) (
        seq (upd_log (\<lambda>l. l\<lparr>committing := False\<rparr>)) (
        seq (wakeup ChLog)
        (release LLog))))))))))))"

text \<open>The search of \<open>log_write\<close>: the first entry that already names the block, or \<open>n\<close>.\<close>

definition log_slot :: "logheader \<Rightarrow> u32 \<Rightarrow> nat" where
  "log_slot h bn = (case find (\<lambda>i. lh_block h i = bn) [0..<nat (lh_n h)] of
     Some i \<Rightarrow> i | None \<Rightarrow> nat (lh_n h))"

definition log_write :: "nat \<Rightarrow> unit k" where
  "log_write b =
     bind (gets logst) (\<lambda>l.
     seq (panic_if (LOGSIZE \<le> lh_n (lh l) \<or> log_size l - 1 \<le> lh_n (lh l)) ''too big a transaction'') (
     seq (panic_if (outstanding l < 1) ''log_write outside of trans'') (
     seq (acquire LLog) (
     bind (gets (\<lambda>s. log_slot (lh (logst s)) (b_blockno (bufs s b)))) (\<lambda>i.
     bind (gets (\<lambda>s. b_blockno (bufs s b))) (\<lambda>bn.
     seq (upd_log (\<lambda>l. l\<lparr>lh := (lh l)\<lparr>lh_block := (lh_block (lh l))(i := bn)\<rparr>\<rparr>)) (
     bind (gets (\<lambda>s. int i = lh_n (lh (logst s)))) (\<lambda>new.
     seq (whenM new (
        seq (bpin b)
        (upd_log (\<lambda>l. l\<lparr>lh := (lh l)\<lparr>lh_n := lh_n (lh l) + 1\<rparr>\<rparr>))))
     (release LLog)))))))))"

section \<open>Words of a block\<close>

lemma bld_bst_same: "LENGTH('w::len) \<le> 8 * n \<Longrightarrow> bld n (bst n off (v :: 'w word) d) off = v"
proof -
  assume l: "LENGTH('w) \<le> 8 * n"
  have "bld n (bst n off v d) off = (le_load n (le_byte v) :: 'w word)"
    unfolding bld_def by (rule le_load_cong) (simp add: bst_def)
  then show ?thesis using le_load_le_byte [OF l] by simp
qed

lemma bld_bst_other:
  assumes "off + n \<le> off' \<or> off' + m \<le> off"
  shows "bld m (bst n off v d) off' = bld m d off'"
  unfolding bld_def by (rule le_load_cong) (use assms in \<open>auto simp: bst_def\<close>)

section \<open>Writing to the disk through the cache\<close>

lemma rt_forM_upt:
  assumes "I 0 s" and step: "\<And>i s. i < n \<Longrightarrow> I i s \<Longrightarrow> rt R (f i) (\<lambda>_. I (Suc i)) s"
  shows "rt R (forM [0..<n] f) (\<lambda>_. I n) s"
proof -
  have "rt R (forM [i..<n] f) (\<lambda>_. I n) s" if "i \<le> n" "I i s" for i s
    using that
  proof (induction "n - i" arbitrary: i s)
    case 0
    then show ?case by simp
  next
    case (Suc k)
    then have i: "i < n" "[i..<n] = i # [Suc i..<n]" by (simp_all add: upt_conv_Cons)
    have "rt R (f i) (\<lambda>_. rt R (forM [Suc i..<n] f) (\<lambda>_. I n)) s"
      by (rule rt_mono [OF step [OF i(1) Suc.prems(2)]]) (use Suc i in auto)
    then show ?case by (simp only: i(2) forM.simps rt_seq)
  qed
  then show ?thesis using assms(1) by simp
qed

text \<open>\<open>apply_writes ws D\<close> is the disk \<open>D\<close> after the block writes \<open>ws\<close>, in order; \<open>wrote\<close> says that these
  writes reached the disk and that nothing else the file system looks at changed.\<close>

type_synonym writes = "(u32 \<times> block) list"

definition apply_writes :: "writes \<Rightarrow> (u32 \<Rightarrow> block) \<Rightarrow> (u32 \<Rightarrow> block)" where
  "apply_writes ws D = foldl (\<lambda>D w. D(fst w := snd w)) D ws"

lemma apply_writes_simps [simp]:
  "apply_writes [] D = D"
  "apply_writes (w # ws) D = apply_writes ws (D(fst w := snd w))"
  "apply_writes (ws @ vs) D = apply_writes vs (apply_writes ws D)"
  by (simp_all add: apply_writes_def)

definition wrote :: "nat \<Rightarrow> writes \<Rightarrow> kstate \<Rightarrow> kstate \<Rightarrow> bool" where
  "wrote p ws s s' \<longleftrightarrow> rest p s' = rest p s \<and> dblocks s' = apply_writes ws (dblocks s) \<and> dhist s' = dhist s @ ws
     \<and> logst s' = logst s \<and> inodes s' = inodes s"

lemma keep_wrote: "keep p s s' \<longleftrightarrow> wrote p [] s s'"
  by (simp add: keep_def wrote_def)

lemma wrote_refl [simp]: "wrote p [] s s"
  by (simp add: wrote_def)

lemma wrote_trans: "wrote p ws s s' \<Longrightarrow> wrote p vs s' s'' \<Longrightarrow> wrote p (ws @ vs) s s''"
  by (simp add: wrote_def)

text \<open>A block has \<open>BSIZE\<close> bytes.\<close>

definition blk_ok :: "block \<Rightarrow> bool" where
  "blk_ok d \<longleftrightarrow> (\<forall>i \<ge> BSIZE. d i = 0)"

lemma copy_block_rt:
  assumes bc: "bcache dv p E G R s" and t: "R tb = Some (to, e)" and f: "R fb = Some (from, d)"
    and ok: "blk_ok d" "blk_ok e"
  shows "rt (disk_env p) (copy_block to from) (\<lambda>_ s'. wrote p [] s s' \<and> bcache dv p E G (R(tb \<mapsto> (to, d))) s') s"
proof -
  have "(\<lambda>i. if i < BSIZE then b_data (bufs s from) i else b_data (bufs s to) i) = d"
    using ok bcache_held(4) [OF bc t] bcache_held(4) [OF bc f] by (auto simp: blk_ok_def)
  then show ?thesis
    using bcache_data [OF bc t, of d]
    by (simp add: copy_block_def set_data_def upd_buf_def wrote_def)
qed

lemma bread_w:
  assumes "bcache dv p E G R s" "R bn = None" "unat bn < 2 ^ 31" "E bn = 0" "sound E G R"
    and "finite (used E G R)" "card (used E G R) < NBUF \<or> bn \<in> dom G"
    and "\<And>b s'. wrote p [] s s' \<Longrightarrow> bcache dv p E G (R(bn \<mapsto> (b, val G (dblocks s) bn))) s' \<Longrightarrow> Q b s'"
  shows "rt (disk_env p) (bread dv bn) Q s"
  by (rule rt_mono [OF bread_rt [OF assms(1-7)]]) (use assms(8) keep_wrote in blast)

lemma bwrite_w:
  assumes "bcache dv p E G R s" "R bn = Some (b, d)" "unat bn < 2 ^ 31"
    and "\<And>s'. wrote p [(bn, d)] s s' \<Longrightarrow> bcache dv p E G R s' \<Longrightarrow> Q () s'"
  shows "rt (disk_env p) (bwrite b) Q s"
  by (rule rt_mono [OF bwrite_rt [OF assms(1-3)]]) (simp add: assms(4) wrote_def)

lemma brelse_w:
  assumes "bcache dv p E G R s" "R bn = Some (b, d)" "d = val G (dblocks s) bn"
    and "\<And>s'. wrote p [] s s' \<Longrightarrow> bcache dv p E G (R(bn := None)) s' \<Longrightarrow> Q () s'"
  shows "rt (disk_env p) (brelse b) Q s"
  by (rule rt_mono [OF brelse_rt [OF assms(1-3)]]) (simp add: assms(4) keep_wrote)

lemma copy_block_w:
  assumes "bcache dv p E G R s" "R tb = Some (to, e)" "R fb = Some (from, d)" "blk_ok d" "blk_ok e"
    and "\<And>s'. wrote p [] s s' \<Longrightarrow> bcache dv p E G (R(tb \<mapsto> (to, d))) s' \<Longrightarrow> Q () s'"
  shows "rt (disk_env p) (copy_block to from) Q s"
  by (rule rt_mono [OF copy_block_rt [OF assms(1-5)]]) (simp add: assms(6))

section \<open>Copying between the log and the home blocks\<close>

lemma write_log_step:
  assumes bc: "bcache dv p E G Map.empty s" and G: "G bn = Some g" "G lb = None" and E: "E bn = 0" "E lb = 0" "sound E G Map.empty"
    and u: "finite (used E G Map.empty)" "card (used E G Map.empty) < NBUF" and b: "unat lb < 2 ^ 31" "unat bn < 2 ^ 31"
    and ok: "blk_ok g" "blk_ok (dblocks s lb)"
  shows "rt (disk_env p) (bind (bread dv lb) (\<lambda>to. bind (bread dv bn) (\<lambda>from. seq (copy_block to from) (
      seq (bwrite to) (seq (brelse from) (brelse to)))))) (\<lambda>_ s'. wrote p [(lb, g)] s s' \<and> bcache dv p E G Map.empty s') s"
  unfolding rt_bind rt_seq
proof (rule bread_w [OF bc _ b(1) E(2,3) u(1)], goal_cases)
  case (3 to s1)
  let ?L = "val G (dblocks s) lb"
  have ne: "lb \<noteq> bn" using G by auto
  show ?case
  proof (rule bread_w [OF 3(2) _ b(2) E(1)], goal_cases)
    case (5 frm s2)
    let ?R = "\<lambda>d. [lb \<mapsto> (to, d), bn \<mapsto> (frm, g)]"
    have c2: "bcache dv p E G (?R (dblocks s lb)) s2" using 5(2) G by (simp add: val_def)
    show ?case
    proof (rule copy_block_w [where tb = lb and fb = bn, OF c2 _ _ ok], goal_cases)
      case (3 s3)
      then have c3: "bcache dv p E G (?R g) s3" using ne by (simp add: fun_upd_twist)
      show ?case
      proof (rule bwrite_w [where d = g, OF c3 _ b(1)], goal_cases)
        case (2 s4)
        show ?case
        proof (rule brelse_w [where bn = bn and d = g, OF 2(2)], goal_cases)
          case (3 s5)
          then have c5: "bcache dv p E G [lb \<mapsto> (to, g)] s5" using ne by (simp add: fun_upd_twist)
          show ?case
            by (rule brelse_w [where bn = lb and d = g, OF c5]) (use 3(1) 2(1) \<open>wrote p [] s2 s3\<close> \<open>wrote p [] s1 s2\<close> \<open>wrote p [] s s1\<close> G in
              \<open>auto simp: wrote_def val_def\<close>)
        qed (use G in \<open>simp_all add: val_def\<close>)
      qed (use ne in simp)
    qed (use ne in simp_all)
  qed (use ne G E u in \<open>auto simp: sound_def used_def\<close>)
qed (use u in simp_all)

text \<open>\<open>E'\<close> and \<open>G'\<close> are what \<open>bunpin\<close> leaves: the block is no longer pinned, or its buffer has lost a
  reference.\<close>

lemma install_step:
  assumes bc: "bcache dv p E G Map.empty s" and G: "G lb = None" "lb \<noteq> bn" and E: "E bn = 0" "E lb = 0" "sound E G Map.empty"
    and u: "finite (used E G Map.empty)" "Suc (card (used E G Map.empty)) < NBUF \<or> card (used E G Map.empty) < NBUF \<and> bn \<in> dom G"
    and b: "unat lb < 2 ^ 31" "unat bn < 2 ^ 31" and ok: "blk_ok (dblocks s lb)" "blk_ok (val G (dblocks s) bn)"
    and un: "\<And>R c s. bcache dv p E G R s \<Longrightarrow> R bn = Some (c, dblocks s lb) \<Longrightarrow>
       rt (disk_env p) (bunpin c) (\<lambda>_ s'. keep p s s' \<and> bcache dv p E' G' R s') s"
    and G': "G' lb = None" "G' bn = None"
  shows "rt (disk_env p) (bind (bread dv lb) (\<lambda>lbuf. bind (bread dv bn) (\<lambda>dbuf. seq (copy_block dbuf lbuf) (
      seq (bwrite dbuf) (seq (bunpin dbuf) (seq (brelse lbuf) (brelse dbuf)))))))
      (\<lambda>_ s'. wrote p [(bn, dblocks s lb)] s s' \<and> bcache dv p E' G' Map.empty s') s"
  unfolding rt_bind rt_seq
proof (rule bread_w [OF bc _ b(1) E(2,3) u(1)], goal_cases)
  case (3 l s1)
  let ?g = "dblocks s lb"
  have c1: "bcache dv p E G [lb \<mapsto> (l, ?g)] s1" and D1: "dblocks s1 = dblocks s" using 3 G by (simp_all add: val_def wrote_def)
  have us: "used E G [lb \<mapsto> (l, ?g)] = insert lb (used E G Map.empty)" by (auto simp: used_def)
  show ?case
  proof (rule bread_w [OF c1 _ b(2) E(1)], goal_cases)
    case (5 d s2)
    let ?R = "\<lambda>e. [lb \<mapsto> (l, ?g), bn \<mapsto> (d, e)]"
    show ?case
    proof (rule copy_block_w [where tb = bn and fb = lb, OF 5(2) _ _ ok], goal_cases)
      case (3 s3)
      then have c3: "bcache dv p E G (?R ?g) s3" using G by simp
      show ?case
      proof (rule bwrite_w [where d = ?g, OF c3 _ b(2)], goal_cases)
        case (2 s4)
        have D4: "dblocks s4 = (dblocks s)(bn := ?g)"
          using 2(1) \<open>wrote p [] s2 s3\<close> 5(1) D1 by (simp add: wrote_def)
        then have "?R ?g bn = Some (d, dblocks s4 lb)" using G by simp
        then show ?case
        proof (rule rt_mono [OF un [OF 2(2)]], goal_cases)
          case (1 _ s5)
          then have c5: "bcache dv p E' G' (?R ?g) s5" and w5: "wrote p [] s4 s5" by (simp_all add: keep_wrote)
          then have D5: "dblocks s5 = (dblocks s)(bn := ?g)" using D4 by (simp add: wrote_def)
          show ?case
          proof (rule brelse_w [where bn = lb and d = ?g, OF c5], goal_cases)
            case (3 s6)
            then have c6: "bcache dv p E' G' [bn \<mapsto> (d, ?g)] s6" using G by (simp add: fun_upd_twist)
            have D6: "dblocks s6 = (dblocks s)(bn := ?g)" using 3(1) D5 by (simp add: wrote_def)
            have w: "wrote p ([] @ [] @ [] @ [(bn, ?g)] @ [] @ [] @ []) s s7" if "wrote p [] s6 s7" for s7
              by (intro wrote_trans) (fact+)
            show ?case
              by (rule brelse_w [where bn = bn and d = ?g, OF c6]) (use D6 G' w in \<open>simp_all add: val_def\<close>)
          qed (use G G' D5 in \<open>simp_all add: val_def\<close>)
        qed
      qed (use G in simp)
    qed (use G D1 in \<open>simp_all\<close>)
  qed (use G E u us in \<open>auto simp: sound_def card_insert_if\<close>)
qed (use u in auto)

section \<open>The layout of the log\<close>

definition home :: "log \<Rightarrow> u32 list" where
  "home L = map (lh_block (lh L)) [0..<nat (lh_n (lh L))]"

definition slot :: "log \<Rightarrow> nat \<Rightarrow> u32" where
  "slot L i = log_start L + of_nat i + 1"

definition log_area :: "log \<Rightarrow> u32 set" where
  "log_area L = {bn. unat (log_start L) \<le> unat bn \<and> unat bn < unat (log_start L) + nat LOGSIZE}"

definition log_wf :: "log \<Rightarrow> bool" where
  "log_wf L \<longleftrightarrow> 0 \<le> lh_n (lh L) \<and> lh_n (lh L) < LOGSIZE \<and> unat (log_start L) + nat LOGSIZE < 2 ^ 31
     \<and> distinct (home L) \<and> (\<forall>bn \<in> set (home L). bn \<notin> log_area L \<and> unat bn < 2 ^ 31)"

lemma unat_slot:
  assumes "log_wf L" "i < nat LOGSIZE"
  shows "unat (slot L i) = unat (log_start L) + i + 1"
proof -
  define w :: u32 where "w = of_nat (Suc i)"
  have w: "unat w = Suc i" using assms(2) unfolding w_def unat_of_nat by (simp add: take_bit_eq_mod)
  then have "unat (log_start L + w) = unat (log_start L) + Suc i"
    using assms(1) assms(2) by (subst unat_add_lem [THEN iffD1]) (simp_all add: log_wf_def)
  moreover have "slot L i = log_start L + w" by (simp add: slot_def w_def)
  ultimately show ?thesis by simp
qed

lemma slot_in [simp]: "log_wf L \<Longrightarrow> Suc i < nat LOGSIZE \<Longrightarrow> slot L i \<in> log_area L"
  using unat_slot [of L i] by (simp add: log_area_def)

lemma start_in [simp]: "log_start L \<in> log_area L"
  by (simp add: log_area_def)

lemma slot_inj: "log_wf L \<Longrightarrow> i < nat LOGSIZE \<Longrightarrow> j < nat LOGSIZE \<Longrightarrow> slot L i = slot L j \<longleftrightarrow> i = j"
  using unat_slot [of L i] unat_slot [of L j] by (metis add_right_cancel add_left_cancel)

lemma slot_start: "log_wf L \<Longrightarrow> i < nat LOGSIZE \<Longrightarrow> slot L i \<noteq> log_start L"
  using unat_slot [of L i] by (metis add.assoc add_cancel_left_right nat.distinct(1) Suc_eq_plus1)

lemma apply_writes_other: "m \<notin> fst ` set ws \<Longrightarrow> apply_writes ws D m = D m"
  by (induction ws arbitrary: D) auto

lemma apply_writes_map:
  assumes "distinct (map f xs)" "x \<in> set xs"
  shows "apply_writes (map (\<lambda>x. (f x, g x)) xs) D (f x) = g x"
  using assms
proof (induction xs arbitrary: D)
  case (Cons y ys)
  then show ?case
    by (cases "f x = f y") (auto simp: apply_writes_other image_image)
qed simp

lemma apply_writes_ok: "(\<And>m. blk_ok (D m)) \<Longrightarrow> (\<And>w. w \<in> set ws \<Longrightarrow> blk_ok (snd w)) \<Longrightarrow> blk_ok (apply_writes ws D m)"
proof (induction ws arbitrary: D)
  case (Cons w ws)
  show ?case unfolding apply_writes_simps by (rule Cons.IH) (use Cons.prems in auto)
qed simp

lemma wrote_dblocks: "wrote p ws s s' \<Longrightarrow> dblocks s' = apply_writes ws (dblocks s)"
  by (simp add: wrote_def)

lemma wrote_logst: "wrote p ws s s' \<Longrightarrow> logst s' = logst s"
  by (simp add: wrote_def)

definition log_writes :: "log \<Rightarrow> (nat \<Rightarrow> block) \<Rightarrow> nat \<Rightarrow> writes" where
  "log_writes L g n = map (\<lambda>i. (slot L i, g i)) [0..<n]"

definition home_writes :: "log \<Rightarrow> (nat \<Rightarrow> block) \<Rightarrow> nat \<Rightarrow> writes" where
  "home_writes L g n = map (\<lambda>i. (lh_block (lh L) i, g i)) [0..<n]"

lemma log_writes_simps [simp]:
  "log_writes L g 0 = []" "log_writes L g (Suc n) = log_writes L g n @ [(slot L n, g n)]"
  "home_writes L g 0 = []" "home_writes L g (Suc n) = home_writes L g n @ [(lh_block (lh L) n, g n)]"
  by (simp_all add: log_writes_def home_writes_def)

lemma log_wf_n: "log_wf L \<Longrightarrow> nat (lh_n (lh L)) < nat LOGSIZE"
  by (simp add: log_wf_def nat_less_iff)

lemma log_wf_entry:
  assumes "log_wf L" "i < nat (lh_n (lh L))"
  shows "i < nat LOGSIZE" "lh_block (lh L) i \<in> set (home L)" "lh_block (lh L) i \<notin> log_area L" "unat (lh_block (lh L) i) < 2 ^ 31"
    "slot L i \<in> log_area L" "unat (slot L i) < 2 ^ 31" "slot L i \<notin> set (home L)" "lh_block (lh L) i \<noteq> slot L i"
proof -
  show i: "i < nat LOGSIZE" using log_wf_n [OF assms(1)] assms(2) by linarith
  show h: "lh_block (lh L) i \<in> set (home L)" using assms(2) by (simp add: home_def)
  then show a: "lh_block (lh L) i \<notin> log_area L" "unat (lh_block (lh L) i) < 2 ^ 31" using assms(1) by (simp_all add: log_wf_def)
  show sl: "slot L i \<in> log_area L" using assms log_wf_n [OF assms(1)] by (intro slot_in) linarith+
  then show "slot L i \<notin> set (home L)" "lh_block (lh L) i \<noteq> slot L i" using assms(1) a by (auto simp: log_wf_def)
  have "unat (log_start L) + i + 1 < 2 ^ 31" using assms(1) i by (simp add: log_wf_def)
  then show "unat (slot L i) < 2 ^ 31" using unat_slot [OF assms(1) i] by simp
qed

lemma card_home: "log_wf L \<Longrightarrow> card (set (home L)) < NBUF"
  using card_length [of "home L"] log_wf_n [of L] by (simp add: home_def)

lemma write_log_rt:
  assumes L: "logst s = L" and bc: "bcache (log_dev L) p (\<lambda>_. 0) G Map.empty s" and wf: "log_wf L"
    and G: "dom G = set (home L)" and ok: "\<And>m. blk_ok (dblocks s m)" "\<And>m d. G m = Some d \<Longrightarrow> blk_ok d"
  shows "rt (disk_env p) write_log (\<lambda>_ s'. wrote p (log_writes L (\<lambda>i. the (G (lh_block (lh L) i))) (nat (lh_n (lh L)))) s s'
     \<and> bcache (log_dev L) p (\<lambda>_. 0) G Map.empty s') s"
proof -
  define n where "n = nat (lh_n (lh L))"
  define g where "g = (\<lambda>i. the (G (lh_block (lh L) i)))"
  note en = log_wf_entry [OF wf, folded n_def]
  have gi: "G (lh_block (lh L) i) = Some (g i)" and sl: "G (slot L i) = None" if "i < n" for i
    using en(2,7) [OF that] by (auto simp: g_def G [symmetric] domIff)
  let ?I = "\<lambda>i s'. wrote p (log_writes L g i) s s' \<and> bcache (log_dev L) p (\<lambda>_. 0) G Map.empty s'"
  have "rt (disk_env p) (forM [0..<n] (\<lambda>tail. bind (gets logst) (\<lambda>l.
       bind (bread (log_dev l) (log_start l + of_nat tail + 1)) (\<lambda>to.
       bind (bread (log_dev l) (lh_block (lh l) tail)) (\<lambda>from.
       seq (copy_block to from) (seq (bwrite to) (seq (brelse from) (brelse to)))))))) (\<lambda>_. ?I n) s"
  proof (rule rt_forM_upt, goal_cases)
    case 1
    then show ?case using bc by simp
  next
    case (2 i s')
    then have w: "wrote p (log_writes L g i) s s'" and c: "bcache (log_dev L) p (\<lambda>_. 0) G Map.empty s'" by simp_all
    have "blk_ok (g j)" if "j < i" for j using ok(2) gi [of j] 2(1) that by simp
    then have "blk_ok (apply_writes (log_writes L g i) (dblocks s) m)" for m
      by (intro apply_writes_ok [OF ok(1)]) (auto simp: log_writes_def)
    then have D: "blk_ok (dblocks s' (slot L i))" using wrote_dblocks [OF w] by simp
    note step = write_log_step [where bn = "lh_block (lh L) i" and lb = "slot L i" and g = "g i", OF c gi [OF 2(1)] sl [OF 2(1)]
      _ _ _ _ _ en(6,4) [OF 2(1)] ok(2) [OF gi [OF 2(1)]] D]
    have ll: "logst s' = L" using wrote_logst [OF w] L by simp
    show ?case
      unfolding rt_bind [of _ "gets logst"] rt_gets ll slot_def [symmetric]
      by (rule rt_mono [OF step]) (use card_home [OF wf] G wrote_trans [OF w] in simp_all)
  qed
  then show ?thesis by (simp add: write_log_def L n_def g_def)
qed

lemma home_writes_slot:
  assumes "log_wf L" "i \<le> nat (lh_n (lh L))" "m \<in> log_area L"
  shows "apply_writes (home_writes L g i) D m = D m"
  using assms log_wf_entry(3) [OF assms(1)]
  by (intro apply_writes_other) (auto simp: home_writes_def)

text \<open>The loop of \<open>install_trans\<close>, for any account \<open>E\<close>, \<open>G\<close> of what each \<open>bunpin\<close> does.\<close>

lemma install_trans_rt:
  assumes L: "logst s = L" and bc: "bcache (log_dev L) p (E 0) (G 0) Map.empty s" and wf: "log_wf L"
    and ok: "\<And>m. blk_ok (dblocks s m)" "\<And>i m d. G i m = Some d \<Longrightarrow> blk_ok d"
    and dG: "\<And>i. dom (G i) \<subseteq> set (home L)" and E0: "\<And>i m. m \<in> log_area L \<Longrightarrow> E i m = 0"
    and E: "\<And>i. i < nat (lh_n (lh L)) \<Longrightarrow> E i (lh_block (lh L) i) = 0" "\<And>i. sound (E i) (G i) Map.empty"
    and G: "\<And>i. i < nat (lh_n (lh L)) \<Longrightarrow> G (Suc i) (lh_block (lh L) i) = None"
    and u: "\<And>i. used (E i) (G i) Map.empty \<subseteq> set (home L)"
      "\<And>i. i < nat (lh_n (lh L)) \<Longrightarrow> Suc (card (used (E i) (G i) Map.empty)) < NBUF \<or> lh_block (lh L) i \<in> dom (G i)"
    and un: "\<And>i R c d s. i < nat (lh_n (lh L)) \<Longrightarrow> bcache (log_dev L) p (E i) (G i) R s \<Longrightarrow> R (lh_block (lh L) i) = Some (c, d) \<Longrightarrow>
       rt (disk_env p) (bunpin c) (\<lambda>_ s'. keep p s s' \<and> bcache (log_dev L) p (E (Suc i)) (G (Suc i)) R s') s"
  shows "rt (disk_env p) install_trans (\<lambda>_ s'. wrote p (home_writes L (\<lambda>i. dblocks s (slot L i)) (nat (lh_n (lh L)))) s s'
     \<and> bcache (log_dev L) p (E (nat (lh_n (lh L)))) (G (nat (lh_n (lh L)))) Map.empty s') s"
proof -
  define n where "n = nat (lh_n (lh L))"
  note en = log_wf_entry [OF wf, folded n_def]
  let ?g = "\<lambda>i. dblocks s (slot L i)"
  let ?I = "\<lambda>i s'. wrote p (home_writes L ?g i) s s' \<and> bcache (log_dev L) p (E i) (G i) Map.empty s'"
  have "rt (disk_env p) (forM [0..<n] (\<lambda>tail. bind (gets logst) (\<lambda>l.
       bind (bread (log_dev l) (log_start l + of_nat tail + 1)) (\<lambda>lbuf.
       bind (bread (log_dev l) (lh_block (lh l) tail)) (\<lambda>dbuf.
       seq (copy_block dbuf lbuf) (seq (bwrite dbuf) (seq (bunpin dbuf) (seq (brelse lbuf) (brelse dbuf))))))))) (\<lambda>_. ?I n) s"
  proof (rule rt_forM_upt, goal_cases)
    case 1
    then show ?case using bc by simp
  next
    case (2 i s')
    let ?bn = "lh_block (lh L) i" and ?lb = "slot L i"
    have w: "wrote p (home_writes L ?g i) s s'" and c: "bcache (log_dev L) p (E i) (G i) Map.empty s'" using 2 by simp_all
    have D: "blk_ok (dblocks s' m)" for m
      unfolding wrote_dblocks [OF w] by (rule apply_writes_ok [OF ok(1)]) (use ok(1) in \<open>auto simp: home_writes_def\<close>)
    have lb: "dblocks s' ?lb = ?g i"
      using wrote_dblocks [OF w] home_writes_slot [OF wf _ en(5) [OF 2(1)]] 2(1) by (simp add: n_def)
    have Gl: "G j ?lb = None" for j using dG [of j] en(7) [OF 2(1)] by blast
    have v: "blk_ok (val (G i) (dblocks s') ?bn)" using D ok(2) by (simp add: val_def split: option.split)
    have fin: "finite (used (E i) (G i) Map.empty)" "card (used (E i) (G i) Map.empty) < NBUF"
      using u(1) [of i] card_home [OF wf] by (meson finite_subset List.finite_set, meson List.finite_set card_mono order_le_less_trans)
    have room: "Suc (card (used (E i) (G i) Map.empty)) < NBUF \<or> card (used (E i) (G i) Map.empty) < NBUF \<and> ?bn \<in> dom (G i)"
      using u(2) [of i] fin(2) 2(1) by (auto simp: n_def)
    have i: "i < nat (lh_n (lh L))" using 2(1) by (simp add: n_def)
    note step = install_step [where bn = ?bn and lb = ?lb and E' = "E (Suc i)" and G' = "G (Suc i)", OF c Gl en(8) [OF 2(1), symmetric]
      E(1) [OF i] E0 [OF en(5) [OF 2(1)]] E(2) fin(1) room en(6,4) [OF 2(1)] D v un [OF i] Gl G [OF i]]
    have ll: "logst s' = L" using wrote_logst [OF w] L by simp
    show ?case
      unfolding rt_bind [of _ "gets logst"] rt_gets ll slot_def [symmetric]
      by (rule rt_mono [OF step]) (use wrote_trans [OF w] in \<open>simp_all add: lb\<close>)
  qed
  then show ?thesis by (simp add: install_trans_def L n_def)
qed

section \<open>The header block\<close>

lemma forM_snoc: "forM (xs @ [y]) f s = then_do (forM xs f s) (\<lambda>_. f y)"
proof (induction xs arbitrary: s)
  case Nil
  have "then_do r (\<lambda>_. Ok ()) = r" for r :: "(unit, _) outcome" by (induction r) (auto simp: fun_eq_iff)
  then show ?case by (simp add: forM.simps seq_def)
next
  case (Cons x xs)
  then have "forM (xs @ [y]) f = (\<lambda>s. then_do (forM xs f s) (\<lambda>_. f y))" by (simp add: fun_eq_iff)
  then show ?case by (simp add: forM.simps seq_def then_do_assoc)
qed

text \<open>\<open>hdr h d\<close> is the header block that holds \<open>h\<close>, \<open>d\<close> in the bytes that \<open>h\<close> does not fill; \<open>hdr_n\<close> and
  \<open>hdr_block\<close> read it back.\<close>

definition hdr :: "logheader \<Rightarrow> block \<Rightarrow> block" where
  "hdr h d = foldl (\<lambda>d i. bst 4 (4 + 4 * i) (lh_block h i) d) (bst 4 0 (word_of_int (lh_n h) :: u32) d) [0..<nat (lh_n h)]"

definition hdr_n :: "block \<Rightarrow> int" where
  "hdr_n d = sint (bld 4 d 0 :: u32)"

definition hdr_block :: "block \<Rightarrow> nat \<Rightarrow> u32" where
  "hdr_block d i = bld 4 d (4 + 4 * i)"

lemma bst_ok: "blk_ok d \<Longrightarrow> off + n \<le> BSIZE \<Longrightarrow> blk_ok (bst n off v d)"
  by (auto simp: blk_ok_def bst_def)

lemma hdr_fold:
  fixes B :: "nat \<Rightarrow> u32"
  defines "f n d \<equiv> foldl (\<lambda>d i. bst 4 (4 + 4 * i) (B i) d) d [0..<n]"
  shows "bld 4 (f n d) 0 = (bld 4 d 0 :: u32)" "i < n \<Longrightarrow> bld 4 (f n d) (4 + 4 * i) = B i"
    "blk_ok d \<Longrightarrow> n \<le> nat LOGSIZE \<Longrightarrow> blk_ok (f n d)"
proof -
  show "bld 4 (f n d) 0 = (bld 4 d 0 :: u32)"
    unfolding f_def by (induction n) (simp_all add: bld_bst_other)
  show "i < n \<Longrightarrow> bld 4 (f n d) (4 + 4 * i) = B i"
    unfolding f_def
  proof (induction n)
    case (Suc n)
    then show ?case by (cases "i = n") (simp_all add: bld_bst_other bld_bst_same)
  qed simp
  show "blk_ok d \<Longrightarrow> n \<le> nat LOGSIZE \<Longrightarrow> blk_ok (f n d)"
    unfolding f_def by (induction n) (simp_all add: bst_ok)
qed

lemma hdr_read:
  assumes "0 \<le> lh_n h" "lh_n h \<le> LOGSIZE"
  shows "hdr_n (hdr h d) = lh_n h" "i < nat (lh_n h) \<Longrightarrow> hdr_block (hdr h d) i = lh_block h i" "blk_ok d \<Longrightarrow> blk_ok (hdr h d)"
proof -
  have "sint (word_of_int (lh_n h) :: u32) = lh_n h"
    using assms by (simp add: sint_sbintrunc' signed_take_bit_int_eq_self)
  then show "hdr_n (hdr h d) = lh_n h" by (simp add: hdr_n_def hdr_def hdr_fold bld_bst_same)
  show "i < nat (lh_n h) \<Longrightarrow> hdr_block (hdr h d) i = lh_block h i" by (simp add: hdr_block_def hdr_def hdr_fold)
  show "blk_ok d \<Longrightarrow> blk_ok (hdr h d)"
    unfolding hdr_def using assms by (intro hdr_fold bst_ok) simp_all
qed

lemma set_data_w:
  assumes "bcache dv p E G R s" "R bn = Some (b, d)"
    and "\<And>s'. wrote p [] s s' \<Longrightarrow> bcache dv p E G (R(bn \<mapsto> (b, f d))) s' \<Longrightarrow> Q () s'"
  shows "rt (disk_env p) (set_data b f) Q s"
proof -
  have "bcache dv p E G (R(bn \<mapsto> (b, f d))) (s\<lparr>bufs := (bufs s)(b := (bufs s b)\<lparr>b_data := f (b_data (bufs s b))\<rparr>)\<rparr>)"
    using bcache_data [OF assms(1,2), of "f d"] bcache_held(4) [OF assms(1,2)] by simp
  then show ?thesis unfolding set_data_def upd_buf_def rt_modify by (intro assms(3)) (simp_all add: wrote_def)
qed

lemma write_head_rt:
  assumes L: "logst s = L" and bc: "bcache (log_dev L) p E G Map.empty s" and st: "unat (log_start L) < 2 ^ 31"
    and G: "G (log_start L) = None" and E: "E (log_start L) = 0" "sound E G Map.empty"
    and u: "finite (used E G Map.empty)" "card (used E G Map.empty) < NBUF"
  shows "rt (disk_env p) write_head (\<lambda>_ s'. wrote p [(log_start L, hdr (lh L) (dblocks s (log_start L)))] s s'
    \<and> bcache (log_dev L) p E G Map.empty s') s"
  unfolding write_head_def rt_bind rt_seq rt_gets L
proof (rule bread_w [OF bc _ st E u(1)], goal_cases)
  case (3 b s1)
  let ?d = "dblocks s (log_start L)"
  have c1: "bcache (log_dev L) p E G [log_start L \<mapsto> (b, ?d)] s1" using 3 G by (simp add: val_def)
  show ?case
  proof (rule set_data_w [where bn = "log_start L" and d = ?d, OF c1], goal_cases)
    case (2 s2)
    let ?f = "\<lambda>n. foldl (\<lambda>d i. bst 4 (4 + 4 * i) (lh_block (lh L) i) d) (bst 4 0 (word_of_int (lh_n (lh L)) :: u32) ?d) [0..<n]"
    let ?I = "\<lambda>n s'. wrote p [] s2 s' \<and> bcache (log_dev L) p E G [log_start L \<mapsto> (b, ?f n)] s'"
    have "rt (disk_env p) (forM [0..<nat (lh_n (lh L))] (\<lambda>i. set_data b (bst 4 (4 + 4 * i) (lh_block (lh L) i)))) (\<lambda>_. ?I (nat (lh_n (lh L)))) s2"
    proof (rule rt_forM_upt [where I = ?I], goal_cases)
      case 1
      then show ?case using 2(2) by simp
    next
      case (2 i s')
      then have w: "wrote p [] s2 s'" and c: "bcache (log_dev L) p E G [log_start L \<mapsto> (b, ?f i)] s'" by simp_all
      show ?case
        by (rule set_data_w [where bn = "log_start L" and d = "?f i", OF c]) (use wrote_trans [OF w] in simp_all)
    qed
    then show ?case
    proof (rule rt_mono, goal_cases)
      case (1 _ s3)
      then have w3: "wrote p [] s2 s3" and c3: "bcache (log_dev L) p E G [log_start L \<mapsto> (b, hdr (lh L) ?d)] s3"
        by (simp_all add: hdr_def)
      show ?case
      proof (rule bwrite_w [where d = "hdr (lh L) ?d", OF c3 _ st], goal_cases)
        case (2 s4)
        have w: "wrote p ([] @ [] @ [] @ [(log_start L, hdr (lh L) ?d)] @ []) s s5" if "wrote p [] s4 s5" for s5
          by (intro wrote_trans) (fact+)
        show ?case
          by (rule brelse_w [where bn = "log_start L" and d = "hdr (lh L) ?d", OF 2(2)])
            (use w 2(1) G in \<open>simp_all add: val_def wrote_def [of _ "[_]"]\<close>)
      qed simp
    qed
  qed simp
qed (use u in simp_all)

definition read_lh :: "block \<Rightarrow> logheader \<Rightarrow> logheader" where
  "read_lh d h = h\<lparr>lh_n := hdr_n d, lh_block := \<lambda>i. if i < nat (hdr_n d) then hdr_block d i else lh_block h i\<rparr>"

lemma bcache_logst [simp]: "bcache dv p E G R (s\<lparr>logst := l\<rparr>) = bcache dv p E G R s"
proof -
  have "quiet p (s\<lparr>logst := l\<rparr>) = quiet p s" by (simp add: quiet_def idle_thread_def)
  then show ?thesis by (simp add: bcache_def)
qed

lemma read_head_loop:
  "forM [0..<n] (\<lambda>i. upd_log (\<lambda>l. l\<lparr>lh := (lh l)\<lparr>lh_block := (lh_block (lh l))(i := B i)\<rparr>\<rparr>)) s
   = Ok () (s\<lparr>logst := (logst s)\<lparr>lh := (lh (logst s))\<lparr>lh_block := \<lambda>i. if i < n then B i else lh_block (lh (logst s)) i\<rparr>\<rparr>\<rparr>)"
proof (induction n)
  case (Suc n)
  have "(\<lambda>i. if i < n then B i else lh_block (lh (logst s)) i)(n := B n) = (\<lambda>i. if i < Suc n then B i else lh_block (lh (logst s)) i)"
    by (auto simp: fun_eq_iff)
  then show ?case
    unfolding upt_Suc_append [OF le0] forM_snoc Suc.IH by (simp add: upd_log_def)
qed simp

lemma read_head_rt:
  assumes L: "logst s = L" and bc: "bcache (log_dev L) p E G Map.empty s" and st: "unat (log_start L) < 2 ^ 31"
    and G: "G (log_start L) = None" and E: "E (log_start L) = 0" "sound E G Map.empty"
    and u: "finite (used E G Map.empty)" "card (used E G Map.empty) < NBUF"
  shows "rt (disk_env p) read_head (\<lambda>_ s'. wrote p [] (s\<lparr>logst := L\<lparr>lh := read_lh (dblocks s (log_start L)) (lh L)\<rparr>\<rparr>) s'
    \<and> bcache (log_dev L) p E G Map.empty s') s"
  unfolding read_head_def rt_bind rt_seq rt_gets L
proof (rule bread_w [OF bc _ st E u(1)], goal_cases)
  case (3 b s1)
  let ?d = "dblocks s (log_start L)"
  have c1: "bcache (log_dev L) p E G [log_start L \<mapsto> (b, ?d)] s1" using 3 G by (simp add: val_def)
  have d: "b_data (bufs s1 b) = ?d" using bcache_held(4) [OF c1, of "log_start L"] by simp
  let ?l = "L\<lparr>lh := read_lh ?d (lh L)\<rparr>"
  have c2: "bcache (log_dev L) p E G [log_start L \<mapsto> (b, ?d)] (s1\<lparr>logst := ?l\<rparr>)" using c1 by simp
  have "rt (disk_env p) (brelse b) (\<lambda>_ s'. wrote p [] (s\<lparr>logst := ?l\<rparr>) s' \<and> bcache (log_dev L) p E G Map.empty s') (s1\<lparr>logst := ?l\<rparr>)"
    by (rule brelse_w [where bn = "log_start L" and d = ?d, OF c2]) (use 3(1) G in \<open>simp_all add: val_def wrote_def\<close>)
  then show ?case
    using wrote_logst [OF 3(1)] L
    by (simp add: d upd_log_def [of "\<lambda>l. l\<lparr>lh := lh l\<lparr>lh_n := _\<rparr>\<rparr>"] hdr_n_def [symmetric] hdr_block_def [symmetric]
      rt_Ok [where m = "forM _ _", OF read_head_loop] read_lh_def cong: if_cong)
qed (use u in simp_all)

end
