(* ===== verification/Transaction.thy ===== *)
theory Transaction
  imports Log
begin

text \<open>
  The log as a transaction mechanism: what \<open>commit\<close> and \<open>recover_from_log\<close> write to the disk, what a
  crash between any two of these writes leaves behind, and the operations that open a
  transaction, add a block to it and close it.
\<close>

section \<open>Commit\<close>

lemma home_distinct:
  assumes "log_wf L" "i < nat (lh_n (lh L))"
  shows "lh_block (lh L) i \<notin> lh_block (lh L) ` {..<i}"
proof
  assume "lh_block (lh L) i \<in> lh_block (lh L) ` {..<i}"
  then obtain j where j: "j < i" "lh_block (lh L) i = lh_block (lh L) j" by auto
  have "inj_on (lh_block (lh L)) {0..<nat (lh_n (lh L))}" using assms(1) by (simp add: log_wf_def home_def distinct_map)
  from inj_onD [OF this j(2)] j(1) assms(2) show False by simp
qed

lemma install_commit_rt:
  assumes L: "logst s = L" and bc: "bcache (log_dev L) p (\<lambda>_. 0) G Map.empty s" and wf: "log_wf L"
    and G: "dom G = set (home L)" and ok: "\<And>m. blk_ok (dblocks s m)" "\<And>m d. G m = Some d \<Longrightarrow> blk_ok d"
  shows "rt (disk_env p) install_trans (\<lambda>_ s'. wrote p (home_writes L (\<lambda>i. dblocks s (slot L i)) (nat (lh_n (lh L)))) s s'
     \<and> bcache (log_dev L) p (\<lambda>_. 0) Map.empty Map.empty s') s"
proof -
  let ?H = "\<lambda>i. lh_block (lh L) ` {..<i}" and ?n = "nat (lh_n (lh L))"
  define G' where "G' i = G |` (- ?H i)" for i
  have G0: "G' 0 = G" by (simp add: G'_def restrict_map_def fun_eq_iff)
  have "set (home L) = ?H ?n" by (auto simp: home_def)
  then have Gn: "G' ?n = Map.empty" using G by (auto simp: G'_def restrict_map_def fun_eq_iff domIff)
  have Gi: "G' i (lh_block (lh L) i) \<noteq> None" "G' (Suc i) = (G' i)(lh_block (lh L) i := None)" if "i < ?n" for i
  proof -
    have "lh_block (lh L) i \<in> dom G" using log_wf_entry(2) [OF wf that] by (simp add: G)
    then show "G' i (lh_block (lh L) i) \<noteq> None" using home_distinct [OF wf that] by (auto simp: G'_def restrict_map_def)
    show "G' (Suc i) = (G' i)(lh_block (lh L) i := None)"
      by (auto simp: G'_def restrict_map_def fun_eq_iff lessThan_Suc)
  qed
  have "rt (disk_env p) install_trans (\<lambda>_ s'. wrote p (home_writes L (\<lambda>i. dblocks s (slot L i)) ?n) s s'
     \<and> bcache (log_dev L) p (\<lambda>_. 0) (G' ?n) Map.empty s') s"
  proof (rule install_trans_rt [where E = "\<lambda>_ _. 0" and G = G', OF L _ wf ok(1)], goal_cases)
    case (10 i R c d s')
    then show ?case using bunpin_rt [OF 10(2,3) Gi(1) [OF 10(1)]] Gi(2) [OF 10(1)] by simp
  qed (use bc G0 G ok(2) Gi in \<open>auto simp: G'_def restrict_map_def split: if_splits\<close>)
  then show ?thesis by (simp add: Gn)
qed

definition commit_writes :: "log \<Rightarrow> (nat \<Rightarrow> block) \<Rightarrow> (u32 \<Rightarrow> block) \<Rightarrow> writes" where
  "commit_writes L g D =
     log_writes L g (nat (lh_n (lh L))) @
     [(log_start L, hdr (lh L) (D (log_start L)))] @
     home_writes L g (nat (lh_n (lh L))) @
     [(log_start L, hdr ((lh L)\<lparr>lh_n := 0\<rparr>) (hdr (lh L) (D (log_start L))))]"

lemma log_writes_lookup:
  assumes wf: "log_wf L" and n: "n \<le> nat (lh_n (lh L))"
  shows "i < n \<Longrightarrow> apply_writes (log_writes L g n) D (slot L i) = g i"
    and "m \<notin> slot L ` {..<n} \<Longrightarrow> apply_writes (log_writes L g n) D m = D m"
    and "apply_writes (log_writes L g n) D (log_start L) = D (log_start L)"
proof -
  have n30: "j < nat LOGSIZE" if "j < n" for j using that n log_wf_n [OF wf] by linarith
  have "distinct (map (slot L) [0..<n])" using slot_inj [OF wf n30 n30] by (auto simp: distinct_map inj_on_def)
  then show "i < n \<Longrightarrow> apply_writes (log_writes L g n) D (slot L i) = g i"
    unfolding log_writes_def by (rule apply_writes_map) simp
  show "m \<notin> slot L ` {..<n} \<Longrightarrow> apply_writes (log_writes L g n) D m = D m" for m
    by (rule apply_writes_other) (auto simp: log_writes_def)
  have "log_start L \<notin> slot L ` {..<n}" using slot_start [OF wf n30] by (metis imageE lessThan_iff)
  then show "apply_writes (log_writes L g n) D (log_start L) = D (log_start L)"
    by (intro apply_writes_other) (auto simp: log_writes_def)
qed

lemma home_writes_lookup:
  assumes wf: "log_wf L" and n: "n \<le> nat (lh_n (lh L))"
  shows "i < n \<Longrightarrow> apply_writes (home_writes L g n) D (lh_block (lh L) i) = g i"
    and "m \<notin> lh_block (lh L) ` {..<n} \<Longrightarrow> apply_writes (home_writes L g n) D m = D m"
proof -
  have "distinct (home L)" using wf by (simp add: log_wf_def)
  then have "distinct (map (lh_block (lh L)) [0..<n])" using n by (auto simp: home_def distinct_map inj_on_def)
  then show "i < n \<Longrightarrow> apply_writes (home_writes L g n) D (lh_block (lh L) i) = g i"
    unfolding home_writes_def by (rule apply_writes_map) simp
  show "m \<notin> lh_block (lh L) ` {..<n} \<Longrightarrow> apply_writes (home_writes L g n) D m = D m"
    by (rule apply_writes_other) (auto simp: home_writes_def)
qed

lemma wrote_logst_upd: "wrote p ws s s' \<Longrightarrow> wrote p ws (s\<lparr>logst := l\<rparr>) (s'\<lparr>logst := l\<rparr>)"
  by (simp add: wrote_def)

lemma commit_rt:
  assumes L: "logst s = L" and bc: "bcache (log_dev L) p (\<lambda>_. 0) G Map.empty s" and wf: "log_wf L" and n: "0 < lh_n (lh L)"
    and G: "dom G = set (home L)" and ok: "\<And>m. blk_ok (dblocks s m)" "\<And>m d. G m = Some d \<Longrightarrow> blk_ok d"
  defines "g \<equiv> \<lambda>i. the (G (lh_block (lh L) i))" and "L' \<equiv> L\<lparr>lh := (lh L)\<lparr>lh_n := 0\<rparr>\<rparr>"
  shows "rt (disk_env p) commit (\<lambda>_ s'. wrote p (commit_writes L g (dblocks s)) (s\<lparr>logst := L'\<rparr>) s'
     \<and> bcache (log_dev L) p (\<lambda>_. 0) Map.empty Map.empty s') s"
proof -
  let ?n = "nat (lh_n (lh L))" and ?st = "log_start L" and ?D = "dblocks s"
  let ?h = "hdr (lh L) (?D ?st)"
  have st: "unat ?st < 2 ^ 31" using wf by (simp add: log_wf_def)
  have "?st \<notin> set (home L)" using wf start_in [of L] by (auto simp: log_wf_def)
  then have Gst: "G ?st = None" by (simp add: G [symmetric] domIff)
  have fin: "finite (used (\<lambda>_. 0) G Map.empty)" "card (used (\<lambda>_. 0) G Map.empty) < NBUF" using G card_home [OF wf] by simp_all
  have c0: "(0 < lh_n (lh (logst s))) = True" using n L by simp
  have gok: "blk_ok (g i)" if "i < ?n" for i using log_wf_entry(2) [OF wf that] ok(2) by (auto simp: g_def G [symmetric])
  have h_ok: "blk_ok ?h" using hdr_read(3) [of "lh L"] wf ok(1) by (simp add: log_wf_def)
  show ?thesis
    unfolding commit_def rt_bind rt_gets c0 rt_whenM rt_seq if_True
  proof (rule rt_mono [OF write_log_rt [OF L bc wf G ok, folded g_def]], goal_cases)
    case (2 _ s1)
    then have w1: "wrote p (log_writes L g ?n) s s1" and c1: "bcache (log_dev L) p (\<lambda>_. 0) G Map.empty s1" by simp_all
    have L1: "logst s1 = L" using w1 L by (simp add: wrote_def)
    have D1: "dblocks s1 ?st = ?D ?st" using wrote_dblocks [OF w1] log_writes_lookup(3) [OF wf] by simp
    show ?case
    proof (rule rt_mono [OF write_head_rt [OF L1 c1 st Gst _ _ fin, simplified D1]], goal_cases)
      case (3 _ s2)
      then have w2: "wrote p [(?st, ?h)] s1 s2" and c2: "bcache (log_dev L) p (\<lambda>_. 0) G Map.empty s2" by simp_all
      have L2: "logst s2 = L" using w2 L1 by (simp add: wrote_def)
      have D2: "dblocks s2 = (apply_writes (log_writes L g ?n) ?D)(?st := ?h)"
        using wrote_dblocks [OF w2] wrote_dblocks [OF w1] by simp
      have "blk_ok (apply_writes (log_writes L g ?n) ?D m)" for m
        by (rule apply_writes_ok [OF ok(1)]) (use gok in \<open>auto simp: log_writes_def\<close>)
      then have ok2: "blk_ok (dblocks s2 m)" for m unfolding D2 using h_ok by simp
      have "dblocks s2 (slot L i) = g i" if "i < ?n" for i
        using D2 log_writes_lookup(1) [OF wf _ that] slot_start [OF wf log_wf_entry(1) [OF wf that]] by simp
      then have hw: "home_writes L (\<lambda>i. dblocks s2 (slot L i)) ?n = home_writes L g ?n" by (simp add: home_writes_def)
      show ?case
      proof (rule rt_mono [OF install_commit_rt [OF L2 c2 wf G ok2 ok(2), unfolded hw]], goal_cases)
        case (2 _ s3)
        then have w3: "wrote p (home_writes L g ?n) s2 s3" and c3: "bcache (log_dev L) p (\<lambda>_. 0) Map.empty Map.empty s3" by simp_all
        let ?s4 = "s3\<lparr>logst := L'\<rparr>"
        have L3: "logst s3 = L" using w3 L2 by (simp add: wrote_def)
        have c4: "bcache (log_dev L') p (\<lambda>_. 0) Map.empty Map.empty ?s4" using c3 by (simp add: L'_def)
        have D4: "dblocks ?s4 (log_start L') = ?h"
          using wrote_dblocks [OF w3] home_writes_slot [OF wf _ start_in] D2 by (simp add: L'_def)
        have w4: "wrote p (log_writes L g ?n @ [(?st, ?h)] @ home_writes L g ?n) (s\<lparr>logst := L'\<rparr>) ?s4"
          by (intro wrote_logst_upd wrote_trans) (fact w1 w2 w3)+
        show ?case
          unfolding upd_log_def rt_modify L3 L'_def [symmetric]
          by (rule rt_mono [OF write_head_rt [OF _ c4, simplified D4]])
            (use st wrote_trans [OF w4] in \<open>simp_all add: L'_def commit_writes_def\<close>)
      qed blast
    qed simp_all
  qed blast
qed

section \<open>Recovery\<close>

text \<open>The log as the header block of the disk \<open>D\<close> describes it, and the disk after its blocks have been
  copied home.\<close>

definition log_of :: "log \<Rightarrow> (u32 \<Rightarrow> block) \<Rightarrow> log" where
  "log_of L D = L\<lparr>lh := read_lh (D (log_start L)) (lh L)\<rparr>"

definition recovered :: "log \<Rightarrow> (u32 \<Rightarrow> block) \<Rightarrow> (u32 \<Rightarrow> block)" where
  "recovered L D = apply_writes (home_writes (log_of L D) (\<lambda>i. D (slot L i)) (nat (hdr_n (D (log_start L))))) D"

text \<open>The accounts of the reference counts after the first \<open>i\<close> blocks have been installed by recovery.\<close>

definition leaked :: "log \<Rightarrow> nat \<Rightarrow> u32 \<Rightarrow> u32" where
  "leaked L i m = (if m \<in> lh_block (lh L) ` {..<i} then - 1 else 0)"

lemma leaked_used: "used (leaked L i) Map.empty Map.empty = lh_block (lh L) ` {..<i}"
  by (auto simp: used_def leaked_def)

lemma install_recover_rt:
  assumes L: "logst s = L" and bc: "bcache (log_dev L) p (\<lambda>_. 0) Map.empty Map.empty s" and wf: "log_wf L"
    and ok: "\<And>m. blk_ok (dblocks s m)"
  shows "rt (disk_env p) install_trans (\<lambda>_ s'. wrote p (home_writes L (\<lambda>i. dblocks s (slot L i)) (nat (lh_n (lh L)))) s s'
     \<and> bcache (log_dev L) p (leaked L (nat (lh_n (lh L)))) Map.empty Map.empty s') s"
proof -
  let ?n = "nat (lh_n (lh L))"
  define E where "E i = leaked L (min i ?n)" for i
  have E0: "E 0 = (\<lambda>_. 0)" and En: "E ?n = leaked L ?n" by (auto simp: E_def leaked_def)
  have Ei: "E i (lh_block (lh L) i) = 0" "E (Suc i) = (E i)(lh_block (lh L) i := E i (lh_block (lh L) i) - 1)" if "i < ?n" for i
    using home_distinct [OF wf that] that by (auto simp: E_def leaked_def fun_eq_iff lessThan_Suc)
  have us: "used (E i) Map.empty Map.empty = lh_block (lh L) ` {..<min i ?n}" for i by (simp add: E_def leaked_used)
  have area: "E i m = 0" if "m \<in> log_area L" for i m
    using log_wf_entry(3) [OF wf] that by (auto simp: E_def leaked_def)
  have room: "Suc (card (used (E i) Map.empty Map.empty)) < NBUF" if "i < ?n" for i
    using card_image_le [of "{..<min i ?n}" "lh_block (lh L)"] log_wf_n [OF wf] that unfolding us by simp
  have home: "used (E i) Map.empty Map.empty \<subseteq> set (home L)" for i unfolding us by (auto simp: home_def)
  have "rt (disk_env p) install_trans (\<lambda>_ s'. wrote p (home_writes L (\<lambda>i. dblocks s (slot L i)) ?n) s s'
     \<and> bcache (log_dev L) p (E ?n) Map.empty Map.empty s') s"
  proof (rule install_trans_rt [where E = E and G = "\<lambda>_. Map.empty", OF L _ wf ok], goal_cases)
    case (10 i R c d s')
    show ?case unfolding Ei(2) [OF 10(1)] by (rule bunpin_unpinned_rt [OF 10(2,3)])
  qed (use bc E0 area room home Ei(1) in \<open>simp_all add: sound_def\<close>)
  then show ?thesis by (simp add: En)
qed

lemma recover_rt:
  assumes L: "logst s = L" and bc: "bcache (log_dev L) p (\<lambda>_. 0) Map.empty Map.empty s" and wf: "log_wf (log_of L (dblocks s))"
    and ok: "\<And>m. blk_ok (dblocks s m)"
  defines "H \<equiv> log_of L (dblocks s)"
  shows "rt (disk_env p) recover_from_log (\<lambda>_ s'. rest p s' = rest p s \<and> logst s' = H\<lparr>lh := (lh H)\<lparr>lh_n := 0\<rparr>\<rparr>
     \<and> dblocks s' = (recovered L (dblocks s))(log_start L := hdr ((lh H)\<lparr>lh_n := 0\<rparr>) (dblocks s (log_start L)))
     \<and> bcache (log_dev L) p (leaked H (nat (lh_n (lh H)))) Map.empty Map.empty s') s"
proof -
  let ?st = "log_start L" and ?D = "dblocks s" and ?H' = "H\<lparr>lh := (lh H)\<lparr>lh_n := 0\<rparr>\<rparr>" and ?n = "nat (lh_n (lh H))"
  have wfH: "log_wf H" using wf by (simp add: H_def)
  have H: "log_start H = ?st" "log_dev H = log_dev L" by (simp_all add: H_def log_of_def)
  have st: "unat ?st < 2 ^ 31" using wfH H by (simp add: log_wf_def)
  show ?thesis
    unfolding recover_from_log_def rt_seq
  proof (rule rt_mono [OF read_head_rt [OF L bc st, folded log_of_def, folded H_def]], goal_cases)
    case (6 _ s1)
    then have w1: "wrote p [] (s\<lparr>logst := H\<rparr>) s1" and c1: "bcache (log_dev H) p (\<lambda>_. 0) Map.empty Map.empty s1" using H by simp_all
    have L1: "logst s1 = H" and D1: "dblocks s1 = ?D" using w1 by (simp_all add: wrote_def)
    have ok1: "blk_ok (dblocks s1 m)" for m using ok D1 by simp
    show ?case
    proof (rule rt_mono [OF install_recover_rt [OF L1 c1 wfH ok1]], goal_cases)
      case (1 _ s2)
      let ?s3 = "s2\<lparr>logst := ?H'\<rparr>"
      have w2: "wrote p (home_writes H (\<lambda>i. ?D (slot H i)) ?n) s1 s2" and c3: "bcache (log_dev ?H') p (leaked H ?n) Map.empty Map.empty ?s3"
        using 1 D1 by simp_all
      have L2: "logst s2 = H" using w2 L1 by (simp add: wrote_def)
      have hn: "lh_n (lh H) = hdr_n (?D ?st)" and sl: "slot H = slot L" by (simp_all add: H_def log_of_def read_lh_def slot_def fun_eq_iff)
      have D2: "dblocks s2 = recovered L ?D"
        using wrote_dblocks [OF w2] D1 by (simp add: recovered_def H_def [symmetric] hn sl)
      have h2: "dblocks s2 ?st = ?D ?st"
        using wrote_dblocks [OF w2] D1 home_writes_slot [OF wfH order_refl start_in] H by simp
      have E: "leaked H ?n ?st = 0" using log_wf_entry(3) [OF wfH] start_in [of H] H by (auto simp: leaked_def)
      have us: "finite (used (leaked H ?n) Map.empty Map.empty)" "card (used (leaked H ?n) Map.empty Map.empty) < NBUF"
        unfolding leaked_used using card_image_le [of "{..<?n}" "lh_block (lh H)"] log_wf_n [OF wfH] by simp_all
      show ?case
        unfolding upd_log_def rt_modify L2
        by (rule rt_mono [OF write_head_rt [OF _ c3 _ _ _ _ us]])
          (use st H E w1 w2 D2 h2 in \<open>simp_all add: sound_def wrote_def\<close>)
    qed
  qed (use bc in simp_all)
qed

section \<open>Crashes\<close>

lemma take_writes:
  "take k (log_writes L g n) = log_writes L g (min k n)" "take k (home_writes L g n) = home_writes L g (min k n)"
  "length (log_writes L g n) = n" "length (home_writes L g n) = n"
proof -
  have "take k [0..<n] = [0..<min k n]" by (cases "k \<le> n") (simp_all add: min_def)
  then show "take k (log_writes L g n) = log_writes L g (min k n)" "take k (home_writes L g n) = home_writes L g (min k n)"
    by (simp_all add: log_writes_def home_writes_def take_map)
qed (simp_all add: log_writes_def home_writes_def)

lemma commit_prefix:
  fixes L g D k
  defines "n \<equiv> nat (lh_n (lh L))" and "h \<equiv> (log_start L, hdr (lh L) (D (log_start L)))"
  obtains (before) j where "j \<le> n" "take k (commit_writes L g D) = log_writes L g j"
    | (committed) j where "j \<le> n" "take k (commit_writes L g D) = log_writes L g n @ [h] @ home_writes L g j"
    | (finished) "take k (commit_writes L g D) = commit_writes L g D"
proof -
  consider "k \<le> n" | j where "j \<le> n" "k = n + 1 + j" | "2 * n + 1 < k"
  proof -
    have "k \<le> n \<or> (k - n - 1 \<le> n \<and> k = n + 1 + (k - n - 1)) \<or> 2 * n + 1 < k" by linarith
    then show thesis using that by blast
  qed
  then show thesis
  proof cases
    case 1
    then show thesis by (intro before [of k]) (simp_all add: commit_writes_def take_writes n_def min_def)
  next
    case 2
    then show thesis by (intro committed [of j]) (simp_all add: commit_writes_def take_writes n_def h_def min_def)
  next
    case 3
    then show thesis by (intro finished) (simp add: commit_writes_def take_writes n_def)
  qed
qed

lemma log_wf_same:
  assumes wf: "log_wf L" and n: "lh_n (lh L') = lh_n (lh L)" and st: "log_start L' = log_start L"
    and b: "\<And>i. i < nat (lh_n (lh L)) \<Longrightarrow> lh_block (lh L') i = lh_block (lh L) i"
  shows "log_wf L'" "home L' = home L" "log_area L' = log_area L" "home_writes L' g (nat (lh_n (lh L))) = home_writes L g (nat (lh_n (lh L)))"
proof -
  show h: "home L' = home L" using n b by (simp add: home_def)
  show a: "log_area L' = log_area L" by (simp add: log_area_def st)
  show "log_wf L'" using wf by (simp add: log_wf_def h a n st)
  show "home_writes L' g (nat (lh_n (lh L))) = home_writes L g (nat (lh_n (lh L)))" using b by (simp add: home_writes_def)
qed

lemma empty_log_recovered:
  assumes "hdr_n (D (log_start L)) = 0" "unat (log_start L) + nat LOGSIZE < 2 ^ 31"
  shows "recovered L D = D" "log_wf (log_of L D)"
  using assms by (simp_all add: recovered_def log_wf_def log_of_def read_lh_def home_def)

lemma log_writes_area:
  assumes "log_wf L" "j \<le> nat (lh_n (lh L))" "m \<notin> log_area L"
  shows "apply_writes (log_writes L g j) D m = D m"
proof (rule log_writes_lookup(2) [OF assms(1,2)])
  show "m \<notin> slot L ` {..<j}" using log_wf_entry(5) [OF assms(1)] assms(2,3) by auto
qed

lemma home_writes_new:
  assumes wf: "log_wf L" and G: "dom G = set (home L)" and m: "m \<in> set (home L) \<or> D' m = D m"
  defines "g \<equiv> \<lambda>i. the (G (lh_block (lh L) i))"
  shows "apply_writes (home_writes L g (nat (lh_n (lh L)))) D' m = val G D m"
proof (cases "m \<in> set (home L)")
  case True
  then obtain i where i: "i < nat (lh_n (lh L))" "m = lh_block (lh L) i" by (auto simp: home_def)
  have "G m = Some (g i)" using True i by (auto simp: g_def G [symmetric])
  then show ?thesis using home_writes_lookup(1) [OF wf order_refl i(1)] i(2) by (simp add: val_def)
next
  case False
  then have "m \<notin> lh_block (lh L) ` {..<nat (lh_n (lh L))}" and "G m = None" using G by (auto simp: home_def)
  then show ?thesis using home_writes_lookup(2) [OF wf order_refl] m False by (simp add: val_def)
qed

lemma commit_disk:
  fixes D
  assumes wf: "log_wf L" and G: "dom G = set (home L)"
  defines "D' \<equiv> apply_writes (commit_writes L (\<lambda>i. the (G (lh_block (lh L) i))) D) D"
  shows "m \<notin> log_area L \<Longrightarrow> D' m = val G D m" "hdr_n (D' (log_start L)) = 0"
proof -
  let ?g = "\<lambda>i. the (G (lh_block (lh L) i))" and ?n = "nat (lh_n (lh L))" and ?h = "hdr (lh L) (D (log_start L))"
  let ?D1 = "(apply_writes (log_writes L ?g ?n) D)(log_start L := ?h)"
  have D': "D' = (apply_writes (home_writes L ?g ?n) ?D1)(log_start L := hdr ((lh L)\<lparr>lh_n := 0\<rparr>) ?h)"
    by (simp add: D'_def commit_writes_def)
  show "hdr_n (D' (log_start L)) = 0" using hdr_read(1) [of "(lh L)\<lparr>lh_n := 0\<rparr>" ?h] by (simp add: D')
  assume m: "m \<notin> log_area L"
  then have ne: "m \<noteq> log_start L" by auto
  then have "?D1 m = D m" using log_writes_area [OF wf order_refl m] by simp
  then show "D' m = val G D m" using home_writes_new [OF wf G, of m ?D1 D] ne by (simp add: D')
qed

text \<open>Whatever prefix of the writes of a commit has reached the disk, the header on the disk describes a
  well-formed log, and copying its blocks home gives all of the old or all of the new contents.\<close>

lemma crash_recovered:
  fixes k
  assumes wf: "log_wf L" and G: "dom G = set (home L)" and h0: "hdr_n (D (log_start L)) = 0" and st: "log_start L0 = log_start L"
  defines "g \<equiv> \<lambda>i. the (G (lh_block (lh L) i))"
  defines "Dk \<equiv> apply_writes (take k (commit_writes L g D)) D"
  shows "log_wf (log_of L0 Dk) \<and> ((\<forall>m. m \<notin> log_area L \<longrightarrow> recovered L0 Dk m = D m)
    \<or> (\<forall>m. m \<notin> log_area L \<longrightarrow> recovered L0 Dk m = val G D m))"
proof -
  let ?n = "nat (lh_n (lh L))" and ?st = "log_start L" and ?h = "hdr (lh L) (D (log_start L))"
  have bound: "unat (log_start L0) + nat LOGSIZE < 2 ^ 31" using wf st by (simp add: log_wf_def)
  show ?thesis
  proof (cases rule: commit_prefix [of L k g D])
    case (before j)
    then have Dk: "Dk = apply_writes (log_writes L g j) D" by (simp add: Dk_def)
    have "hdr_n (Dk (log_start L0)) = 0" using log_writes_lookup(3) [OF wf before(1)] h0 st Dk by simp
    from empty_log_recovered [where D = Dk and L = L0, OF this bound] show ?thesis
      using log_writes_area [OF wf before(1)] Dk by simp
  next
    case (committed j)
    let ?D1 = "(apply_writes (log_writes L g ?n) D)(?st := ?h)" and ?H = "log_of L0 Dk"
    have Dk: "Dk = apply_writes (home_writes L g j) ?D1" using committed(2) by (simp add: Dk_def)
    have hd: "Dk ?st = ?h" using home_writes_slot [OF wf committed(1) start_in] Dk by simp
    have rd: "hdr_n ?h = lh_n (lh L)" "\<And>i. i < ?n \<Longrightarrow> hdr_block ?h i = lh_block (lh L) i"
      using hdr_read [of "lh L"] wf by (simp_all add: log_wf_def)
    have H: "lh_n (lh ?H) = lh_n (lh L)" "log_start ?H = log_start L" "\<And>i. i < ?n \<Longrightarrow> lh_block (lh ?H) i = lh_block (lh L) i"
      using rd by (simp_all add: log_of_def read_lh_def hd st)
    note same = log_wf_same [OF wf H]
    have "Dk (slot L0 i) = g i" if "i < ?n" for i
      using Dk home_writes_slot [OF wf committed(1) log_wf_entry(5) [OF wf that]] log_writes_lookup(1) [OF wf order_refl that]
        slot_start [OF wf log_wf_entry(1) [OF wf that]] st by (simp add: slot_def)
    then have "home_writes ?H (\<lambda>i. Dk (slot L0 i)) ?n = home_writes ?H g ?n" by (simp add: home_writes_def)
    then have rec: "recovered L0 Dk = apply_writes (home_writes L g ?n) Dk"
      using same(4) [of g] rd(1) by (simp add: recovered_def st hd)
    have "Dk m = D m" if "m \<notin> log_area L" "m \<notin> set (home L)" for m
    proof -
      have "m \<notin> lh_block (lh L) ` {..<j}" using that(2) committed(1) by (auto simp: home_def)
      then have "Dk m = ?D1 m" unfolding Dk by (rule home_writes_lookup(2) [OF wf committed(1)])
      then show ?thesis using log_writes_area [OF wf order_refl that(1)] that(1) start_in [of L] by auto
    qed
    then show ?thesis using same(1) rec home_writes_new [OF wf G, of _ Dk D, folded g_def] by metis
  next
    case finished
    then have Dk: "Dk = apply_writes (commit_writes L g D) D" by (simp add: Dk_def)
    have "hdr_n (Dk (log_start L0)) = 0" using commit_disk(2) [OF wf G] st by (simp add: Dk g_def)
    from empty_log_recovered [where D = Dk and L = L0, OF this bound] show ?thesis
      using commit_disk(1) [OF wf G] by (simp add: Dk g_def)
  qed
qed

lemma commit_writes_ok:
  assumes wf: "log_wf L" and G: "dom G = set (home L)" and ok: "\<And>m. blk_ok (D m)" "\<And>m d. G m = Some d \<Longrightarrow> blk_ok d"
    and w: "w \<in> set (commit_writes L (\<lambda>i. the (G (lh_block (lh L) i))) D)"
  shows "blk_ok (snd w)"
proof -
  have "blk_ok (the (G (lh_block (lh L) i)))" if "i < nat (lh_n (lh L))" for i
    using log_wf_entry(2) [OF wf that] ok(2) by (auto simp: G [symmetric])
  moreover have h: "blk_ok (hdr (lh L) (D (log_start L)))" using hdr_read(3) [of "lh L"] wf ok(1) by (simp add: log_wf_def)
  moreover have "blk_ok (hdr ((lh L)\<lparr>lh_n := 0\<rparr>) (hdr (lh L) (D (log_start L))))" by (rule hdr_read(3)) (simp_all add: h)
  ultimately show ?thesis using w by (auto simp: commit_writes_def log_writes_def home_writes_def)
qed

text \<open>\<open>boots t q L\<close>: in state \<open>t\<close> process \<open>q\<close> is about to recover the log of the layout \<open>L\<close>, with an empty cache.\<close>

definition boots :: "kstate \<Rightarrow> nat \<Rightarrow> log \<Rightarrow> bool" where
  "boots t q L \<longleftrightarrow> bcache (log_dev L) q (\<lambda>_. 0) Map.empty Map.empty t \<and> log_dev (logst t) = log_dev L \<and> log_start (logst t) = log_start L"

text \<open>C27: A commit is atomic with respect to crashes. Let \<open>G\<close> be the blocks the transaction has
  modified in pinned buffers. \<open>commit\<close> runs to its end with the new contents at their home
  locations, nothing pinned and an empty log. The blocks it writes to the disk, in order, are some \<open>ws\<close>; if the
  machine stops after any number \<open>k\<close> of these block writes and boots again with that disk,
  \<open>recover_from_log\<close> runs to its end as well, and outside the log area the disk then holds either the
  old contents of all blocks or the new contents of all blocks.\<close>

theorem commit_crash_safe:
  assumes "logst s = L" "bcache (log_dev L) p (\<lambda>_. 0) G Map.empty s" "log_wf L" "dom G = set (home L)"
    and "\<forall>m. blk_ok (val G (dblocks s) m) \<and> blk_ok (dblocks s m)" "hdr_n (dblocks s (log_start L)) = 0"
  shows "rt (disk_env p) commit (\<lambda>_ s'. bcache (log_dev L) p (\<lambda>_. 0) Map.empty Map.empty s' \<and> lh_n (lh (logst s')) = 0
     \<and> (\<forall>m. m \<notin> log_area L \<longrightarrow> dblocks s' m = val G (dblocks s) m) \<and> hdr_n (dblocks s' (log_start L)) = 0
     \<and> (\<exists>ws. dhist s' = dhist s @ ws \<and> (\<forall>k t q. boots t q L \<and> dblocks t = apply_writes (take k ws) (dblocks s) \<longrightarrow>
          rt (disk_env q) recover_from_log (\<lambda>_ t'.
            (\<forall>m. m \<notin> log_area L \<longrightarrow> dblocks t' m = dblocks s m)
            \<or> (\<forall>m. m \<notin> log_area L \<longrightarrow> dblocks t' m = val G (dblocks s) m)) t))) s"
proof -
  define g where "g = (\<lambda>i. the (G (lh_block (lh L) i)))"
  define ws where "ws = commit_writes L g (dblocks s)"
  have ok: "\<And>m. blk_ok (dblocks s m)" "\<And>m d. G m = Some d \<Longrightarrow> blk_ok d"
    using assms(5) by (simp, metis option.simps(5) val_def)
  have wok: "blk_ok (snd w)" if "w \<in> set ws" for w
    by (rule commit_writes_ok [OF assms(3,4) ok]) (use that in \<open>simp_all add: ws_def g_def\<close>)
  have rec: "rt (disk_env q) recover_from_log (\<lambda>_ t'. (\<forall>m. m \<notin> log_area L \<longrightarrow> dblocks t' m = dblocks s m)
     \<or> (\<forall>m. m \<notin> log_area L \<longrightarrow> dblocks t' m = val G (dblocks s) m)) t"
    if b: "boots t q L" and Dt: "dblocks t = apply_writes (take k ws) (dblocks s)" for k t q
  proof -
    have tok: "blk_ok (dblocks t m)" for m
      unfolding Dt by (rule apply_writes_ok, rule ok(1), rule wok, erule in_set_takeD)
    have st: "log_start (logst t) = log_start L" and bc: "bcache (log_dev (logst t)) q (\<lambda>_. 0) Map.empty Map.empty t"
      using b by (simp_all add: boots_def)
    note cr = crash_recovered [where D = "dblocks s" and k = k, OF assms(3,4,6) st, folded g_def, folded ws_def, folded Dt]
    show ?thesis
    proof (rule rt_mono [OF recover_rt [OF refl bc conjunct1 [OF cr] tok]], goal_cases)
      case (1 _ t')
      then have "dblocks t' m = recovered (logst t) (dblocks t) m" if "m \<notin> log_area L" for m
        using that start_in [of L] st by auto
      with conjunct2 [OF cr] show ?case by simp
    qed
  qed
  show ?thesis
  proof (cases "lh_n (lh L) = 0")
    case True
    then have G: "G = Map.empty" using assms(4) by (simp add: home_def)
    then have v: "val G (dblocks s) m = dblocks s m" for m by (simp add: val_def)
    have c: "bcache (log_dev L) p (\<lambda>_. 0) Map.empty Map.empty s" "lh_n (lh (logst s)) = 0" using assms(1,2) True G by simp_all
    have "rt (disk_env q) recover_from_log (\<lambda>_ t'. (\<forall>m. m \<notin> log_area L \<longrightarrow> dblocks t' m = dblocks s m)
        \<or> (\<forall>m. m \<notin> log_area L \<longrightarrow> dblocks t' m = val G (dblocks s) m)) t"
      if "boots t q L \<and> dblocks t = apply_writes (take k []) (dblocks s)" for k t q
      using that by (intro rec [of t q 0]) simp_all
    then show ?thesis
      unfolding commit_def rt_bind rt_gets c(2) rt_whenM using c assms(6) v by (auto intro!: exI [of _ "[]"])
  next
    case False
    then have n: "0 < lh_n (lh L)" using assms(3) by (simp add: log_wf_def)
    show ?thesis
    proof (rule rt_mono [OF commit_rt [OF assms(1-3) n assms(4) ok, folded g_def, folded ws_def]], goal_cases)
      case (2 _ s')
      then have D': "dblocks s' = apply_writes ws (dblocks s)" and H: "dhist s' = dhist s @ ws" and l: "lh_n (lh (logst s')) = 0"
        by (simp_all add: wrote_def)
      have d: "\<forall>m. m \<notin> log_area L \<longrightarrow> dblocks s' m = val G (dblocks s) m" "hdr_n (dblocks s' (log_start L)) = 0"
        using commit_disk [where D = "dblocks s", OF assms(3,4)] by (simp_all add: D' ws_def g_def)
      show ?case
      proof (intro conjI exI [of _ ws] allI impI)
        fix k t q assume "boots t q L \<and> dblocks t = apply_writes (take k ws) (dblocks s)"
        then show "rt (disk_env q) recover_from_log (\<lambda>_ t'. (\<forall>m. m \<notin> log_area L \<longrightarrow> dblocks t' m = dblocks s m)
            \<or> (\<forall>m. m \<notin> log_area L \<longrightarrow> dblocks t' m = val G (dblocks s) m)) t"
          using rec by blast
      qed (use 2 l H d in blast)+
    qed blast
  qed
qed

definition log_ready :: kstate where
  "log_ready = cache_ready\<lparr>dblocks := (\<lambda>_ _. 0),
     bufs := (bufs cache_ready)(0 := (bufs cache_ready 0)\<lparr>b_dev := 1, b_blockno := 40, b_valid := True, b_refcnt := 1,
       b_data := \<lambda>i. if i < 1024 then 7 else 0\<rparr>),
     logst := \<lparr>log_start = 2, log_size = 30, outstanding = 1, committing = False, log_dev = 1, lh = \<lparr>lh_n = 1, lh_block = \<lambda>_. 40\<rparr>\<rparr>\<rparr>"

lemma bcache_log_ready: "bcache 1 0 (\<lambda>_. 0) [40 \<mapsto> (\<lambda>i. if i < 1024 then 7 else 0)] Map.empty log_ready"
proof -
  let ?x = "(bufs cache_ready 0)\<lparr>b_dev := 1, b_blockno := 40, b_valid := True, b_refcnt := 1, b_data := \<lambda>i. if i < 1024 then 7 else 0\<rparr>"
  obtain xs where q: "quiet 0 cache_ready" "blist (bufs cache_ready) xs" using bcache_ready by (auto simp: bcache_def)
  have "blist (bufs log_ready) xs"
    using blist_same_links [OF q(2), of ?x 0] by (simp add: log_ready_def)
  moreover have "quiet 0 log_ready" using q(1) by (simp add: quiet_def idle_thread_def log_ready_def)
  moreover have "bcore 1 i (\<lambda>_. 0) [40 \<mapsto> (\<lambda>i. if i < 1024 then 7 else 0)] Map.empty (dblocks log_ready) (bufs log_ready)" for i
    by (auto simp: bcore_def cell_def caches_def log_ready_def cache_ready_def zero_buf_def zero_sleeplock_def cnt_def val_def intro: exI [of _ 0])
  ultimately show ?thesis by (auto simp: bcache_def)
qed

definition boot_ready :: kstate where
  "boot_ready = cache_ready\<lparr>dblocks := (\<lambda>_ _. 0), logst := (logst log_ready)\<lparr>lh := \<lparr>lh_n = 0, lh_block = \<lambda>_. 0\<rparr>\<rparr>\<rparr>"

lemma boots_ready: "boots boot_ready 0 (logst log_ready)"
proof -
  have "bcore 1 i (\<lambda>_. 0) Map.empty Map.empty D (bufs cache_ready)" for i D
    by (simp add: bcore_def cell_def caches_def cache_ready_def zero_buf_def zero_sleeplock_def)
  moreover obtain xs where q: "quiet 0 cache_ready" "blist (bufs cache_ready) xs" using bcache_ready by (auto simp: bcache_def)
  ultimately have "bcache 1 0 (\<lambda>_. 0) Map.empty Map.empty (cache_ready\<lparr>dblocks := D\<rparr>)" for D
    by (auto simp: bcache_def quiet_def idle_thread_def)
  then show ?thesis by (simp add: boots_def boot_ready_def log_ready_def)
qed

lemma log_ready_wf: "log_wf (logst log_ready)" "set (home (logst log_ready)) = {40}"
  by (simp_all add: log_ready_def log_wf_def log_area_def home_def)

theorem commit_crash_safe_witness:
  "rt (disk_env 0) commit (\<lambda>_ s'. dblocks s' 40 0 = 7
     \<and> rt (disk_env 0) recover_from_log (\<lambda>_ t'. dblocks t' 40 0 \<in> {0, 7}) boot_ready) log_ready"
proof -
  let ?G = "[40 \<mapsto> (\<lambda>i. if i < 1024 then 7 else 0)] :: u32 \<rightharpoonup> block"
  have d: "dblocks log_ready = (\<lambda>_ _. 0)" "dblocks boot_ready = (\<lambda>_ _. 0)" by (simp_all add: log_ready_def boot_ready_def)
  have a: "log_dev (logst log_ready) = 1" "dom ?G = set (home (logst log_ready))" "(40 :: u32) \<notin> log_area (logst log_ready)"
    using log_ready_wf by (simp_all add: log_ready_def log_area_def)
  have v: "val ?G (dblocks log_ready) 40 0 = 7" by (simp add: val_def)
  have z: "hdr_n (dblocks log_ready (log_start (logst log_ready))) = 0" by (simp add: d hdr_n_def bld_def)
  have ok: "\<forall>m. blk_ok (val ?G (dblocks log_ready) m) \<and> blk_ok (dblocks log_ready m)" by (simp add: d blk_ok_def val_def)
  have "rt (disk_env 0) commit (\<lambda>_ s'. bcache 1 0 (\<lambda>_. 0) Map.empty Map.empty s' \<and> lh_n (lh (logst s')) = 0
     \<and> (\<forall>m. m \<notin> log_area (logst log_ready) \<longrightarrow> dblocks s' m = val ?G (dblocks log_ready) m) \<and> hdr_n (dblocks s' (log_start (logst log_ready))) = 0
     \<and> (\<exists>ws. dhist s' = dhist log_ready @ ws \<and> (\<forall>k t q. boots t q (logst log_ready) \<and> dblocks t = apply_writes (take k ws) (dblocks log_ready) \<longrightarrow>
          rt (disk_env q) recover_from_log (\<lambda>_ t'.
            (\<forall>m. m \<notin> log_area (logst log_ready) \<longrightarrow> dblocks t' m = dblocks log_ready m)
            \<or> (\<forall>m. m \<notin> log_area (logst log_ready) \<longrightarrow> dblocks t' m = val ?G (dblocks log_ready) m)) t))) log_ready"
    by (rule commit_crash_safe [where L = "logst log_ready", unfolded a(1)]) (use bcache_log_ready log_ready_wf(1) a(2) ok z in simp_all)
  then show ?thesis
  proof (rule rt_mono, elim conjE exE, goal_cases)
    case (1 _ s' ws)
    have "dblocks boot_ready = apply_writes (take 0 ws) (dblocks log_ready)" by (simp add: d)
    then have "rt (disk_env 0) recover_from_log (\<lambda>_ t'.
            (\<forall>m. m \<notin> log_area (logst log_ready) \<longrightarrow> dblocks t' m = dblocks log_ready m)
            \<or> (\<forall>m. m \<notin> log_area (logst log_ready) \<longrightarrow> dblocks t' m = val ?G (dblocks log_ready) m)) boot_ready"
      using 1(7) boots_ready by blast
    then show ?case using 1(4) a(3) v by (auto elim!: rt_mono simp: d)
  qed
qed


text \<open>C30: Recovery unpins buffers that nobody pinned. When \<open>recover_from_log\<close> installs a committed
  transaction, \<open>install_trans\<close> calls \<open>bunpin\<close> on each home buffer although \<open>log_write\<close> never pinned it,
  so the reference count goes to 0 and the following \<open>brelse\<close> wraps it around: afterwards every home block of the log is
  cached in a buffer with reference count 4294967295, which \<open>bget\<close> never recycles.\<close>

theorem recovery_leaks_buffers:
  assumes "boots s p (logst s)" "log_wf (log_of (logst s) (dblocks s))" "\<forall>m. blk_ok (dblocks s m)"
  shows "rt (disk_env p) recover_from_log (\<lambda>_ s'. \<forall>bn. bn \<in> set (home (log_of (logst s) (dblocks s))) \<longrightarrow>
     (\<exists>b < NBUF. caches (log_dev (logst s)) bn (bufs s' b) \<and> b_refcnt (bufs s' b) = 0xffffffff)) s"
proof -
  let ?H = "log_of (logst s) (dblocks s)"
  have bc: "bcache (log_dev (logst s)) p (\<lambda>_. 0) Map.empty Map.empty s" using assms(1) by (simp add: boots_def)
  have ok: "blk_ok (dblocks s m)" for m using assms(3) by blast
  show ?thesis
  proof (rule rt_mono [OF recover_rt [OF refl bc assms(2) ok]], intro allI impI, goal_cases)
    case (1 _ s' bn)
    let ?E = "leaked ?H (nat (lh_n (lh ?H)))"
    have co: "bcore (log_dev (logst s)) (pid (procs s' p)) ?E Map.empty Map.empty (dblocks s') (bufs s')"
      using 1(1) unfolding bcache_def by blast
    have E: "?E bn = - 1" using 1(2) by (auto simp: leaked_def home_def)
    then have "?E bn \<noteq> 0" by simp
    then obtain b where b: "b < NBUF" "caches (log_dev (logst s)) bn (bufs s' b)" using co unfolding bcore_def by blast
    then have "b_refcnt (bufs s' b) = ?E bn" using co unfolding bcore_def by (simp add: cell_def caches_def cnt_def)
    then show ?case using b E by auto
  qed
qed

definition crashed_disk :: "u32 \<Rightarrow> block" where
  "crashed_disk = (\<lambda>_ _. 0)(2 := hdr \<lparr>lh_n = 1, lh_block = \<lambda>_. 40\<rparr> (\<lambda>_. 0))"

theorem recovery_leaks_buffers_witness:
  "rt (disk_env 0) recover_from_log (\<lambda>_ s'. \<exists>b < NBUF. b_blockno (bufs s' b) = 40 \<and> b_refcnt (bufs s' b) = 0xffffffff)
     (boot_ready\<lparr>dblocks := crashed_disk\<rparr>)"
proof -
  let ?s = "boot_ready\<lparr>dblocks := crashed_disk\<rparr>" and ?h = "\<lparr>lh_n = 1, lh_block = \<lambda>_. 40\<rparr> :: logheader"
  have st: "logst ?s = \<lparr>log_start = 2, log_size = 30, outstanding = 1, committing = False, log_dev = 1, lh = \<lparr>lh_n = 0, lh_block = \<lambda>_. 0\<rparr>\<rparr>"
    by (simp add: boot_ready_def log_ready_def)
  have hn: "hdr_n (crashed_disk 2) = 1" "hdr_block (crashed_disk 2) 0 = 40"
    using hdr_read(1) [of ?h "\<lambda>_. 0"] hdr_read(2) [of ?h 0 "\<lambda>_. 0"] by (simp_all add: crashed_disk_def)
  have b: "boots ?s 0 (logst ?s)"
  proof -
    have "bcore 1 i (\<lambda>_. 0) Map.empty Map.empty D (bufs cache_ready)" for i D
      by (simp add: bcore_def cell_def caches_def cache_ready_def zero_buf_def zero_sleeplock_def)
    then show ?thesis using boots_ready
      by (auto simp: boots_def boot_ready_def log_ready_def bcache_def quiet_def idle_thread_def)
  qed
  have home: "home (log_of (logst ?s) (dblocks ?s)) = [40]"
    using hn by (simp add: st log_of_def read_lh_def home_def)
  then have wf: "log_wf (log_of (logst ?s) (dblocks ?s))"
    using hn unfolding log_wf_def home by (simp add: st log_of_def read_lh_def log_area_def)
  have ok: "\<forall>m. blk_ok (dblocks ?s m)"
    using hdr_read(3) [of ?h "\<lambda>_. 0"] by (simp add: crashed_disk_def blk_ok_def)
  show ?thesis
    by (rule rt_mono [OF recovery_leaks_buffers [OF b wf ok]]) (unfold home, auto simp: caches_def)
qed

lemma bcache_logst_lks [simp]:
  "bcache dv p E G R (s\<lparr>logst := l, lks := k\<rparr>) = bcache dv p E G R (s\<lparr>lks := k\<rparr>)"
  "bcache dv p E G R (s\<lparr>logst := l, bufs := B, lks := k\<rparr>) = bcache dv p E G R (s\<lparr>bufs := B, lks := k\<rparr>)"
  by (simp_all add: bcache_def quiet_def idle_thread_def)

section \<open>Recording a block in the transaction\<close>

lemma log_slot_cases:
  assumes "log_wf L"
  shows "bn \<in> set (home L) \<Longrightarrow> log_slot (lh L) bn < nat (lh_n (lh L)) \<and> lh_block (lh L) (log_slot (lh L) bn) = bn"
    and "bn \<notin> set (home L) \<Longrightarrow> log_slot (lh L) bn = nat (lh_n (lh L))"
proof -
  let ?f = "find (\<lambda>i. lh_block (lh L) i = bn) [0..<nat (lh_n (lh L))]"
  show "log_slot (lh L) bn < nat (lh_n (lh L)) \<and> lh_block (lh L) (log_slot (lh L) bn) = bn" if "bn \<in> set (home L)"
  proof -
    have "?f \<noteq> None" using that by (auto simp: find_None_iff home_def)
    then obtain i where i: "?f = Some i" by blast
    then show ?thesis using find_SomeD [OF i] by (simp add: log_slot_def)
  qed
  show "log_slot (lh L) bn = nat (lh_n (lh L))" if "bn \<notin> set (home L)"
  proof -
    have "?f = None" using that by (auto simp: find_None_iff home_def)
    then show ?thesis by (simp add: log_slot_def)
  qed
qed

definition logged :: "u32 \<Rightarrow> log \<Rightarrow> log" where
  "logged bn L = (if bn \<in> set (home L) then L
     else L\<lparr>lh := (lh L)\<lparr>lh_block := (lh_block (lh L))(nat (lh_n (lh L)) := bn), lh_n := lh_n (lh L) + 1\<rparr>\<rparr>)"

lemma home_logged:
  assumes "log_wf L" "bn \<notin> set (home L)"
  shows "home (logged bn L) = home L @ [bn]"
proof -
  have n: "nat (lh_n (lh L) + 1) = Suc (nat (lh_n (lh L)))" using assms(1) by (simp add: log_wf_def nat_add_distrib)
  have "home (logged bn L) = map ((lh_block (lh L))(nat (lh_n (lh L)) := bn)) [0..<Suc (nat (lh_n (lh L)))]"
    using assms(2) by (simp add: logged_def home_def n)
  then show ?thesis by (simp add: home_def)
qed

lemma log_write_Ok:
  assumes q: "quiet p s" and L: "logst s = L" and wf: "log_wf L" and n: "lh_n (lh L) < log_size L - 1" and out: "1 \<le> outstanding L"
    and bn: "b_blockno (bufs s b) = bn"
  shows "log_write b s = Ok () (s\<lparr>logst := logged bn L, bufs := (if bn \<in> set (home L) then bufs s
      else (bufs s)(b := (bufs s b)\<lparr>b_refcnt := b_refcnt (bufs s b) + 1\<rparr>)), lks := lk_touch (lks s)\<rparr>)"
proof -
  let ?i = "log_slot (lh L) bn"
  note qs = quietD [OF q]
  have g: "\<not> (LOGSIZE \<le> lh_n (lh L) \<or> log_size L - 1 \<le> lh_n (lh L))" "\<not> outstanding L < 1"
    using wf n out by (auto simp: log_wf_def)
  have n0: "0 \<le> lh_n (lh L)" using wf by (simp add: log_wf_def)
  show ?thesis
  proof (cases "bn \<in> set (home L)")
    case True
    then have i: "?i < nat (lh_n (lh L))" "lh_block (lh L) ?i = bn" using log_slot_cases(1) [OF wf] by blast+
    then have "(lh_block (lh L))(?i := bn) = lh_block (lh L)" "int ?i \<noteq> lh_n (lh L)" by auto
    then show ?thesis
      using qs g True i by (simp add: log_write_def L bn acquire_can upd_log_def release_Ok [where l = "lks s"] logged_def)
  next
    case False
    then have i: "?i = nat (lh_n (lh L))" by (rule log_slot_cases(2) [OF wf])
    let ?L1 = "L\<lparr>lh := (lh L)\<lparr>lh_block := (lh_block (lh L))(?i := bn)\<rparr>\<rparr>"
    let ?s1 = "s\<lparr>lks := lk_acq LLog (lks s), logst := ?L1\<rparr>"
    have "bpin b ?s1 = Ok () (?s1\<lparr>bufs := (bufs s)(b := (bufs s b)\<lparr>b_refcnt := b_refcnt (bufs s b) + 1\<rparr>)\<rparr>)"
      using qs by (simp add: bpin_def acquire_can upd_buf_def release_Ok [where l = "lk_acq LLog (lks s)"])
    then show ?thesis
      using qs g False i n0 by (simp add: log_write_def L bn acquire_can upd_log_def release_Ok [where l = "lks s"] logged_def)
  qed
qed

lemma log_write_bcache:
  assumes "logst s = L" "bcache (log_dev L) p E G R s" "R bn = Some (b, d)" "log_wf L" "dom G = set (home L)"
    and "bn \<notin> log_area L" "unat bn < 2 ^ 31" "lh_n (lh L) < log_size L - 1" "log_size L \<le> LOGSIZE" "1 \<le> outstanding L"
  shows "\<exists>s'. log_write b s = Ok () s' \<and> bcache (log_dev L) p E (G(bn \<mapsto> d)) R s' \<and> logst s' = logged bn L
    \<and> log_wf (logst s') \<and> set (home (logst s')) = insert bn (set (home L)) \<and> lh_n (lh (logst s')) < log_size L
    \<and> rest p s' = rest p s \<and> dblocks s' = dblocks s \<and> dhist s' = dhist s \<and> inodes s' = inodes s"
proof -
  note h = bcache_held [OF assms(2,3)]
  have bn: "b_blockno (bufs s b) = bn" using h(2) by (simp add: caches_def)
  note ok = log_write_Ok [OF h(8) assms(1,4,8,10) bn]
  let ?s1 = "s\<lparr>logst := logged bn L, bufs := (if bn \<in> set (home L) then bufs s
      else (bufs s)(b := (bufs s b)\<lparr>b_refcnt := b_refcnt (bufs s b) + 1\<rparr>)), lks := lk_touch (lks s)\<rparr>"
  have wf: "log_wf (logged bn L) \<and> set (home (logged bn L)) = insert bn (set (home L)) \<and> lh_n (lh (logged bn L)) < log_size L"
  proof (cases "bn \<in> set (home L)")
    case True
    then show ?thesis using assms(4,8) by (auto simp: logged_def)
  next
    case False
    then have l: "lh_n (lh (logged bn L)) = lh_n (lh L) + 1" "log_start (logged bn L) = log_start L" by (simp_all add: logged_def)
    then show ?thesis
      using assms(4,6-9) False home_logged [OF assms(4) False] by (simp add: log_wf_def log_area_def)
  qed
  have "bcache (log_dev L) p E (G(bn \<mapsto> d)) R ?s1"
  proof (cases "bn \<in> set (home L)")
    case True
    then have "G bn \<noteq> None" using assms(5) by auto
    from bcache_pinned [OF assms(2,3) this, of d] have c: "bcache (log_dev L) p E (G(bn \<mapsto> d)) R s" .
    have "quiet p (s\<lparr>lks := lk_touch (lks s)\<rparr>)" using quiet_upd(1) [OF h(8)] .
    then have "bcache (log_dev L) p E (G(bn \<mapsto> d)) R (s\<lparr>lks := lk_touch (lks s)\<rparr>)" using c by (simp add: bcache_def)
    then show ?thesis using True by simp
  next
    case False
    then have "G bn = None" using assms(5) by auto
    then have "bcache (log_dev L) p E (G(bn \<mapsto> d)) R (s\<lparr>bufs := (bufs s)(b := (bufs s b)\<lparr>b_refcnt := b_refcnt (bufs s b) + 1\<rparr>), lks := lk_touch (lks s)\<rparr>)"
      using assms(3) by (intro bcache_refcnt [OF assms(2,3)]) (simp_all add: bcache_cnt [OF assms(2,3)] cnt_def)
    then show ?thesis using False by simp
  qed
  then show ?thesis using ok wf by simp
qed

text \<open>C28: \<open>log_write\<close> records a held block in the running transaction. A block that is already in the
  log header is absorbed: the header does not change. Any other block is appended to the header and its buffer is
  pinned, so it cannot be evicted before the commit. From then on the block reads as
  what the buffer holds. The header stays well-formed, without duplicates, and never has more
  entries than the log on disk has blocks.\<close>

theorem log_write_correct:
  assumes "logst s = L" "bcache (log_dev L) p E G R s" "R bn = Some (b, d)" "log_wf L" "dom G = set (home L)"
    and "bn \<notin> log_area L" "unat bn < 2 ^ 31" "lh_n (lh L) < log_size L - 1" "log_size L \<le> LOGSIZE" "1 \<le> outstanding L"
  shows "\<exists>s'. log_write b s = Ok () s' \<and> bcache (log_dev L) p E (G(bn \<mapsto> d)) R s' \<and> logst s' = logged bn L
    \<and> log_wf (logst s') \<and> set (home (logst s')) = insert bn (set (home L)) \<and> lh_n (lh (logst s')) < log_size L
    \<and> rest p s' = rest p s \<and> dblocks s' = dblocks s \<and> dhist s' = dhist s \<and> inodes s' = inodes s"
  by (rule log_write_bcache [OF assms])

definition held_ready :: kstate where
  "held_ready = boot_ready\<lparr>bufs := (bufs cache_ready)(0 := (bufs cache_ready 0)\<lparr>b_dev := 1, b_blockno := 40, b_valid := True, b_refcnt := 1,
     b_lock := (b_lock (bufs cache_ready 0))\<lparr>sl_locked := True, sl_pid := pid (procs cache_ready 0)\<rparr>\<rparr>)\<rparr>"

lemma bcache_held_ready: "bcache 1 0 (\<lambda>_. 0) Map.empty [40 \<mapsto> (0, b_data (bufs cache_ready 0))] held_ready"
proof -
  obtain xs where q: "quiet 0 cache_ready" "blist (bufs cache_ready) xs" using bcache_ready by (auto simp: bcache_def)
  have "blist (bufs held_ready) xs"
    unfolding held_ready_def by (simp, rule blist_same_links [OF q(2)]) simp_all
  moreover have "quiet 0 held_ready" using q(1) by (simp add: quiet_def idle_thread_def held_ready_def boot_ready_def)
  moreover have "bcore 1 (pid (procs held_ready 0)) (\<lambda>_. 0) Map.empty [40 \<mapsto> (0, b_data (bufs cache_ready 0))] (dblocks held_ready) (bufs held_ready)"
    by (auto simp: bcore_def cell_def caches_def held_ready_def boot_ready_def cache_ready_def zero_buf_def zero_sleeplock_def cnt_def)
  ultimately show ?thesis by (auto simp: bcache_def)
qed

theorem log_write_correct_witness:
  "\<exists>s'. log_write 0 held_ready = Ok () s' \<and> set (home (logst s')) = {40} \<and> lh_n (lh (logst s')) < 30"
proof -
  let ?L = "logst held_ready"
  have L: "?L = \<lparr>log_start = 2, log_size = 30, outstanding = 1, committing = False, log_dev = 1, lh = \<lparr>lh_n = 0, lh_block = \<lambda>_. 0\<rparr>\<rparr>"
    by (simp add: held_ready_def boot_ready_def log_ready_def)
  have bc: "bcache (log_dev ?L) 0 (\<lambda>_. 0) Map.empty [40 \<mapsto> (0, b_data (bufs cache_ready 0))] held_ready"
    using bcache_held_ready by (simp add: L)
  have wf: "log_wf ?L" and h: "set (home ?L) = {}" by (simp_all add: L log_wf_def home_def)
  show ?thesis
    using log_write_correct [where bn = 40 and d = "b_data (bufs cache_ready 0)" and b = 0, OF refl bc _ wf] h
    by (auto simp: L log_area_def)
qed

section \<open>Transactions\<close>







lemma commit_rt0:
  assumes L: "logst s = L" and bc: "bcache (log_dev L) p (\<lambda>_. 0) G Map.empty s" and wf: "log_wf L"
    and G: "dom G = set (home L)" and ok: "\<And>m. blk_ok (dblocks s m)" "\<And>m d. G m = Some d \<Longrightarrow> blk_ok d"
  shows "rt (disk_env p) commit (\<lambda>_ s'. rest p s' = rest p s \<and> logst s' = L\<lparr>lh := (lh L)\<lparr>lh_n := 0\<rparr>\<rparr> \<and> inodes s' = inodes s
     \<and> (\<forall>m. m \<notin> log_area L \<longrightarrow> dblocks s' m = val G (dblocks s) m) \<and> bcache (log_dev L) p (\<lambda>_. 0) Map.empty Map.empty s') s"
proof (cases "lh_n (lh L) = 0")
  case True
  then have "G = Map.empty" using G by (simp add: home_def)
  moreover have "L\<lparr>lh := (lh L)\<lparr>lh_n := 0\<rparr>\<rparr> = L" using True by simp
  ultimately show ?thesis using True bc L by (simp add: commit_def val_def)
next
  case False
  then have n: "0 < lh_n (lh L)" using wf by (simp add: log_wf_def)
  show ?thesis
  proof (rule rt_mono [OF commit_rt [OF L bc wf n G ok]], goal_cases)
    case (2 _ s')
    then show ?case using commit_disk(1) [where D = "dblocks s", OF wf G] by (simp add: wrote_def)
  qed blast
qed

lemma wakeup_bcache:
  fixes ch l
  assumes bc: "bcache dv p E G R s"
  defines "s' \<equiv> s\<lparr>procs := wake_all ch (procs s), logst := l, lks := lk_touch (lks s)\<rparr>"
  shows "bcache dv p E G R s'" "rest p s' = rest p s"
proof -
  have q: "quiet p s" using bc by (simp add: bcache_def)
  then have w: "wake_all ch (procs s) p = procs s p" by (simp add: wake_all_self quiet_def)
  then have "quiet p s'" using q by (simp add: s'_def quiet_def idle_thread_def)
  then show "bcache dv p E G R s'" using bc w by (simp add: bcache_def s'_def)
  show "rest p s' = rest p s" using w by (simp add: s'_def rest_def)
qed

lemma end_op_rt:
  assumes L: "logst s = L" and bc: "bcache (log_dev L) p (\<lambda>_. 0) G Map.empty s" and wf: "log_wf L"
    and G: "dom G = set (home L)" and ok: "\<And>m. blk_ok (dblocks s m)" "\<And>m d. G m = Some d \<Longrightarrow> blk_ok d"
    and o: "outstanding L = 1" "\<not> committing L"
  shows "rt (disk_env p) end_op (\<lambda>_ s'. rest p s' = rest p s \<and> logst s' = L\<lparr>outstanding := 0, lh := (lh L)\<lparr>lh_n := 0\<rparr>\<rparr> \<and> inodes s' = inodes s
     \<and> (\<forall>m. m \<notin> log_area L \<longrightarrow> dblocks s' m = val G (dblocks s) m) \<and> bcache (log_dev L) p (\<lambda>_. 0) Map.empty Map.empty s') s"
proof -
  have q: "quiet p s" using bc by (simp add: bcache_def)
  note qs = quietD [OF q]
  let ?L1 = "L\<lparr>outstanding := 0, committing := True\<rparr>" and ?L2 = "L\<lparr>outstanding := 0, lh := (lh L)\<lparr>lh_n := 0\<rparr>\<rparr>"
  let ?s1 = "s\<lparr>logst := ?L1, lks := lk_touch (lks s)\<rparr>"
  have q1: "quiet p ?s1" by (rule quiet_upd(8) [OF q])
  have c1: "bcache (log_dev ?L1) p (\<lambda>_. 0) G Map.empty ?s1" using bc q1 by (simp add: bcache_def)
  have hm: "home ?L1 = home L" "log_area ?L1 = log_area L" by (simp_all add: home_def log_area_def)
  then have wf1: "log_wf ?L1" using wf by (simp add: log_wf_def)
  let ?tail = "seq (acquire LLog) (seq (upd_log (\<lambda>l. l\<lparr>committing := False\<rparr>)) (seq (wakeup ChLog) (release LLog)))"
  have "end_op s = seq commit ?tail ?s1"
    using qs o by (simp add: end_op_def acquire_can upd_log_def L release_Ok [where l = "lks s"])
  then have e: "rt (disk_env p) end_op Q s = rt (disk_env p) (seq commit ?tail) Q ?s1" for Q by (simp only: rt_def)
  show ?thesis
    unfolding e rt_seq [of _ commit]
  proof (rule rt_mono [OF commit_rt0 [of ?s1 ?L1 p G]], goal_cases)
    case (7 _ s')
    then have c: "bcache (log_dev L) p (\<lambda>_. 0) Map.empty Map.empty s'" and r: "rest p s' = rest p s" "inodes s' = inodes s"
      and l: "logst s' = ?L1\<lparr>lh := (lh L)\<lparr>lh_n := 0\<rparr>\<rparr>" and d: "\<forall>m. m \<notin> log_area L \<longrightarrow> dblocks s' m = val G (dblocks s) m"
      by (simp_all add: log_area_def)
    have qq: "quiet p s'" using c by (simp add: bcache_def)
    note q' = quietD [OF qq]
    have pf: "procs_free (s'\<lparr>lks := lk_acq LLog (lks s'), logst := ?L2\<rparr>)" using q' by (simp add: procs_free_def)
    have l2: "L\<lparr>outstanding := 0, lh := (lh L)\<lparr>lh_n := 0\<rparr>, committing := False\<rparr> = ?L2" using o(2) by simp
    have t: "?tail s' = Ok () (s'\<lparr>procs := wake_all ChLog (procs s'), logst := ?L2, lks := lk_touch (lks s')\<rparr>)"
      using q' wakeup_Ok [OF pf, of ChLog] o by (simp add: acquire_can upd_log_def l l2 release_Ok [where l = "lks s'"])
    show ?case
      unfolding rt_Ok [where m = ?tail, OF t] using wakeup_bcache [where ch = ChLog and l = ?L2, OF c] r d by simp
  qed (use c1 wf1 G hm ok in simp_all)
qed

end
