(* ===== verification/Fs.thy ===== *)
theory Fs
  imports Transaction
begin

text \<open>
  \<open>kernel/fs.c\<close>: block allocator, inodes, file contents, directories and path names.  An inode
  pointer is an index of \<open>icache.inode\<close>; a path is the list of its characters before the
  terminating NUL; a file name is an array of \<open>DIRSIZ\<close> bytes.
\<close>

section \<open>On-disk structures\<close>

definition get_superblock :: "block \<Rightarrow> superblock" where
  "get_superblock d = \<lparr>sb_magic = bld 4 d 0, sb_size = bld 4 d 4, sb_nblocks = bld 4 d 8,
     sb_ninodes = bld 4 d 12, sb_nlog = bld 4 d 16, sb_logstart = bld 4 d 20,
     sb_inodestart = bld 4 d 24, sb_bmapstart = bld 4 d 28\<rparr>"

text \<open>\<open>(struct dinode*)bp->data + k\<close>: a \<open>struct dinode\<close> takes 64 bytes.\<close>

definition get_dinode :: "block \<Rightarrow> nat \<Rightarrow> dinode" where
  "get_dinode d k = \<lparr>di_type = bld 2 d (64 * k), di_major = bld 2 d (64 * k + 2),
     di_minor = bld 2 d (64 * k + 4), di_nlink = bld 2 d (64 * k + 6), di_size = bld 4 d (64 * k + 8),
     di_addrs = \<lambda>i. if i < NDIRECT + 1 then bld 4 d (64 * k + 12 + 4 * i) else 0\<rparr>"

definition put_addrs :: "nat \<Rightarrow> (nat \<Rightarrow> u32) \<Rightarrow> block \<Rightarrow> block" where
  "put_addrs off a d = fold (\<lambda>i. bst 4 (off + 4 * i) (a i)) [0..<NDIRECT + 1] d"

definition put_dinode :: "nat \<Rightarrow> dinode \<Rightarrow> block \<Rightarrow> block" where
  "put_dinode k di d =
     put_addrs (64 * k + 12) (di_addrs di)
     (bst 4 (64 * k + 8) (di_size di)
     (bst 2 (64 * k + 6) (di_nlink di)
     (bst 2 (64 * k + 4) (di_minor di)
     (bst 2 (64 * k + 2) (di_major di)
     (bst 2 (64 * k) (di_type di) d)))))"

definition get_dirent :: "(nat \<Rightarrow> byte) \<Rightarrow> dirent" where
  "get_dirent d = \<lparr>de_inum = bld 2 d 0, de_name = \<lambda>i. d (i + 2)\<rparr>"

definition put_dirent :: "dirent \<Rightarrow> nat \<Rightarrow> byte" where
  "put_dirent e = bst 2 0 (de_inum e) (\<lambda>i. if i < 16 then de_name e (i - 2) else 0)"

section \<open>Super block and block allocator\<close>

definition readsb :: "u32 \<Rightarrow> unit k" where
  "readsb dev =
     bind (bread dev 1) (\<lambda>bp.
     seq (modify (\<lambda>s. s\<lparr>sb := get_superblock (b_data (bufs s bp))\<rparr>))
     (brelse bp))"

definition fsinit :: "u32 \<Rightarrow> unit k" where
  "fsinit dev =
     seq (readsb dev) (
     bind (gets sb) (\<lambda>b.
     seq (panic_if (sb_magic b \<noteq> FSMAGIC) ''invalid file system'')
     (initlog dev b)))"

definition bzero :: "u32 \<Rightarrow> u32 \<Rightarrow> unit k" where
  "bzero dev bno =
     bind (bread dev bno) (\<lambda>bp.
     seq (set_data bp (\<lambda>d i. if i < BSIZE then 0 else d i)) (
     seq (log_write bp)
     (brelse bp)))"

definition bmask :: "nat \<Rightarrow> byte" where
  "bmask bi = push_bit (bi mod 8) 1"

text \<open>The inner loop of \<open>balloc\<close>: the first clear bit of the bitmap block, below the size of the
  file system.\<close>

definition free_bit :: "block \<Rightarrow> nat \<Rightarrow> nat \<Rightarrow> nat option" where
  "free_bit d b sz = find (\<lambda>bi. d (bi div 8) AND bmask bi = 0) [0..<min BPB (sz - b)]"

fun balloc_from :: "u32 \<Rightarrow> nat \<Rightarrow> nat list \<Rightarrow> u32 k" where
  "balloc_from dev sz [] = panic ''balloc: out of blocks''"
| "balloc_from dev sz (b # bs) =
     bind (gets (\<lambda>s. BBLOCK (of_nat b) (sb s))) (\<lambda>bb.
     bind (bread dev bb) (\<lambda>bp.
     bind (gets (\<lambda>s. free_bit (b_data (bufs s bp)) b sz)) (\<lambda>r. case r of
       Some bi \<Rightarrow>
         seq (set_data bp (\<lambda>d. d(bi div 8 := d (bi div 8) OR bmask bi))) (
         seq (log_write bp) (
         seq (brelse bp) (
         seq (bzero dev (of_nat (b + bi)))
         (return (of_nat (b + bi))))))
     | None \<Rightarrow> seq (brelse bp) (balloc_from dev sz bs))))"

definition balloc :: "u32 \<Rightarrow> u32 k" where
  "balloc dev =
     bind (gets (\<lambda>s. unat (sb_size (sb s)))) (\<lambda>sz.
     balloc_from dev sz (map (\<lambda>i. i * BPB) [0..<(sz + BPB - 1) div BPB]))"

definition bfree :: "u32 \<Rightarrow> u32 \<Rightarrow> unit k" where
  "bfree dev b =
     bind (gets (\<lambda>s. BBLOCK b (sb s))) (\<lambda>bb.
     bind (bread dev bb) (\<lambda>bp.
     let bi = unat b mod BPB; m = bmask bi in
     bind (gets (\<lambda>s. b_data (bufs s bp) (bi div 8))) (\<lambda>v.
     seq (panic_if (v AND m = 0) ''freeing free block'') (
     seq (set_data bp (\<lambda>d. d(bi div 8 := d (bi div 8) AND NOT m))) (
     seq (log_write bp)
     (brelse bp))))))"

section \<open>Inodes\<close>

definition upd_inode :: "nat \<Rightarrow> (inode \<Rightarrow> inode) \<Rightarrow> unit k" where
  "upd_inode ip f = modify (\<lambda>s. s\<lparr>inodes := (inodes s)(ip := f (inodes s ip))\<rparr>)"

definition iinit :: "unit k" where
  "iinit =
     seq (initlock LIcache ''icache'')
     (forM [0..<NINODE] (\<lambda>i. initsleeplock (SLinode i) ''inode''))"

text \<open>The loop of \<open>iget\<close> over the cache: the entry of the inode, or else the first empty slot.\<close>

definition iget_cached :: "kstate \<Rightarrow> u32 \<Rightarrow> u32 \<Rightarrow> nat option" where
  "iget_cached s dev inum = find (\<lambda>i. 0 < i_ref (inodes s i) \<and> i_dev (inodes s i) = dev
     \<and> i_inum (inodes s i) = inum) [0..<NINODE]"

definition iget_empty :: "kstate \<Rightarrow> nat option" where
  "iget_empty s = find (\<lambda>i. i_ref (inodes s i) = 0) [0..<NINODE]"

definition iget :: "u32 \<Rightarrow> u32 \<Rightarrow> nat k" where
  "iget dev inum =
     seq (acquire LIcache) (
     bind (gets (\<lambda>s. iget_cached s dev inum)) (\<lambda>r. case r of
       Some ip \<Rightarrow>
         seq (upd_inode ip (\<lambda>x. x\<lparr>i_ref := i_ref x + 1\<rparr>)) (
         seq (release LIcache)
         (return ip))
     | None \<Rightarrow>
         bind (gets iget_empty) (\<lambda>e. case e of
           None \<Rightarrow> panic ''iget: no inodes''
         | Some ip \<Rightarrow>
             seq (upd_inode ip (\<lambda>x. x\<lparr>i_dev := dev, i_inum := inum, i_ref := 1, i_valid := False\<rparr>)) (
             seq (release LIcache)
             (return ip)))))"

fun ialloc_from :: "u32 \<Rightarrow> u16 \<Rightarrow> nat list \<Rightarrow> nat k" where
  "ialloc_from dev ty [] = panic ''ialloc: no inodes''"
| "ialloc_from dev ty (inum # is) =
     bind (gets (\<lambda>s. IBLOCK (of_nat inum) (sb s))) (\<lambda>ib.
     bind (bread dev ib) (\<lambda>bp.
     bind (gets (\<lambda>s. di_type (get_dinode (b_data (bufs s bp)) (inum mod IPB)))) (\<lambda>t.
     if t = 0 then
       seq (set_data bp (put_dinode (inum mod IPB) \<lparr>di_type = ty, di_major = 0, di_minor = 0,
              di_nlink = 0, di_size = 0, di_addrs = \<lambda>_. 0\<rparr>)) (
       seq (log_write bp) (
       seq (brelse bp)
       (iget dev (of_nat inum))))
     else seq (brelse bp) (ialloc_from dev ty is))))"

definition ialloc :: "u32 \<Rightarrow> u16 \<Rightarrow> nat k" where
  "ialloc dev ty =
     bind (gets (\<lambda>s. unat (sb_ninodes (sb s)))) (\<lambda>n. ialloc_from dev ty [1..<n])"

definition dinode_of :: "inode \<Rightarrow> dinode" where
  "dinode_of x = \<lparr>di_type = i_type x, di_major = i_major x, di_minor = i_minor x,
     di_nlink = i_nlink x, di_size = i_size x, di_addrs = i_addrs x\<rparr>"

definition iupdate :: "nat \<Rightarrow> unit k" where
  "iupdate ip =
     bind (gets (\<lambda>s. inodes s ip)) (\<lambda>x.
     bind (gets (\<lambda>s. IBLOCK (i_inum x) (sb s))) (\<lambda>ib.
     bind (bread (i_dev x) ib) (\<lambda>bp.
     bind (gets (\<lambda>s. inodes s ip)) (\<lambda>x.
     seq (set_data bp (put_dinode (unat (i_inum x) mod IPB) (dinode_of x))) (
     seq (log_write bp)
     (brelse bp))))))"

definition idup :: "nat \<Rightarrow> nat k" where
  "idup ip =
     seq (acquire LIcache) (
     seq (upd_inode ip (\<lambda>x. x\<lparr>i_ref := i_ref x + 1\<rparr>)) (
     seq (release LIcache)
     (return ip)))"

definition load_dinode :: "dinode \<Rightarrow> inode \<Rightarrow> inode" where
  "load_dinode di x = x\<lparr>i_type := di_type di, i_major := di_major di, i_minor := di_minor di,
     i_nlink := di_nlink di, i_size := di_size di, i_addrs := di_addrs di\<rparr>"

definition ilock :: "nat option \<Rightarrow> unit k" where
  "ilock ipo = (case ipo of None \<Rightarrow> panic ''ilock''
     | Some ip \<Rightarrow>
     bind (gets (\<lambda>s. i_ref (inodes s ip))) (\<lambda>r.
     seq (panic_if (r < 1) ''ilock'') (
     seq (acquiresleep (SLinode ip)) (
     bind (gets (\<lambda>s. inodes s ip)) (\<lambda>x.
     whenM (\<not> i_valid x) (
       bind (gets (\<lambda>s. IBLOCK (i_inum x) (sb s))) (\<lambda>ib.
       bind (bread (i_dev x) ib) (\<lambda>bp.
       bind (gets (\<lambda>s. get_dinode (b_data (bufs s bp)) (unat (i_inum x) mod IPB))) (\<lambda>di.
       seq (upd_inode ip (load_dinode di)) (
       seq (brelse bp) (
       seq (upd_inode ip (\<lambda>x. x\<lparr>i_valid := True\<rparr>)) (
       bind (gets (\<lambda>s. i_type (inodes s ip))) (\<lambda>t.
       panic_if (t = 0) ''ilock: no type'')))))))))))))"

definition iunlock :: "nat option \<Rightarrow> unit k" where
  "iunlock ipo = (case ipo of None \<Rightarrow> panic ''iunlock''
     | Some ip \<Rightarrow>
     bind (holdingsleep (SLinode ip)) (\<lambda>h.
     bind (gets (\<lambda>s. i_ref (inodes s ip))) (\<lambda>r.
     seq (panic_if (\<not> h \<or> r < 1) ''iunlock'')
     (releasesleep (SLinode ip)))))"

section \<open>Inode contents\<close>

definition set_addr :: "nat \<Rightarrow> nat \<Rightarrow> u32 \<Rightarrow> unit k" where
  "set_addr ip i a = upd_inode ip (\<lambda>x. x\<lparr>i_addrs := (i_addrs x)(i := a)\<rparr>)"

text \<open>\<open>if((addr = ip->addrs[i]) == 0) ip->addrs[i] = addr = balloc(ip->dev)\<close>.\<close>

definition addr_or_alloc :: "nat \<Rightarrow> nat \<Rightarrow> u32 k" where
  "addr_or_alloc ip i =
     bind (gets (\<lambda>s. inodes s ip)) (\<lambda>x.
     if i_addrs x i = 0 then bind (balloc (i_dev x)) (\<lambda>a. seq (set_addr ip i a) (return a))
     else return (i_addrs x i))"

definition bmap :: "nat \<Rightarrow> u32 \<Rightarrow> u32 k" where
  "bmap ip bn =
     (if bn < of_nat NDIRECT then addr_or_alloc ip (unat bn)
      else let bn = bn - of_nat NDIRECT in
      if bn < of_nat NINDIRECT then
        bind (addr_or_alloc ip NDIRECT) (\<lambda>addr.
        bind (gets (\<lambda>s. i_dev (inodes s ip))) (\<lambda>dev.
        bind (bread dev addr) (\<lambda>bp.
        bind (gets (\<lambda>s. bld 4 (b_data (bufs s bp)) (4 * unat bn) :: u32)) (\<lambda>a.
        bind (if a = 0 then
                bind (balloc dev) (\<lambda>a.
                seq (set_data bp (bst 4 (4 * unat bn) a)) (
                seq (log_write bp)
                (return a)))
              else return a) (\<lambda>addr.
        seq (brelse bp)
        (return addr))))))
      else panic ''bmap: out of range'')"

definition itrunc :: "nat \<Rightarrow> unit k" where
  "itrunc ip =
     seq (forM [0..<NDIRECT] (\<lambda>i.
       bind (gets (\<lambda>s. inodes s ip)) (\<lambda>x.
       whenM (i_addrs x i \<noteq> 0) (
         seq (bfree (i_dev x) (i_addrs x i))
         (set_addr ip i 0))))) (
     bind (gets (\<lambda>s. inodes s ip)) (\<lambda>x.
     seq (whenM (i_addrs x NDIRECT \<noteq> 0) (
       bind (bread (i_dev x) (i_addrs x NDIRECT)) (\<lambda>bp.
       seq (forM [0..<NINDIRECT] (\<lambda>j.
         bind (gets (\<lambda>s. bld 4 (b_data (bufs s bp)) (4 * j) :: u32)) (\<lambda>a.
         whenM (a \<noteq> 0) (bfree (i_dev x) a)))) (
       seq (brelse bp) (
       seq (bfree (i_dev x) (i_addrs x NDIRECT))
       (set_addr ip NDIRECT 0)))))) (
     seq (upd_inode ip (\<lambda>x. x\<lparr>i_size := 0\<rparr>))
     (iupdate ip))))"

definition iput :: "nat \<Rightarrow> unit k" where
  "iput ip =
     seq (acquire LIcache) (
     bind (gets (\<lambda>s. inodes s ip)) (\<lambda>x.
     seq (whenM (i_ref x = 1 \<and> i_valid x \<and> i_nlink x = 0) (
       seq (acquiresleep (SLinode ip)) (
       seq (release LIcache) (
       seq (itrunc ip) (
       seq (upd_inode ip (\<lambda>x. x\<lparr>i_type := 0\<rparr>)) (
       seq (iupdate ip) (
       seq (upd_inode ip (\<lambda>x. x\<lparr>i_valid := False\<rparr>)) (
       seq (releasesleep (SLinode ip))
       (acquire LIcache))))))))) (
     seq (upd_inode ip (\<lambda>x. x\<lparr>i_ref := i_ref x - 1\<rparr>))
     (release LIcache))))"

definition iunlockput :: "nat \<Rightarrow> unit k" where
  "iunlockput ip = seq (iunlock (Some ip)) (iput ip)"

definition stati :: "nat \<Rightarrow> stat k" where
  "stati ip = gets (\<lambda>s. let x = inodes s ip in \<lparr>st_dev = i_dev x, st_ino = i_inum x,
     st_type = i_type x, st_nlink = i_nlink x, st_size = ucast (i_size x)\<rparr>)"

text \<open>Where \<open>readi\<close> copies to and \<open>writei\<close> copies from: a user virtual address, a kernel address
  of memory, or a local variable of a kernel function, which is an array of bytes.\<close>

datatype ioptr = UserVA u64 | KernVA u64 | KernObj "nat \<Rightarrow> byte"

fun obj :: "ioptr \<Rightarrow> nat \<Rightarrow> byte" where
  "obj (KernObj o') = o'"
| "obj _ = (\<lambda>_. 0)"

fun copy_to :: "ioptr \<Rightarrow> u32 \<Rightarrow> (nat \<Rightarrow> byte) \<Rightarrow> u32 \<Rightarrow> (int \<times> ioptr) k" where
  "copy_to (UserVA a) tot src m =
     bind (either_copyout True (a + ucast tot) src (ucast m)) (\<lambda>r. return (r, UserVA a))"
| "copy_to (KernVA a) tot src m =
     bind (either_copyout False (a + ucast tot) src (ucast m)) (\<lambda>r. return (r, KernVA a))"
| "copy_to (KernObj o') tot src m = seq myproc (return (0, KernObj (\<lambda>i.
     if unat tot \<le> i \<and> i < unat tot + unat m then src (i - unat tot) else o' i)))"

fun copy_from :: "ioptr \<Rightarrow> u32 \<Rightarrow> (nat \<Rightarrow> byte) \<Rightarrow> u32 \<Rightarrow> (int \<times> (nat \<Rightarrow> byte)) k" where
  "copy_from (UserVA a) tot dst m = either_copyin dst True (a + ucast tot) (ucast m)"
| "copy_from (KernVA a) tot dst m = either_copyin dst False (a + ucast tot) (ucast m)"
| "copy_from (KernObj o') tot dst m = seq myproc (return (0,
     \<lambda>i. if i < unat m then o' (unat tot + i) else dst i))"

text \<open>The loops of \<open>readi\<close> and \<open>writei\<close> move at least one byte per round.\<close>

definition io_chunk :: "u32 \<Rightarrow> u32 \<Rightarrow> u32 \<Rightarrow> u32" where
  "io_chunk n tot off = min (n - tot) (of_nat BSIZE - off mod of_nat BSIZE)"

fun readi_from :: "nat \<Rightarrow> nat \<Rightarrow> ioptr \<Rightarrow> u32 \<Rightarrow> u32 \<Rightarrow> u32 \<Rightarrow> (u32 \<times> ioptr) k" where
  "readi_from 0 ip dst off n tot = return (tot, dst)"
| "readi_from (Suc f) ip dst off n tot =
     (if tot < n then
        bind (bmap ip (off div of_nat BSIZE)) (\<lambda>bn.
        bind (gets (\<lambda>s. i_dev (inodes s ip))) (\<lambda>dev.
        bind (bread dev bn) (\<lambda>bp.
        let m = io_chunk n tot off in
        bind (gets (\<lambda>s. b_data (bufs s bp))) (\<lambda>d.
        bind (copy_to dst tot (\<lambda>i. d (unat (off mod of_nat BSIZE) + i)) m) (\<lambda>(r, dst').
        seq (brelse bp)
        (if r = - 1 then return (tot, dst')
         else readi_from f ip dst' (off + m) n (tot + m)))))))
      else return (tot, dst))"

definition readi :: "nat \<Rightarrow> ioptr \<Rightarrow> u32 \<Rightarrow> u32 \<Rightarrow> (u32 \<times> ioptr) k" where
  "readi ip dst off n =
     bind (gets (\<lambda>s. i_size (inodes s ip))) (\<lambda>sz.
     if sz < off \<or> off + n < off then return (0, dst)
     else let n = (if sz < off + n then sz - off else n) in
       readi_from (unat n) ip dst off n 0)"

fun writei_from :: "nat \<Rightarrow> nat \<Rightarrow> ioptr \<Rightarrow> u32 \<Rightarrow> u32 \<Rightarrow> u32 \<Rightarrow> u32 k" where
  "writei_from 0 ip src off n tot = return off"
| "writei_from (Suc f) ip src off n tot =
     (if tot < n then
        bind (bmap ip (off div of_nat BSIZE)) (\<lambda>bn.
        bind (gets (\<lambda>s. i_dev (inodes s ip))) (\<lambda>dev.
        bind (bread dev bn) (\<lambda>bp.
        let m = io_chunk n tot off; o' = unat (off mod of_nat BSIZE) in
        bind (gets (\<lambda>s. b_data (bufs s bp))) (\<lambda>d.
        bind (copy_from src tot (\<lambda>i. d (o' + i)) m) (\<lambda>(r, c).
        seq (set_data bp (\<lambda>d i. if o' \<le> i then c (i - o') else d i)) (
        if r = - 1 then seq (brelse bp) (return off)
        else
          seq (log_write bp) (
          seq (brelse bp)
          (writei_from f ip src (off + m) n (tot + m)))))))))
      else return off)"

definition writei :: "nat \<Rightarrow> ioptr \<Rightarrow> u32 \<Rightarrow> u32 \<Rightarrow> int k" where
  "writei ip src off n =
     bind (gets (\<lambda>s. i_size (inodes s ip))) (\<lambda>sz.
     if sz < off \<or> off + n < off then return (- 1)
     else if of_nat (MAXFILE * BSIZE) < off + n then return (- 1)
     else
       bind (writei_from (unat n) ip src off n 0) (\<lambda>off.
       seq (whenM (0 < n) (
         bind (gets (\<lambda>s. i_size (inodes s ip))) (\<lambda>sz.
         seq (whenM (sz < off) (upd_inode ip (\<lambda>x. x\<lparr>i_size := off\<rparr>)))
         (iupdate ip))))
       (return (sint n))))"

section \<open>Directories\<close>

definition namecmp :: "(nat \<Rightarrow> byte) \<Rightarrow> (nat \<Rightarrow> byte) \<Rightarrow> int" where
  "namecmp a b = strncmp a b DIRSIZ"

text \<open>The scan of \<open>dirlookup\<close>; the result also holds the offset stored through \<open>poff\<close>.\<close>

fun dirlookup_from :: "nat \<Rightarrow> nat \<Rightarrow> (nat \<Rightarrow> byte) \<Rightarrow> u32 \<Rightarrow> (nat \<times> u32) option k" where
  "dirlookup_from 0 dp nm off = return None"
| "dirlookup_from (Suc f) dp nm off =
     bind (gets (\<lambda>s. i_size (inodes s dp))) (\<lambda>sz.
     if off < sz then
       bind (readi dp (KernObj (\<lambda>_. 0)) off 16) (\<lambda>(r, o').
       seq (panic_if (r \<noteq> 16) ''dirlookup read'') (
       let de = get_dirent (obj o') in
       if de_inum de = 0 then dirlookup_from f dp nm (off + 16)
       else if namecmp nm (de_name de) = 0 then
         bind (gets (\<lambda>s. i_dev (inodes s dp))) (\<lambda>dev.
         bind (iget dev (ucast (de_inum de))) (\<lambda>ip. return (Some (ip, off))))
       else dirlookup_from f dp nm (off + 16)))
     else return None)"

definition dirlookup :: "nat \<Rightarrow> (nat \<Rightarrow> byte) \<Rightarrow> (nat \<times> u32) option k" where
  "dirlookup dp nm =
     bind (gets (\<lambda>s. inodes s dp)) (\<lambda>x.
     seq (panic_if (i_type x \<noteq> T_DIR) ''dirlookup not DIR'')
     (dirlookup_from (Suc (unat (i_size x) div 16)) dp nm 0))"

fun dirlink_slot :: "nat \<Rightarrow> nat \<Rightarrow> u32 \<Rightarrow> u32 k" where
  "dirlink_slot 0 dp off = return off"
| "dirlink_slot (Suc f) dp off =
     bind (gets (\<lambda>s. i_size (inodes s dp))) (\<lambda>sz.
     if off < sz then
       bind (readi dp (KernObj (\<lambda>_. 0)) off 16) (\<lambda>(r, o').
       seq (panic_if (r \<noteq> 16) ''dirlink read'') (
       if de_inum (get_dirent (obj o')) = 0 then return off
       else dirlink_slot f dp (off + 16)))
     else return off)"

definition dirlink :: "nat \<Rightarrow> (nat \<Rightarrow> byte) \<Rightarrow> u32 \<Rightarrow> int k" where
  "dirlink dp nm inum =
     bind (dirlookup dp nm) (\<lambda>r. case r of
       Some (ip, _) \<Rightarrow> seq (iput ip) (return (- 1))
     | None \<Rightarrow>
         bind (gets (\<lambda>s. i_size (inodes s dp))) (\<lambda>sz.
         bind (dirlink_slot (Suc (unat sz div 16)) dp 0) (\<lambda>off.
         let de = \<lparr>de_inum = ucast inum, de_name = strncpy (\<lambda>_. 0) nm (int DIRSIZ)\<rparr> in
         bind (writei dp (KernObj (put_dirent de)) off 16) (\<lambda>r.
         seq (panic_if (r \<noteq> 16) ''dirlink'')
         (return 0)))))"

section \<open>Path names\<close>

abbreviation (input) slash :: byte where "slash \<equiv> 47"

definition skipelem :: "byte list \<Rightarrow> (nat \<Rightarrow> byte) \<Rightarrow> (byte list \<times> (nat \<Rightarrow> byte)) option" where
  "skipelem path nm =
     (let path = dropWhile (\<lambda>c. c = slash) path in
      if path = [] then None
      else
        let s = takeWhile (\<lambda>c. c \<noteq> slash) path; len = length s;
            nm' = (if DIRSIZ \<le> len then (\<lambda>i. if i < DIRSIZ then s ! i else nm i)
                   else (\<lambda>i. if i < len then s ! i else if i = len then 0 else nm i))
        in Some (dropWhile (\<lambda>c. c = slash) (dropWhile (\<lambda>c. c \<noteq> slash) path), nm'))"

fun namex_from :: "nat \<Rightarrow> nat \<Rightarrow> byte list \<Rightarrow> bool \<Rightarrow> (nat \<Rightarrow> byte) \<Rightarrow> (nat option \<times> (nat \<Rightarrow> byte)) k" where
  "namex_from f ip path nip nm = (case skipelem path nm of
       None \<Rightarrow> if nip then seq (iput ip) (return (None, nm)) else return (Some ip, nm)
     | Some (path', nm') \<Rightarrow>
         seq (ilock (Some ip)) (
         bind (gets (\<lambda>s. i_type (inodes s ip))) (\<lambda>t.
         if t \<noteq> T_DIR then seq (iunlockput ip) (return (None, nm'))
         else if nip \<and> path' = [] then seq (iunlock (Some ip)) (return (Some ip, nm'))
         else bind (dirlookup ip nm') (\<lambda>r. case r of
             None \<Rightarrow> seq (iunlockput ip) (return (None, nm'))
           | Some (nxt, _) \<Rightarrow>
               seq (iunlockput ip) (case f of
                   0 \<Rightarrow> spin
                 | Suc f' \<Rightarrow> namex_from f' nxt path' nip nm')))))"

declare namex_from.simps [simp del]

definition namex :: "byte list \<Rightarrow> bool \<Rightarrow> (nat \<Rightarrow> byte) \<Rightarrow> (nat option \<times> (nat \<Rightarrow> byte)) k" where
  "namex path nip nm =
     bind (if path \<noteq> [] \<and> path ! 0 = slash then iget ROOTDEV ROOTINO
           else bind curproc (\<lambda>p.
             bind (gets (\<lambda>s. cwd (procs s p))) (\<lambda>c. bind (deref c) idup))) (\<lambda>ip.
     namex_from (length path) ip path nip nm)"

definition namei :: "byte list \<Rightarrow> nat option k" where
  "namei path = bind (namex path False (\<lambda>_. 0)) (\<lambda>(ip, _). return ip)"

definition nameiparent :: "byte list \<Rightarrow> (nat \<Rightarrow> byte) \<Rightarrow> (nat option \<times> (nat \<Rightarrow> byte)) k" where
  "nameiparent path nm = namex path True nm"

end
