(* ===== verification/Blocks.thy ===== *)
theory Blocks
  imports Fs
begin

text \<open>
  The blocks of the file system inside a transaction: the view of the disk that the pinned
  buffers and the disk make up together, the block allocator on that view, and inodes in their
  on-disk form.
\<close>

section \<open>The disk as the running transaction sees it\<close>

text \<open>\<open>txn p k V R s\<close>: process \<open>p\<close> is inside a transaction that sees the blocks of the disk as \<open>V\<close>, holds
  the buffers \<open>R\<close> and may call \<open>log_write\<close> another \<open>k\<close> times.\<close>

definition txn :: "nat \<Rightarrow> nat \<Rightarrow> (u32 \<Rightarrow> block) \<Rightarrow> held \<Rightarrow> kstate \<Rightarrow> bool" where
  "txn p k V R s \<longleftrightarrow> (\<exists>G. bcache (log_dev (logst s)) p (\<lambda>_. 0) G R s \<and> dom G = set (home (logst s)) \<and> V = val G (dblocks s))
     \<and> log_wf (logst s) \<and> (\<forall>m. blk_ok (V m) \<and> blk_ok (dblocks s m)) \<and> finite (dom R)
     \<and> 1 \<le> outstanding (logst s) \<and> log_size (logst s) \<le> LOGSIZE \<and> lh_n (lh (logst s)) + int k < log_size (logst s)"

text \<open>What an operation on blocks leaves alone.\<close>

definition same_layout :: "log \<Rightarrow> log \<Rightarrow> bool" where
  "same_layout L L' \<longleftrightarrow> log_start L' = log_start L \<and> log_size L' = log_size L \<and> log_dev L' = log_dev L
     \<and> outstanding L' = outstanding L \<and> committing L' = committing L"

definition fskeep :: "nat \<Rightarrow> kstate \<Rightarrow> kstate \<Rightarrow> bool" where
  "fskeep p s s' \<longleftrightarrow> rest p s' = rest p s \<and> inodes s' = inodes s \<and> same_layout (logst s) (logst s')"

lemma same_layout_refl [simp]: "same_layout L L"
  by (simp add: same_layout_def)

lemma same_layout_area: "same_layout L L' \<Longrightarrow> log_area L' = log_area L"
  by (simp add: same_layout_def log_area_def)

lemma fskeep_refl [simp]: "fskeep p s s"
  by (simp add: fskeep_def)

lemma fskeep_trans: "fskeep p s s' \<Longrightarrow> fskeep p s' s'' \<Longrightarrow> fskeep p s s''"
  by (simp add: fskeep_def same_layout_def)

lemma fskeepD:
  assumes "fskeep p s s'"
  shows "inodes s' = inodes s" "sb s' = sb s" "log_area (logst s') = log_area (logst s)" "log_dev (logst s') = log_dev (logst s)"
    "procs s' p = procs s p" "mem s' = mem s"
proof -
  have r: "rest p s' = rest p s" and l: "same_layout (logst s) (logst s')" and i: "inodes s' = inodes s"
    using assms by (simp_all add: fskeep_def)
  show "inodes s' = inodes s" by (fact i)
  show "sb s' = sb s" "procs s' p = procs s p" "mem s' = mem s" using rest_eqD [OF r] by simp_all
  show "log_area (logst s') = log_area (logst s)" by (rule same_layout_area [OF l])
  show "log_dev (logst s') = log_dev (logst s)" using l by (simp add: same_layout_def)
qed

lemma wrote_fskeep: "wrote p [] s s' \<Longrightarrow> fskeep p s s'"
  by (simp add: wrote_def fskeep_def)

lemma txn_obtain:
  assumes "txn p k V R s"
  obtains G where "bcache (log_dev (logst s)) p (\<lambda>_. 0) G R s" "dom G = set (home (logst s))" "V = val G (dblocks s)"
proof -
  have "\<exists>G. bcache (log_dev (logst s)) p (\<lambda>_. 0) G R s \<and> dom G = set (home (logst s)) \<and> V = val G (dblocks s)"
    using assms by (simp only: txn_def)
  then show thesis using that by blast
qed

text \<open>A step of the cache that keeps the log and the contents of the disk keeps the transaction.\<close>

lemma txn_cache:
  assumes t: "txn p k V R s" and w: "wrote p [] s s'" and G: "dom G = set (home (logst s))" "V = val G (dblocks s)"
    and bc: "bcache (log_dev (logst s)) p (\<lambda>_. 0) G R' s'" and R: "finite (dom R')"
  shows "txn p k V R' s'"
proof -
  have e: "logst s' = logst s" "dblocks s' = dblocks s" using w by (simp_all add: wrote_def)
  show ?thesis
    unfolding txn_def e using t G bc R by (auto simp: txn_def)
qed

lemma txn_bread:
  assumes t: "txn p k V R s" and R: "R bn = None" "card (dom R) \<le> k" and bn: "unat bn < 2 ^ 31"
    and dv: "dv = log_dev (logst s)"
    and Q: "\<And>b s'. txn p k V (R(bn \<mapsto> (b, V bn))) s' \<Longrightarrow> fskeep p s s' \<Longrightarrow> logst s' = logst s \<Longrightarrow> Q b s'"
  shows "rt (disk_env p) (bread dv bn) Q s"
proof -
  obtain G where bc: "bcache dv p (\<lambda>_. 0) G R s" and G: "dom G = set (home (logst s))" "V = val G (dblocks s)"
    using txn_obtain [OF t] dv by metis
  have fin: "finite (dom R)" using t by (simp add: txn_def)
  have "card (set (home (logst s))) + k < NBUF"
  proof -
    have "length (home (logst s)) = nat (lh_n (lh (logst s)))" "0 \<le> lh_n (lh (logst s))"
      using t by (simp_all add: home_def txn_def log_wf_def)
    moreover have "log_size (logst s) \<le> 30" "lh_n (lh (logst s)) + int k < log_size (logst s)" using t by (simp_all add: txn_def)
    moreover have "card (set (home (logst s))) \<le> length (home (logst s))" by (rule card_length)
    ultimately show ?thesis by linarith
  qed
  then have "card (dom G \<union> dom R) < NBUF" using R(2) G(1) card_Un_le [of "dom G" "dom R"] by simp
  then have u: "finite (used (\<lambda>_. 0) G R)" "card (used (\<lambda>_. 0) G R) < NBUF" using fin G by simp_all
  show ?thesis
  proof (rule bread_w [OF bc R(1) bn refl sound_0 u(1)], goal_cases)
    case (2 b s')
    have "txn p k V (R(bn \<mapsto> (b, V bn))) s'"
      by (rule txn_cache [OF t 2(1) G]) (use 2(2) G(2) dv fin in simp_all)
    then show ?case using Q wrote_fskeep [OF 2(1)] wrote_logst [OF 2(1)] by blast
  qed (use u in simp)
qed

lemma txn_set_data:
  assumes t: "txn p k V R s" and R: "R bn = Some (b, d)"
    and Q: "\<And>s'. txn p k V (R(bn \<mapsto> (b, f d))) s' \<Longrightarrow> fskeep p s s' \<Longrightarrow> logst s' = logst s \<Longrightarrow> Q () s'"
  shows "rt (disk_env p) (set_data b f) Q s"
proof -
  obtain G where bc: "bcache (log_dev (logst s)) p (\<lambda>_. 0) G R s" and G: "dom G = set (home (logst s))" "V = val G (dblocks s)"
    using txn_obtain [OF t] by metis
  show ?thesis
  proof (rule set_data_w [where bn = bn, OF bc R], goal_cases)
    case (1 s')
    have "txn p k V (R(bn \<mapsto> (b, f d))) s'"
      by (rule txn_cache [OF t 1(1) G]) (use 1(2) t in \<open>simp_all add: txn_def\<close>)
    then show ?case using Q wrote_fskeep [OF 1(1)] wrote_logst [OF 1(1)] by blast
  qed
qed

lemma txn_brelse:
  assumes t: "txn p k V R s" and R: "R bn = Some (b, V bn)"
    and Q: "\<And>s'. txn p k V (R(bn := None)) s' \<Longrightarrow> fskeep p s s' \<Longrightarrow> logst s' = logst s \<Longrightarrow> Q () s'"
  shows "rt (disk_env p) (brelse b) Q s"
proof -
  obtain G where bc: "bcache (log_dev (logst s)) p (\<lambda>_. 0) G R s" and G: "dom G = set (home (logst s))" "V = val G (dblocks s)"
    using txn_obtain [OF t] by metis
  show ?thesis
  proof (rule brelse_w [where bn = bn, OF bc R], goal_cases)
    case (2 s')
    have "txn p k V (R(bn := None)) s'"
      by (rule txn_cache [OF t 2(1) G]) (use 2(2) t in \<open>simp_all add: txn_def\<close>)
    then show ?case using Q wrote_fskeep [OF 2(1)] wrote_logst [OF 2(1)] by blast
  qed (simp add: G)
qed

lemma txn_log_write:
  assumes t: "txn p (Suc k) V R s" and R: "R bn = Some (b, d)" and bn: "bn \<notin> log_area (logst s)" "unat bn < 2 ^ 31" and d: "blk_ok d"
    and Q: "\<And>s'. txn p k (V(bn := d)) R s' \<Longrightarrow> fskeep p s s' \<Longrightarrow> Q () s'"
  shows "rt (disk_env p) (log_write b) Q s"
proof -
  let ?L = "logst s"
  obtain G where bc: "bcache (log_dev ?L) p (\<lambda>_. 0) G R s" and G: "dom G = set (home ?L)" "V = val G (dblocks s)"
    using txn_obtain [OF t] by metis
  have L: "log_wf ?L" "lh_n (lh ?L) < log_size ?L - 1" "log_size ?L \<le> LOGSIZE" "1 \<le> outstanding ?L"
    using t by (simp_all add: txn_def)
  obtain s' where s': "log_write b s = Ok () s'" and bc': "bcache (log_dev ?L) p (\<lambda>_. 0) (G(bn \<mapsto> d)) R s'" and l: "logst s' = logged bn ?L"
    and wf: "log_wf (logst s')" and h: "set (home (logst s')) = insert bn (set (home ?L))"
    and e: "rest p s' = rest p s" "dblocks s' = dblocks s" "inodes s' = inodes s"
    using log_write_bcache [OF refl bc R L(1) G(1) bn L(2-4)] by blast
  have lay: "same_layout ?L (logst s')" and n: "lh_n (lh (logst s')) \<le> lh_n (lh ?L) + 1"
    by (simp_all add: l logged_def same_layout_def)
  have V: "V(bn := d) = val (G(bn \<mapsto> d)) (dblocks s')" by (auto simp: G(2) val_def e fun_eq_iff)
  have "txn p k (V(bn := d)) R s'"
    unfolding txn_def
  proof (intro conjI exI [of _ "G(bn \<mapsto> d)"])
    show "bcache (log_dev (logst s')) p (\<lambda>_. 0) (G(bn \<mapsto> d)) R s'" using bc' lay by (simp add: same_layout_def)
    show "dom (G(bn \<mapsto> d)) = set (home (logst s'))" using G(1) h by simp
    show "\<forall>m. blk_ok ((V(bn := d)) m) \<and> blk_ok (dblocks s' m)" using t d e by (simp add: txn_def)
  qed (use V wf t lay n in \<open>simp_all add: txn_def same_layout_def\<close>)
  then show ?thesis
    using Q e lay by (simp add: rt_Ok [where m = "log_write b", OF s'] fskeep_def)
qed

text \<open>Reading a block, changing it and handing it to the log changes that block of the view.\<close>

lemma txn_update:
  assumes t: "txn p (Suc k) V R s" and R: "R bn = None" "card (dom R) \<le> k" and bn: "bn \<notin> log_area (logst s)" "unat bn < 2 ^ 31"
    and d: "blk_ok (f (V bn))" and dv: "dv = log_dev (logst s)"
    and Q: "\<And>s'. txn p k (V(bn := f (V bn))) R s' \<Longrightarrow> fskeep p s s' \<Longrightarrow> Q () s'"
  shows "rt (disk_env p) (bind (bread dv bn) (\<lambda>bp. seq (set_data bp f) (seq (log_write bp) (brelse bp)))) Q s"
  unfolding rt_bind rt_seq
proof (rule txn_bread [OF t R(1) _ bn(2) dv], goal_cases)
  case s1: (2 b s1)
  show ?case
  proof (rule txn_set_data [where bn = bn and d = "V bn", OF s1(1)], goal_cases)
    case s2: (2 s2)
    then have t2: "txn p (Suc k) V (R(bn \<mapsto> (b, f (V bn)))) s2" by simp
    have a: "bn \<notin> log_area (logst s2)" using bn(1) s2(3) s1(3) by simp
    show ?case
    proof (rule txn_log_write [where bn = bn and d = "f (V bn)", OF t2 _ a bn(2) d], goal_cases)
      case s3: (2 s3)
      show ?case
      proof (rule txn_brelse [where bn = bn, OF s3(1)], goal_cases)
        case s4: (2 s4)
        have "R(bn \<mapsto> (b, f (V bn)), bn := None) = R" using R(1) by (simp add: fun_upd_idem)
        then have "txn p k (V(bn := f (V bn))) R s4" using s4(1) by simp
        moreover have "fskeep p s s4" using s1(2) s2(2) s3(2) s4(2) by (blast intro: fskeep_trans)
        ultimately show ?case by (rule Q)
      qed simp
    qed simp
  qed simp
qed (use R in simp)

section \<open>The block allocator\<close>

definition block_used :: "superblock \<Rightarrow> (u32 \<Rightarrow> block) \<Rightarrow> u32 \<Rightarrow> bool" where
  "block_used sbk V b \<longleftrightarrow> bit (V (BBLOCK b sbk) (unat b mod BPB div 8)) (unat b mod 8)"

lemma bit_bmask: "bit (bmask bi) k \<longleftrightarrow> k = bi mod 8"
  by (auto simp: bmask_def bit_exp_iff)

lemma bmask_free: "x AND bmask bi = 0 \<longleftrightarrow> \<not> bit x (bi mod 8)"
proof -
  have "bit (x AND bmask bi) k \<longleftrightarrow> k = bi mod 8 \<and> bit x (bi mod 8)" for k
    by (auto simp: bit_and_iff bit_bmask)
  moreover have "x AND bmask bi = 0 \<longleftrightarrow> (\<forall>k. \<not> bit (x AND bmask bi) k)"
    by (metis bit_0_eq bit_word_eqI bot_apply bot_bool_def)
  ultimately show ?thesis by simp
qed

lemma bit_set_bmask: "bit (x OR bmask bi) k \<longleftrightarrow> bit x k \<or> k = bi mod 8"
  by (simp add: bit_or_iff bit_bmask)

lemma bit_clear_bmask: "bit (x AND NOT (bmask bi)) k \<longleftrightarrow> bit x k \<and> k \<noteq> bi mod 8"
  by (auto simp: bit_and_iff bit_not_iff bit_bmask dest: bit_imp_le_length)

text \<open>The geometry that \<open>mkfs\<close> establishes: the bitmap lies outside the log and below the size of the
  file system, and the bitmap marks the log and itself as in use.\<close>

definition bitmap_ok :: "superblock \<Rightarrow> log \<Rightarrow> (u32 \<Rightarrow> block) \<Rightarrow> bool" where
  "bitmap_ok sbk L V \<longleftrightarrow> unat (sb_size sbk) < 2 ^ 31
     \<and> (\<forall>b. unat b < unat (sb_size sbk) \<longrightarrow> BBLOCK b sbk \<notin> log_area L \<and> unat (BBLOCK b sbk) < 2 ^ 31 \<and> block_used sbk V (BBLOCK b sbk))
     \<and> (\<forall>b \<in> log_area L. block_used sbk V b)"

lemma bzero_rt:
  assumes t: "txn p (Suc k) V R s" and R: "R bn = None" "card (dom R) \<le> k" and bn: "bn \<notin> log_area (logst s)" "unat bn < 2 ^ 31"
    and dv: "dv = log_dev (logst s)" and Q: "\<And>s'. txn p k (V(bn := (\<lambda>_. 0))) R s' \<Longrightarrow> fskeep p s s' \<Longrightarrow> Q () s'"
  shows "rt (disk_env p) (bzero dv bn) Q s"
proof -
  have z: "(\<lambda>i. if i < BSIZE then 0 else V bn i) = (\<lambda>_. 0)" using t by (auto simp: txn_def blk_ok_def)
  show ?thesis
    unfolding bzero_def
    by (rule txn_update [where f = "\<lambda>d i. if i < BSIZE then 0 else d i", OF t R bn _ dv]) (unfold z, simp add: blk_ok_def, rule Q)
qed

text \<open>Changing one bit of the bitmap changes the state of one block.\<close>

lemma BBLOCK_eq:
  assumes "unat a < 2 ^ 31" "unat b < 2 ^ 31"
  shows "BBLOCK a sbk = BBLOCK b sbk \<longleftrightarrow> unat a div BPB = unat b div BPB"
proof -
  have "BBLOCK a sbk = BBLOCK b sbk \<longleftrightarrow> a div of_nat BPB = b div of_nat BPB" by (simp add: BBLOCK_def)
  also have "\<dots> \<longleftrightarrow> unat (a div of_nat BPB) = unat (b div of_nat BPB)" by (simp add: word_unat_eq_iff)
  finally show ?thesis by (simp add: unat_div)
qed

lemma mod_BPB_8: "(a :: nat) mod BPB mod 8 = a mod 8"
  by (rule mod_mod_cancel) simp

lemma div_mod_eq: "(a :: nat) div n = b div n \<Longrightarrow> a mod n = b mod n \<Longrightarrow> a = b"
  by (metis div_mult_mod_eq)

lemma bit_place:
  assumes "(a :: nat) div BPB = b div BPB" "a mod BPB div 8 = b mod BPB div 8" "a mod 8 = b mod 8"
  shows "a = b"
proof (rule div_mod_eq [OF assms(1)])
  show "a mod BPB = b mod BPB" by (rule div_mod_eq [OF assms(2)]) (simp only: mod_BPB_8 assms(3))
qed

definition set_bit_of :: "superblock \<Rightarrow> u32 \<Rightarrow> (u32 \<Rightarrow> block) \<Rightarrow> block" where
  "set_bit_of sbk a V = (let d = V (BBLOCK a sbk); bi = unat a mod BPB in d(bi div 8 := d (bi div 8) OR bmask bi))"

definition clear_bit_of :: "superblock \<Rightarrow> u32 \<Rightarrow> (u32 \<Rightarrow> block) \<Rightarrow> block" where
  "clear_bit_of sbk a V = (let d = V (BBLOCK a sbk); bi = unat a mod BPB in d(bi div 8 := d (bi div 8) AND NOT (bmask bi)))"

lemma block_used_set:
  assumes "unat a < 2 ^ 31" "unat b < 2 ^ 31"
  shows "block_used sbk (V(BBLOCK a sbk := set_bit_of sbk a V)) b \<longleftrightarrow> block_used sbk V b \<or> b = a"
    and "block_used sbk (V(BBLOCK a sbk := clear_bit_of sbk a V)) b \<longleftrightarrow> block_used sbk V b \<and> b \<noteq> a"
proof -
  have eq: "b = a \<longleftrightarrow> unat b div BPB = unat a div BPB \<and> unat b mod BPB div 8 = unat a mod BPB div 8 \<and> unat b mod 8 = unat a mod 8"
    using bit_place [of "unat b" "unat a"] by (auto simp only: word_unat_eq_iff)
  show "block_used sbk (V(BBLOCK a sbk := set_bit_of sbk a V)) b \<longleftrightarrow> block_used sbk V b \<or> b = a"
    unfolding eq using BBLOCK_eq [OF assms(2,1)]
    by (auto simp: block_used_def set_bit_of_def Let_def bit_set_bmask mod_BPB_8)
  show "block_used sbk (V(BBLOCK a sbk := clear_bit_of sbk a V)) b \<longleftrightarrow> block_used sbk V b \<and> b \<noteq> a"
    unfolding eq using BBLOCK_eq [OF assms(2,1)]
    by (auto simp: block_used_def clear_bit_of_def Let_def bit_clear_bmask mod_BPB_8)
qed

lemma bitmap_blk_ok:
  assumes "blk_ok (V (BBLOCK a sbk))"
  shows "blk_ok (set_bit_of sbk a V)" "blk_ok (clear_bit_of sbk a V)"
proof -
  have "unat a mod BPB div 8 < 1024" by (simp add: div_less_iff_less_mult)
  then show "blk_ok (set_bit_of sbk a V)" "blk_ok (clear_bit_of sbk a V)"
    using assms by (auto simp: blk_ok_def set_bit_of_def clear_bit_of_def Let_def)
qed

lemma bfree_rt:
  assumes t: "txn p (Suc k) V R s" and R: "R (BBLOCK b (sb s)) = None" "card (dom R) \<le> k"
    and ok: "bitmap_ok (sb s) (logst s) V" "unat b < unat (sb_size (sb s))" and dv: "dv = log_dev (logst s)" and use: "block_used (sb s) V b"
    and Q: "\<And>s'. txn p k (V(BBLOCK b (sb s) := clear_bit_of (sb s) b V)) R s' \<Longrightarrow> fskeep p s s' \<Longrightarrow> Q () s'"
  shows "rt (disk_env p) (bfree dv b) Q s"
proof -
  let ?bb = "BBLOCK b (sb s)" and ?bi = "unat b mod BPB"
  have g: "?bb \<notin> log_area (logst s)" "unat ?bb < 2 ^ 31" using ok by (auto simp: bitmap_ok_def)
  have bok: "blk_ok (V ?bb)" using t by (simp add: txn_def)
  have set: "V ?bb (?bi div 8) AND bmask ?bi \<noteq> 0"
    using use by (simp add: bmask_free block_used_def mod_BPB_8)
  show ?thesis
    unfolding bfree_def rt_bind rt_gets
  proof (rule txn_bread [OF t R(1) _ g(2) dv], goal_cases)
    case s1: (2 b' s1)
    obtain G where "bcache (log_dev (logst s1)) p (\<lambda>_. 0) G (R(?bb \<mapsto> (b', V ?bb))) s1" using txn_obtain [OF s1(1)] by metis
    then have d: "b_data (bufs s1 b') = V ?bb" by (rule bcache_held(4) [where bn = ?bb]) simp
    have a: "(b_data (bufs s1 b') (?bi div 8) AND bmask ?bi = 0) = False" using d set by simp
    let ?f = "\<lambda>d. d(?bi div 8 := d (?bi div 8) AND NOT (bmask ?bi))"
    have f: "?f (V ?bb) = clear_bit_of (sb s) b V" by (simp add: clear_bit_of_def Let_def)
    show ?case
      unfolding Let_def rt_bind rt_gets rt_seq a rt_panic_if
    proof (rule conjI, simp, rule txn_set_data [where bn = ?bb and d = "V ?bb", OF s1(1)], goal_cases)
      case s2: (2 s2)
      then have t2: "txn p (Suc k) V (R(?bb \<mapsto> (b', clear_bit_of (sb s) b V))) s2" by (simp add: f)
      show ?case
      proof (rule txn_log_write [where bn = ?bb, OF t2 _ _ g(2) bitmap_blk_ok(2) [where V = V, OF bok]], goal_cases)
        case s3: (3 s3)
        show ?case
        proof (rule txn_brelse [where bn = ?bb, OF s3(1)], goal_cases)
          case s4: (2 s4)
          have "R(?bb \<mapsto> (b', clear_bit_of (sb s) b V), ?bb := None) = R" using R(1) by (simp add: fun_upd_idem)
          then have "txn p k (V(?bb := clear_bit_of (sb s) b V)) R s4" using s4(1) by simp
          moreover have "fskeep p s s4" using s1(2) s2(2) s3(2) s4(2) by (blast intro: fskeep_trans)
          ultimately show ?case by (rule Q)
        qed simp
      qed (use g s1(3) s2(3) in simp_all)
    qed simp
  qed (use R in simp)
qed

lemma bitmap_base:
  assumes "j * BPB + bi < 2 ^ 31" "bi < BPB"
  shows "unat (of_nat (j * BPB + bi) :: u32) = j * BPB + bi" "BBLOCK (of_nat (j * BPB)) sbk = BBLOCK (of_nat (j * BPB + bi)) sbk"
    "(j * BPB + bi) mod BPB = bi"
proof -
  have u: "unat (of_nat n :: u32) = n" if "n < 2 ^ 31" for n
    using that by (simp add: unat_of_nat take_bit_eq_mod)
  show a: "unat (of_nat (j * BPB + bi) :: u32) = j * BPB + bi" by (rule u [OF assms(1)])
  have b: "unat (of_nat (j * BPB) :: u32) = j * BPB" by (rule u) (use assms(1) in linarith)
  have c: "unat (of_nat (j * BPB) :: u32) < 2 ^ 31" "unat (of_nat (j * BPB + bi) :: u32) < 2 ^ 31"
    unfolding a b using assms(1) by linarith+
  show "BBLOCK (of_nat (j * BPB)) sbk = BBLOCK (of_nat (j * BPB + bi)) sbk"
    unfolding BBLOCK_eq [OF c] a b using assms(2) by (simp add: div_mult2_eq)
  show "(j * BPB + bi) mod BPB = bi" using assms(2) by (simp only: mod_mult_self3 mod_less)
qed

definition balloc_view :: "superblock \<Rightarrow> u32 \<Rightarrow> (u32 \<Rightarrow> block) \<Rightarrow> (u32 \<Rightarrow> block)" where
  "balloc_view sbk a V = V(BBLOCK a sbk := set_bit_of sbk a V, a := (\<lambda>_. 0))"

lemma find_upt: "i < n \<Longrightarrow> P i \<Longrightarrow> (\<And>j. j < i \<Longrightarrow> \<not> P j) \<Longrightarrow> find P [0..<n] = Some i"
  by (auto simp: find_Some_iff intro!: exI [of _ i])

lemma find_upt_None: "(\<And>j. j < n \<Longrightarrow> \<not> P j) \<Longrightarrow> find P [0..<n] = None"
  by (auto simp: find_None_iff)

text \<open>The bits of the bitmap block that holds block \<open>j * BPB\<close>.\<close>

lemma free_bit_used:
  assumes "j * BPB + bi < 2 ^ 31" "bi < BPB"
  shows "(V (BBLOCK (of_nat (j * BPB)) sbk) (bi div 8) AND bmask bi = 0) \<longleftrightarrow> \<not> block_used sbk V (of_nat (j * BPB + bi))"
proof -
  have m: "(j * BPB + bi) mod 8 = bi mod 8"
    using mod_BPB_8 [of "j * BPB + bi"] unfolding bitmap_base(3) [OF assms] by simp
  show ?thesis
    unfolding block_used_def bitmap_base(1,2) [OF assms] bitmap_base(3) [OF assms] m bmask_free by (simp only: bitmap_base(2) [OF assms])
qed

definition least_free :: "superblock \<Rightarrow> (u32 \<Rightarrow> block) \<Rightarrow> u32 \<Rightarrow> bool" where
  "least_free sbk V a \<longleftrightarrow> unat a < unat (sb_size sbk) \<and> \<not> block_used sbk V a \<and> (\<forall>b. unat b < unat a \<longrightarrow> block_used sbk V b)"

lemma free_bit_least:
  assumes a: "least_free sbk V a" and sz: "unat (sb_size sbk) < 2 ^ 31" and j: "j \<le> unat a div BPB"
  shows "free_bit (V (BBLOCK (of_nat (j * BPB)) sbk)) (j * BPB) (unat (sb_size sbk))
    = (if j = unat a div BPB then Some (unat a mod BPB) else None)"
proof -
  let ?sz = "unat (sb_size sbk)" and ?P = "\<lambda>bi. V (BBLOCK (of_nat (j * BPB)) sbk) (bi div 8) AND bmask bi = 0"
  have jb: "j * BPB \<le> unat a" using j mult_le_mono1 [OF j, of BPB] div_times_less_eq_dividend [of "unat a" BPB] by linarith
  have P: "?P bi \<longleftrightarrow> \<not> block_used sbk V (of_nat (j * BPB + bi))" if "bi < min BPB (?sz - j * BPB)" for bi
    by (rule free_bit_used) (use that sz in linarith)+
  have lo: "block_used sbk V (of_nat (j * BPB + bi))" if "bi < BPB" "j * BPB + bi < unat a" for bi
  proof -
    have "j * BPB + bi < 2 ^ 31" using that a sz by (simp add: least_free_def)
    from bitmap_base(1) [OF this that(1)] show ?thesis using a that(2) by (simp add: least_free_def)
  qed
  show ?thesis
  proof (cases "j = unat a div BPB")
    case True
    then have e: "j * BPB + unat a mod BPB = unat a" by (simp only: div_mult_mod_eq)
    have lt: "unat a mod BPB < min BPB (?sz - j * BPB)"
    proof -
      have "unat a mod BPB < BPB" by (rule mod_less_divisor) simp
      moreover have "unat a < ?sz" using a by (simp add: least_free_def)
      ultimately show ?thesis using e by linarith
    qed
    have "find ?P [0..<min BPB (?sz - j * BPB)] = Some (unat a mod BPB)"
    proof (rule find_upt [OF lt])
      show "?P (unat a mod BPB)" unfolding P [OF lt] e using a by (simp add: least_free_def)
      fix i assume i: "i < unat a mod BPB"
      have "\<not> \<not> block_used sbk V (of_nat (j * BPB + i))" using lo [of i] i e lt by linarith
      then show "\<not> ?P i" using P [of i] i lt by linarith
    qed
    then show ?thesis using True unfolding free_bit_def by simp
  next
    case False
    then have "Suc j \<le> unat a div BPB" using j by linarith
    then have "Suc j * BPB \<le> unat a" using mult_le_mono1 [of "Suc j" "unat a div BPB" BPB] div_times_less_eq_dividend [of "unat a" BPB] by linarith
    then have "block_used sbk V (of_nat (j * BPB + bi))" if "bi < BPB" for bi using lo [OF that] that by simp
    then have "find ?P [0..<min BPB (?sz - j * BPB)] = None" using P by (intro find_upt_None) simp
    then show ?thesis using False unfolding free_bit_def by simp
  qed
qed

lemma bitmap_okD:
  assumes "bitmap_ok sbk L V" "unat b < unat (sb_size sbk)"
  shows "BBLOCK b sbk \<notin> log_area L" "unat (BBLOCK b sbk) < 2 ^ 31" "block_used sbk V (BBLOCK b sbk)" "unat (sb_size sbk) < 2 ^ 31"
  using assms unfolding bitmap_ok_def by blast+

text \<open>The blocks a caller of \<open>balloc\<close> may hold.\<close>

definition may_hold :: "superblock \<Rightarrow> (u32 \<Rightarrow> block) \<Rightarrow> held \<Rightarrow> bool" where
  "may_hold sbk V R \<longleftrightarrow> (\<forall>b. unat b < unat (sb_size sbk) \<longrightarrow> R (BBLOCK b sbk) = None \<and> (\<not> block_used sbk V b \<longrightarrow> R b = None))"

lemma balloc_hit:
  assumes t: "txn p (Suc (Suc k)) V (R(BBLOCK a (sb s) \<mapsto> (bp, V (BBLOCK a (sb s))))) s" and R: "may_hold (sb s) V R" "card (dom R) \<le> k"
    and ok: "bitmap_ok (sb s) (logst s) V" and dv: "dv = log_dev (logst s)" and a: "unat a < unat (sb_size (sb s))" "\<not> block_used (sb s) V a"
    and Q: "\<And>s'. txn p k (balloc_view (sb s) a V) R s' \<Longrightarrow> fskeep p s s' \<Longrightarrow> Q a s'"
  defines "bi \<equiv> unat a mod BPB"
  shows "rt (disk_env p) (seq (set_data bp (\<lambda>d. d(bi div 8 := d (bi div 8) OR bmask bi))) (
         seq (log_write bp) (seq (brelse bp) (seq (bzero dv a) (return a))))) Q s"
  unfolding rt_seq
proof (rule txn_set_data [where bn = "BBLOCK a (sb s)" and d = "V (BBLOCK a (sb s))", OF t], goal_cases)
  case s2: (2 s2)
  let ?bb = "BBLOCK a (sb s)" and ?d = "set_bit_of (sb s) a V"
  note g = bitmap_okD [OF ok a(1)]
  have bok: "blk_ok (V ?bb)" using t by (simp add: txn_def)
  have na: "a \<notin> log_area (logst s)" "unat a < 2 ^ 31" using a ok g(4) by (auto simp: bitmap_ok_def)
  have t2: "txn p (Suc (Suc k)) V (R(?bb \<mapsto> (bp, ?d))) s2" using s2(1) by (simp add: set_bit_of_def bi_def Let_def)
  show ?case
  proof (rule txn_log_write [where bn = ?bb, OF t2 _ _ g(2) bitmap_blk_ok(1) [where V = V, OF bok]], goal_cases)
    case s3: (3 s3)
    show ?case
    proof (rule txn_brelse [where bn = ?bb, OF s3(1)], goal_cases)
      case s4: (2 s4)
      have "R(?bb \<mapsto> (bp, ?d), ?bb := None) = R" using R(1) a(1) by (simp add: fun_upd_idem may_hold_def)
      then have t4: "txn p (Suc k) (V(?bb := ?d)) R s4" using s4(1) by simp
      have k4: "fskeep p s s4" using s2(2) s3(2) s4(2) by (blast intro: fskeep_trans)
      have "R a = None" using R(1) a by (simp add: may_hold_def)
      then show ?case
        unfolding rt_return
      proof (rule bzero_rt [OF t4 _ R(2)], goal_cases)
        case (4 s5)
        then show ?case using Q [of s5] fskeep_trans [OF k4] by (simp add: balloc_view_def)
      qed (use na dv fskeepD(3,4) [OF k4] in simp_all)
    qed simp
  qed (use g s2(3) in simp_all)
qed simp

lemma balloc_from_rt:
  assumes t: "txn p (Suc (Suc k)) V R s" and R: "may_hold (sb s) V R" "card (dom R) \<le> k"
    and ok: "bitmap_ok (sb s) (logst s) V" and dv: "dv = log_dev (logst s)" and a: "least_free (sb s) V a" and j: "j \<le> unat a div BPB"
    and nb: "unat a div BPB < nb" and Q: "\<And>s'. txn p k (balloc_view (sb s) a V) R s' \<Longrightarrow> fskeep p s s' \<Longrightarrow> Q a s'"
  shows "rt (disk_env p) (balloc_from dv (unat (sb_size (sb s))) (map (\<lambda>i. i * BPB) [j..<nb])) Q s"
  using t R ok dv a j Q
proof (induction "unat a div BPB - j" arbitrary: j s)
  case (0 j s)
  have j: "j = unat a div BPB" using "0.hyps" "0.prems"(7) by linarith
  have al: "unat a < unat (sb_size (sb s))" "\<not> block_used (sb s) V a" using "0.prems"(6) by (simp_all add: least_free_def)
  have e: "j * BPB + unat a mod BPB = unat a" unfolding j by (rule div_mult_mod_eq)
  have lt: "unat a mod BPB < BPB" by (rule mod_less_divisor) simp
  note g = bitmap_okD [OF "0.prems"(4) al(1)]
  have a31: "j * BPB + unat a mod BPB < 2 ^ 31" unfolding e using al(1) g(4) by linarith
  have bb: "BBLOCK (of_nat (j * BPB)) (sb s) = BBLOCK a (sb s)" using bitmap_base(2) [OF a31 lt, of "sb s"] unfolding e by simp
  have l: "map (\<lambda>i. i * BPB) [j..<nb] = j * BPB # map (\<lambda>i. i * BPB) [Suc j..<nb]" using nb j by (simp add: upt_conv_Cons)
  have Rb: "R (BBLOCK a (sb s)) = None" using "0.prems"(2) al(1) by (simp add: may_hold_def)
  have fb: "free_bit (V (BBLOCK a (sb s))) (j * BPB) (unat (sb_size (sb s))) = Some (unat a mod BPB)"
    using free_bit_least [OF "0.prems"(6) g(4) "0.prems"(7)] j unfolding bb by simp
  show ?case
    unfolding l balloc_from.simps rt_bind rt_gets bb
  proof (rule txn_bread [OF "0.prems"(1) Rb _ g(2) "0.prems"(5)], goal_cases)
    case s1: (2 bp s1)
    obtain G where "bcache (log_dev (logst s1)) p (\<lambda>_. 0) G (R(BBLOCK a (sb s) \<mapsto> (bp, V (BBLOCK a (sb s))))) s1" using txn_obtain [OF s1(1)] by metis
    then have d: "b_data (bufs s1 bp) = V (BBLOCK a (sb s))" by (rule bcache_held(4) [where bn = "BBLOCK a (sb s)"]) simp
    have sb: "sb s1 = sb s" by (rule fskeepD(2) [OF s1(2)])
    have ea: "(of_nat (j * BPB + unat a mod BPB) :: u32) = a" unfolding e by simp
    show ?case
      unfolding d fb option.case ea
      by (rule balloc_hit [where s = s1, unfolded sb, OF s1(1) "0.prems"(2,3)])
        (use "0.prems"(4,5) s1(3) al "0.prems"(8) fskeep_trans [OF s1(2)] in simp_all)
  qed (use "0.prems"(3) in simp)
next
  case (Suc n j s)
  have j: "j < unat a div BPB" using Suc.hyps(2) by linarith
  let ?b = "of_nat (j * BPB) :: u32" and ?bb = "BBLOCK (of_nat (j * BPB)) (sb s)"
  have al: "unat a < unat (sb_size (sb s))" using Suc.prems(6) by (simp add: least_free_def)
  have jb: "j * BPB + 0 < 2 ^ 31" and ja: "j * BPB \<le> unat a"
    using mult_le_mono1 [OF less_imp_le [OF j], of BPB] div_times_less_eq_dividend [of "unat a" BPB] al bitmap_okD(4) [OF Suc.prems(4) al]
    by linarith+
  have "unat ?b = j * BPB" using bitmap_base(1) [OF jb] by simp
  then have b: "unat ?b < unat (sb_size (sb s))" using ja al by simp
  note g = bitmap_okD [OF Suc.prems(4) b]
  have l: "map (\<lambda>i. i * BPB) [j..<nb] = j * BPB # map (\<lambda>i. i * BPB) [Suc j..<nb]" using nb j by (simp add: upt_conv_Cons)
  have Rb: "R ?bb = None" using Suc.prems(2) b unfolding may_hold_def by blast
  have fb: "free_bit (V ?bb) (j * BPB) (unat (sb_size (sb s))) = None"
    using free_bit_least [OF Suc.prems(6) g(4) Suc.prems(7)] j by simp
  show ?case
    unfolding l balloc_from.simps rt_bind rt_gets
  proof (rule txn_bread [OF Suc.prems(1) Rb _ g(2) Suc.prems(5)], goal_cases)
    case s1: (2 bp s1)
    obtain G where "bcache (log_dev (logst s1)) p (\<lambda>_. 0) G (R(?bb \<mapsto> (bp, V ?bb))) s1" using txn_obtain [OF s1(1)] by metis
    then have d: "b_data (bufs s1 bp) = V ?bb" by (rule bcache_held(4) [where bn = ?bb]) simp
    show ?case
      unfolding d fb option.case rt_seq
    proof (rule txn_brelse [where bn = ?bb, OF s1(1)], goal_cases)
      case s2: (2 s2)
      have e: "R(?bb \<mapsto> (bp, V ?bb), ?bb := None) = R" using Rb by (simp add: fun_upd_idem)
      have k2: "fskeep p s s2" by (rule fskeep_trans [OF s1(2) s2(2)])
      have sb: "sb s2 = sb s" by (rule fskeepD(2) [OF k2])
      have l2: "logst s2 = logst s" using s1(3) s2(3) by simp
      have n: "n = unat a div BPB - Suc j" using Suc.hyps(2) by linarith
      show ?case
        using Suc.hyps(1) [OF n, of s2, unfolded sb l2] s2(1) Suc.prems(2-6,8) j fskeep_trans [OF k2] unfolding e by simp
    qed simp
  qed (use Suc.prems(3) in simp)
qed

lemma balloc_rt:
  assumes t: "txn p (Suc (Suc k)) V R s" and R: "may_hold (sb s) V R" "card (dom R) \<le> k"
    and ok: "bitmap_ok (sb s) (logst s) V" and dv: "dv = log_dev (logst s)" and a: "least_free (sb s) V a"
    and Q: "\<And>s'. txn p k (balloc_view (sb s) a V) R s' \<Longrightarrow> fskeep p s s' \<Longrightarrow> Q a s'"
  shows "rt (disk_env p) (balloc dv) Q s"
proof -
  have al: "unat a < unat (sb_size (sb s))" using a by (simp add: least_free_def)
  have "Suc (unat a div BPB) * BPB \<le> unat (sb_size (sb s)) + BPB - 1"
    unfolding mult_Suc using al div_times_less_eq_dividend [of "unat a" BPB] by linarith
  then have nb: "unat a div BPB < (unat (sb_size (sb s)) + BPB - 1) div BPB"
    by (metis Suc_le_eq less_eq_div_iff_mult_less_eq zero_less_numeral)
  show ?thesis
    unfolding balloc_def rt_bind rt_gets by (rule balloc_from_rt [OF t R ok dv a le0 nb]) (rule Q)
qed

lemma balloc_view_used:
  assumes ok: "bitmap_ok sbk L V" and a: "unat a < unat (sb_size sbk)" "\<not> block_used sbk V a" and b: "unat b < unat (sb_size sbk)"
  shows "block_used sbk (balloc_view sbk a V) b \<longleftrightarrow> block_used sbk V b \<or> b = a"
proof -
  have ne: "BBLOCK b sbk \<noteq> a" using bitmap_okD(3) [OF ok b] a(2) by blast
  have lt: "unat a < 2 ^ 31" "unat b < 2 ^ 31" using a(1) b bitmap_okD(4) [OF ok b] by linarith+
  have "block_used sbk (balloc_view sbk a V) b = block_used sbk (V(BBLOCK a sbk := set_bit_of sbk a V)) b"
    using ne by (simp add: block_used_def balloc_view_def)
  then show ?thesis using block_used_set(1) [OF lt] by simp
qed

lemma least_free_exists:
  assumes "unat b < unat (sb_size sbk)" "\<not> block_used sbk V b"
  shows "\<exists>a. least_free sbk V a"
proof -
  let ?P = "\<lambda>n. n < unat (sb_size sbk) \<and> (\<exists>a. unat a = n \<and> \<not> block_used sbk V a)"
  have P: "?P (unat b)" using assms by blast
  obtain a where a: "unat a = (LEAST n. ?P n)" "\<not> block_used sbk V a" "unat a < unat (sb_size sbk)"
    using LeastI [of ?P, OF P] by auto
  have "block_used sbk V c" if "unat c < unat a" for c
    using not_less_Least [of "unat c" ?P] that a by auto
  then show ?thesis using a unfolding least_free_def by blast
qed

text \<open>C31: \<open>balloc\<close> allocates a free block: as long as the bitmap has a clear bit below the size of the file
  system, it returns the lowest free block number, marks exactly this block in the bitmap,
  leaves zeros in the block, and changes no other block as the transaction sees them, with two calls of \<open>log_write\<close>.
  So no block is ever handed out twice, and blocks of the log and of the bitmap are never handed out.\<close>

theorem balloc_correct:
  assumes "txn p (Suc (Suc k)) V Map.empty s" "bitmap_ok (sb s) (logst s) V" "dv = log_dev (logst s)"
    and "\<exists>b. unat b < unat (sb_size (sb s)) \<and> \<not> block_used (sb s) V b"
  shows "rt (disk_env p) (balloc dv) (\<lambda>a s'. least_free (sb s) V a \<and> a \<notin> log_area (logst s)
     \<and> (\<exists>V'. txn p k V' Map.empty s' \<and> V' a = (\<lambda>_. 0)
        \<and> (\<forall>b. unat b < unat (sb_size (sb s)) \<longrightarrow> block_used (sb s) V' b = (block_used (sb s) V b \<or> b = a))
        \<and> (\<forall>b. b \<noteq> a \<and> b \<noteq> BBLOCK a (sb s) \<longrightarrow> V' b = V b))
     \<and> fskeep p s s') s"
proof -
  obtain a where a: "least_free (sb s) V a" using assms(4) least_free_exists by blast
  then have al: "unat a < unat (sb_size (sb s))" "\<not> block_used (sb s) V a" by (simp_all add: least_free_def)
  have na: "a \<notin> log_area (logst s)" using assms(2) al(2) unfolding bitmap_ok_def by blast
  have h: "may_hold (sb s) V Map.empty" by (simp add: may_hold_def)
  have z: "balloc_view (sb s) a V a = (\<lambda>_. 0)" "b \<noteq> a \<and> b \<noteq> BBLOCK a (sb s) \<Longrightarrow> balloc_view (sb s) a V b = V b" for b
    by (simp_all add: balloc_view_def)
  show ?thesis
    by (rule balloc_rt [OF assms(1) h _ assms(2,3) a])
      (use a na z balloc_view_used [OF assms(2) al] in \<open>auto intro!: exI [of _ "balloc_view (sb s) a V"]\<close>)
qed

definition fs_super :: superblock where
  "fs_super = \<lparr>sb_magic = FSMAGIC, sb_size = 1000, sb_nblocks = 954, sb_ninodes = 200, sb_nlog = 30, sb_logstart = 2,
     sb_inodestart = 32, sb_bmapstart = 45\<rparr>"

definition fs_disk :: "u32 \<Rightarrow> block" where
  "fs_disk = (\<lambda>_ _. 0)(45 := \<lambda>i. if i < 6 then 255 else 0)"

definition fs_ready :: kstate where
  "fs_ready = boot_ready\<lparr>dblocks := fs_disk, sb := fs_super\<rparr>"

lemma fs_ready_logst: "logst fs_ready = \<lparr>log_start = 2, log_size = 30, outstanding = 1, committing = False, log_dev = 1, lh = \<lparr>lh_n = 0, lh_block = \<lambda>_. 0\<rparr>\<rparr>"
  by (simp add: fs_ready_def boot_ready_def log_ready_def)

lemma txn_fs_ready: "k < 30 \<Longrightarrow> txn 0 k fs_disk Map.empty fs_ready"
proof -
  assume k: "k < 30"
  have "bcore 1 i (\<lambda>_. 0) Map.empty Map.empty D (bufs cache_ready)" for i D
    by (simp add: bcore_def cell_def caches_def cache_ready_def zero_buf_def zero_sleeplock_def)
  moreover obtain xs where q: "quiet 0 cache_ready" "blist (bufs cache_ready) xs" using bcache_ready by (auto simp: bcache_def)
  ultimately have "bcache 1 0 (\<lambda>_. 0) Map.empty Map.empty fs_ready"
    by (auto simp: bcache_def quiet_def idle_thread_def fs_ready_def boot_ready_def)
  moreover have "fs_disk = val Map.empty (dblocks fs_ready)" by (simp add: fs_ready_def val_def fun_eq_iff)
  moreover have "blk_ok (fs_disk m)" for m by (simp add: fs_disk_def blk_ok_def)
  ultimately show ?thesis using k unfolding txn_def fs_ready_logst
    by (auto simp: log_wf_def home_def fs_ready_def)
qed

lemma fs_used: "unat b < 1000 \<Longrightarrow> block_used fs_super fs_disk b \<longleftrightarrow> unat b < 48"
proof -
  assume b: "unat b < 1000"
  have "b div 8192 = 0" using b by (simp add: word_unat_eq_iff unat_div)
  then have bb: "BBLOCK b fs_super = 45" by (simp add: BBLOCK_def fs_super_def)
  have "bit (255 :: byte) n" if "n < 8" for n
    using that by (simp add: bit_iff_odd numeral_nat less_Suc_eq) auto
  moreover have "unat b mod 8192 div 8 < 6 \<longleftrightarrow> unat b < 48" using b by (simp add: div_less_iff_less_mult)
  ultimately show ?thesis unfolding block_used_def bb by (simp add: fs_disk_def)
qed

lemma fs_bitmap_ok: "bitmap_ok (sb fs_ready) (logst fs_ready) fs_disk"
proof -
  have sb: "sb fs_ready = fs_super" by (simp add: fs_ready_def)
  have sz: "unat (sb_size fs_super) = 1000" by (simp add: fs_super_def)
  have bb: "BBLOCK b fs_super = 45" if "unat b < 1000" for b
  proof -
    have "b div 8192 = 0" using that by (simp add: word_unat_eq_iff unat_div)
    then show ?thesis by (simp add: BBLOCK_def fs_super_def)
  qed
  have area: "b \<in> log_area (logst fs_ready) \<longleftrightarrow> 2 \<le> unat b \<and> unat b < 32" for b
    by (simp add: log_area_def fs_ready_logst)
  show ?thesis
    unfolding bitmap_ok_def sb sz using fs_used bb area by simp
qed

theorem balloc_correct_witness: "rt (disk_env 0) (balloc 1) (\<lambda>a s'. a = 48) fs_ready"
proof -
  have sb: "sb fs_ready = fs_super" by (simp add: fs_ready_def)
  have sz: "unat (sb_size fs_super) = 1000" by (simp add: fs_super_def)
  have free: "\<exists>b. unat b < unat (sb_size (sb fs_ready)) \<and> \<not> block_used (sb fs_ready) fs_disk b"
    unfolding sb sz using fs_used [of 48] by (intro exI [of _ 48]) simp
  have dv: "1 = log_dev (logst fs_ready)" by (simp add: fs_ready_logst)
  have a: "a = 48" if "least_free fs_super fs_disk a" for a
  proof -
    have lf: "unat a < 1000" "\<not> block_used fs_super fs_disk a" "unat (48 :: u32) < unat a \<Longrightarrow> block_used fs_super fs_disk 48"
      using that unfolding least_free_def sz by blast+
    have u: "unat (48 :: u32) = 48" by simp
    have n48: "\<not> block_used fs_super fs_disk 48" using fs_used [of 48] by simp
    have "\<not> unat a < 48" using lf(1,2) fs_used [of a] by simp
    moreover have "\<not> 48 < unat a" using lf(3) n48 unfolding u by blast
    moreover note lf(1)
    ultimately have "unat a = 48" by linarith
    then show ?thesis by (simp add: word_unat_eq_iff)
  qed
  have t: "txn 0 (Suc (Suc 0)) fs_disk Map.empty fs_ready" by (rule txn_fs_ready) simp
  show ?thesis
    by (rule rt_mono [OF balloc_correct [OF t fs_bitmap_ok dv free]]) (use a in \<open>simp add: sb\<close>)
qed

section \<open>Inodes on the disk\<close>

lemma put_addrs_get:
  assumes "i < NDIRECT + 1"
  shows "bld 4 (put_addrs off a d) (off + 4 * i) = a i"
proof -
  have "i < n \<Longrightarrow> bld 4 (fold (\<lambda>i. bst 4 (off + 4 * i) (a i)) [0..<n] d) (off + 4 * i) = a i" for n
  proof (induction n)
    case (Suc n)
    then show ?case by (cases "i = n") (simp_all add: bld_bst_other bld_bst_same)
  qed simp
  then show ?thesis using assms unfolding put_addrs_def by blast
qed

lemma put_addrs_other:
  assumes "off' + m \<le> off \<or> off + 52 \<le> off'"
  shows "bld m (put_addrs off a d) off' = bld m d off'"
proof -
  have L: "n \<le> NDIRECT + 1 \<Longrightarrow> bld m (fold (\<lambda>i. bst 4 (off + 4 * i) (a i)) [0..<n] d) off' = bld m d off'" for n
  proof (induction n)
    case (Suc n)
    have "off + 4 * n + 4 \<le> off' \<or> off' + m \<le> off + 4 * n" using assms Suc.prems by linarith
    then show ?case using Suc by (simp add: bld_bst_other)
  qed simp
  show ?thesis unfolding put_addrs_def by (rule L) (rule order_refl)
qed

lemma put_dinode_get: "get_dinode (put_dinode k di d) k = di\<lparr>di_addrs := \<lambda>i. if i < NDIRECT + 1 then di_addrs di i else 0\<rparr>"
  by (rule dinode.equality) (auto simp: get_dinode_def put_dinode_def put_addrs_get put_addrs_other bld_bst_same bld_bst_other fun_eq_iff)

lemma put_dinode_frame:
  assumes "off + m \<le> 64 * k \<or> 64 * k + 64 \<le> off"
  shows "bld m (put_dinode k di d) off = bld m d off"
  using assms unfolding put_dinode_def by (auto simp: put_addrs_other bld_bst_other)

lemma put_dinode_other:
  assumes "j \<noteq> k"
  shows "get_dinode (put_dinode k di d) j = get_dinode d j"
proof -
  have o: "64 * j + 64 \<le> 64 * k \<or> 64 * k + 64 \<le> 64 * j" using assms by linarith
  have "off + m \<le> 64 * k \<or> 64 * k + 64 \<le> off" if "64 * j \<le> off" "off + m \<le> 64 * j + 64" for m off
    using o that by linarith
  note fr = put_dinode_frame [OF this]
  have "(if i < NDIRECT + 1 then bld 4 (put_dinode k di d) (64 * j + 12 + 4 * i) else 0) =
      (if i < NDIRECT + 1 then bld 4 d (64 * j + 12 + 4 * i) else (0 :: u32))" for i
    by (simp add: fr)
  then show ?thesis unfolding get_dinode_def by (simp only: fr add_2_eq_Suc' trans_le_add1 add_le_mono le_refl numeral_le_iff)
qed

lemma put_addrs_ok: "blk_ok d \<Longrightarrow> off + 52 \<le> BSIZE \<Longrightarrow> blk_ok (put_addrs off a d)"
proof -
  assume d: "blk_ok d" and off: "off + 52 \<le> BSIZE"
  have L: "n \<le> NDIRECT + 1 \<Longrightarrow> blk_ok (fold (\<lambda>i. bst 4 (off + 4 * i) (a i)) [0..<n] d)" for n
  proof (induction n)
    case (Suc n)
    then have "off + 4 * n + 4 \<le> BSIZE" using off by linarith
    then show ?case using Suc by (simp add: bst_ok)
  qed (use d in simp)
  show ?thesis unfolding put_addrs_def by (rule L) (rule order_refl)
qed

lemma put_dinode_ok:
  assumes "blk_ok d" "k < IPB"
  shows "blk_ok (put_dinode k di d)"
  unfolding put_dinode_def by (intro put_addrs_ok bst_ok assms(1)) (use assms(2) in linarith)+

end
