(* ===== verification/Pagetable.thy ===== *)
theory Pagetable
  imports Vm
begin

text \<open>
  What a page table means.  \<open>lookup 2 m pt va\<close> is the page-table entry that the hardware and \<open>walk\<close>
  find for \<open>va\<close>, with 0 for none; \<open>tset 2 m pt\<close> is the set of pages the tree of page tables
  occupies, and \<open>twf\<close> says that these pages are pairwise different.  The operations of \<open>vm.c\<close> are
  specified by their effect on \<open>lookup\<close>.
\<close>

section \<open>Page-table entries\<close>

definition pg :: "u64 \<Rightarrow> bool" where
  "pg p \<longleftrightarrow> p mod PGSIZE = 0 \<and> p \<noteq> 0 \<and> p < 0x100000000000000"

lemma page_ok_pg: "page_ok ks p \<Longrightarrow> pg p"
  by (simp add: page_ok_def pg_def word_less_nat_alt)

lemma bit_aligned:
  assumes "(p :: u64) mod 4096 = 0" "i < 12"
  shows "\<not> bit p i"
proof -
  have "take_bit 12 p = 0"
    using assms(1) by (simp add: take_bit_eq_mod)
  then have "\<not> bit (take_bit 12 p) i" by simp
  then show ?thesis using assms(2) by (simp add: bit_take_bit_iff)
qed

lemma bit_below:
  assumes "unat (p :: u64) < 2 ^ n" "n \<le> i" "n < 64"
  shows "\<not> bit p i"
proof -
  have "take_bit n (unat p) = unat p"
    using assms(1) by (simp add: take_bit_eq_mod)
  then have "\<not> bit (unat p) i"
    using assms(2) by (metis bit_take_bit_iff not_le)
  then show ?thesis by (simp add: bit_unsigned_iff)
qed

lemma PTE2PA_PA2PTE:
  assumes "p mod 4096 = 0" "p < 0x100000000000000" "f < 1024"
  shows "PTE2PA (PA2PTE p OR f) = p"
proof (rule bit_word_eqI)
  fix n assume n: "n < LENGTH(64)"
  have f: "\<not> bit f k" if "10 \<le> k" for k
    using bit_below [of f 10 k] assms(3) that by (simp add: word_less_nat_alt)
  consider (low) "n < 12" | (high) "56 \<le> n" | (mid) "12 \<le> n" "n < 56" by linarith
  then show "bit (PTE2PA (PA2PTE p OR f)) n \<longleftrightarrow> bit p n"
  proof cases
    case low
    then show ?thesis
      using bit_aligned [OF assms(1) low] by (simp add: PTE2PA_def bit_push_bit_iff bit_or_iff)
  next
    case high
    have "\<not> bit p n"
      using bit_below [of p 56 n] assms(2) high by (simp add: word_less_nat_alt)
    then show ?thesis
      using high n f by (auto simp: PTE2PA_def PA2PTE_def bit_push_bit_iff bit_drop_bit_eq bit_or_iff)
  next
    case mid
    then show ?thesis
      using n f by (auto simp: PTE2PA_def PA2PTE_def bit_push_bit_iff bit_drop_bit_eq bit_or_iff)
  qed
qed

lemma PTE_FLAGS_PA2PTE:
  assumes "f < 1024"
  shows "PTE_FLAGS (PA2PTE p OR f) = f"
proof (rule bit_word_eqI)
  fix n assume n: "n < LENGTH(64)"
  have f: "\<not> bit f k" if "10 \<le> k" for k
    using bit_below [of f 10 k] assms that by (simp add: word_less_nat_alt)
  have m: "(1023 :: u64) = mask 10"
    by (simp add: mask_eq_exp_minus_1)
  show "bit (PTE_FLAGS (PA2PTE p OR f)) n \<longleftrightarrow> bit f n"
    using n f by (auto simp: PTE_FLAGS_def PA2PTE_def m bit_and_iff bit_or_iff bit_push_bit_iff bit_mask_iff not_less [symmetric])
qed

section \<open>The entries of one table\<close>

definition entry :: "memory \<Rightarrow> u64 \<Rightarrow> nat \<Rightarrow> u64" where
  "entry m p i = ld 8 m (p + 8 * of_nat i)"

abbreviation is_v :: "u64 \<Rightarrow> bool" where
  "is_v v \<equiv> v AND PTE_V \<noteq> 0"

definition px :: "nat \<Rightarrow> u64 \<Rightarrow> nat" where
  "px l va = unat (PX l va)"

lemma px_less: "px l va < 512"
proof -
  have "PX l va = take_bit 9 (drop_bit (PXSHIFT l) va)"
    by (simp add: PX_def take_bit_eq_mask mask_eq_exp_minus_1)
  then have "PX l va = drop_bit (PXSHIFT l) va mod 512"
    by (simp add: take_bit_eq_mod)
  then show ?thesis
    by (simp add: px_def unat_mod)
qed

lemma pte_addr_px: "pte_addr p l va = p + 8 * of_nat (px l va)"
  by (simp add: pte_addr_def px_def)

lemma off_unat: "i < 512 \<Longrightarrow> j < 8 \<Longrightarrow> unat (8 * of_nat i + of_nat j :: u64) = 8 * i + j"
proof -
  assume "i < 512" "j < 8"
  then have "8 * i + j < 2 ^ 64" by simp
  from unat_of_nat_u64 [OF this] show ?thesis by simp
qed

lemma entry_in_page:
  assumes "i < 512" "j < 8"
  shows "in_page p (p + 8 * of_nat i + of_nat j)"
proof -
  have "p + 8 * of_nat i + of_nat j - p = 8 * of_nat i + of_nat j" by simp
  then show ?thesis
    using off_unat [OF assms] assms by (simp add: in_page_def)
qed

lemma entry_cong:
  assumes "\<And>x. in_page p x \<Longrightarrow> m' x = m x" "i < 512"
  shows "entry m' p i = entry m p i"
  unfolding entry_def by (rule ld_cong) (rule assms(1), rule entry_in_page [OF assms(2)])

lemma entry_st_same [simp]: "entry (st 8 (p + 8 * of_nat i) v m) p i = v"
  by (simp add: entry_def ld_st_same)

lemma entry_st_other:
  assumes "i < 512" "j < 512" "i \<noteq> j"
  shows "entry (st 8 (p + 8 * of_nat i) v m) p j = entry m p j"
  unfolding entry_def
proof (rule ld_cong)
  fix k :: nat assume k: "k < 8"
  have "\<not> unat (p + 8 * of_nat j + of_nat k - (p + 8 * of_nat i)) < 8"
  proof
    assume "unat (p + 8 * of_nat j + of_nat k - (p + 8 * of_nat i)) < 8"
    moreover have "p + 8 * of_nat j + of_nat k - (p + 8 * of_nat i) = (8 * of_nat j + of_nat k) - (8 * of_nat i :: u64)"
      by simp
    ultimately obtain d where d: "d < 8" "(8 * of_nat j + of_nat k) - 8 * of_nat i = (of_nat d :: u64)"
      by (intro that [of "unat ((8 * of_nat j + of_nat k) - (8 * of_nat i :: u64))"]) simp_all
    then have "(8 * of_nat j + of_nat k :: u64) = 8 * of_nat i + of_nat d"
      by (simp add: algebra_simps)
    then have "8 * j + k = 8 * i + d"
      using off_unat [OF assms(2) k] off_unat [OF assms(1) d(1)] by metis
    then show False
      using k d(1) assms(3) by linarith
  qed
  then show "st 8 (p + 8 * of_nat i) v m (p + 8 * of_nat j + of_nat k) = m (p + 8 * of_nat j + of_nat k)"
    by (rule st_other)
qed

lemma st_page:
  assumes "i < 512" "\<not> in_page p x"
  shows "st 8 (p + 8 * of_nat i) v m x = m x"
proof (rule st_other, rule notI)
  assume "unat (x - (p + 8 * of_nat i)) < 8"
  then obtain d where d: "d < 8" "x - (p + 8 * of_nat i) = of_nat d"
    by (intro that [of "unat (x - (p + 8 * of_nat i))"]) simp_all
  then have "x = p + 8 * of_nat i + of_nat d"
    by (simp add: algebra_simps)
  with entry_in_page [OF assms(1) d(1)] assms(2) show False by simp
qed

section \<open>The tree\<close>

fun lookup :: "nat \<Rightarrow> memory \<Rightarrow> u64 \<Rightarrow> u64 \<Rightarrow> u64" where
  "lookup 0 m p va = entry m p (px 0 va)"
| "lookup (Suc l) m p va =
     (let v = entry m p (px (Suc l) va) in if is_v v then lookup l m (PTE2PA v) va else 0)"

fun tset :: "nat \<Rightarrow> memory \<Rightarrow> u64 \<Rightarrow> u64 set" where
  "tset 0 m p = {p}"
| "tset (Suc l) m p =
     insert p (\<Union>i \<in> {i. i < 512 \<and> is_v (entry m p i)}. tset l m (PTE2PA (entry m p i)))"

fun twf :: "nat \<Rightarrow> memory \<Rightarrow> u64 \<Rightarrow> bool" where
  "twf 0 m p = pg p"
| "twf (Suc l) m p =
     (pg p \<and> (\<forall>i < 512. is_v (entry m p i) \<longrightarrow>
        twf l m (PTE2PA (entry m p i)) \<and> p \<notin> tset l m (PTE2PA (entry m p i))
        \<and> (\<forall>j < 512. i \<noteq> j \<and> is_v (entry m p j) \<longrightarrow>
             tset l m (PTE2PA (entry m p i)) \<inter> tset l m (PTE2PA (entry m p j)) = {})))"

lemma tset_root [simp]: "p \<in> tset l m p"
  by (cases l) auto

lemma twf_pg: "twf l m p \<Longrightarrow> q \<in> tset l m p \<Longrightarrow> pg q"
proof (induction l arbitrary: p)
  case 0
  then show ?case by simp
next
  case (Suc l)
  then show ?case by auto
qed

text \<open>Memory that differs only outside the pages of the tree holds the same tree.\<close>

definition agree :: "u64 set \<Rightarrow> memory \<Rightarrow> memory \<Rightarrow> bool" where
  "agree T m m' \<longleftrightarrow> (\<forall>q \<in> T. \<forall>x. in_page q x \<longrightarrow> m' x = m x)"

lemma agreeD: "agree T m m' \<Longrightarrow> q \<in> T \<Longrightarrow> in_page q x \<Longrightarrow> m' x = m x"
  by (simp add: agree_def)

lemma agree_mono: "agree T m m' \<Longrightarrow> U \<subseteq> T \<Longrightarrow> agree U m m'"
  by (auto simp: agree_def)

lemma agree_entry: "agree T m m' \<Longrightarrow> p \<in> T \<Longrightarrow> i < 512 \<Longrightarrow> entry m' p i = entry m p i"
  by (rule entry_cong) (auto simp: agree_def)

lemma tree_cong:
  assumes "agree (tset l m p) m m'"
  shows "tset l m' p = tset l m p" and "twf l m' p = twf l m p" and "lookup l m' p = lookup l m p"
  using assms
proof (induction l arbitrary: p)
  case 0
  {
    case 1 then show ?case by simp
  next
    case 2 then show ?case by simp
  next
    case 3
    then show ?case
      using agree_entry [OF 3] px_less by (auto simp: fun_eq_iff)
  }
next
  case (Suc l)
  have e: "entry m' p i = entry m p i" if "agree (tset (Suc l) m p) m m'" "i < 512" for p i
    by (rule agree_entry [OF that(1) _ that(2)]) simp
  have c: "agree (tset l m (PTE2PA (entry m p i))) m m'"
    if "agree (tset (Suc l) m p) m m'" "i < 512" "is_v (entry m p i)" for p i
    by (rule agree_mono [OF that(1)]) (use that in auto)
  {
    case 1
    then show ?case
      using e [OF 1] c [OF 1] Suc.IH(1) by (auto cong: conj_cong)
  next
    case 2
    have "tset l m' (PTE2PA (entry m p i)) = tset l m (PTE2PA (entry m p i))"
      "twf l m' (PTE2PA (entry m p i)) = twf l m (PTE2PA (entry m p i))"
      if "i < 512" "is_v (entry m p i)" for i
      using c [OF 2 that] Suc.IH by blast+
    then show ?case
      using e [OF 2] by (auto cong: conj_cong)
  next
    case 3
    have "lookup l m' (PTE2PA (entry m p i)) = lookup l m (PTE2PA (entry m p i))"
      if "i < 512" "is_v (entry m p i)" for i
      using c [OF 3 that] Suc.IH(3) by blast
    then show ?case
      using e [OF 3 px_less] px_less by (simp add: fun_eq_iff Let_def)
  }
qed

section \<open>Changing one subtree\<close>

definition changed :: "u64 set \<Rightarrow> memory \<Rightarrow> memory \<Rightarrow> bool" where
  "changed T m m' \<longleftrightarrow> (\<forall>x. m' x \<noteq> m x \<longrightarrow> (\<exists>q \<in> T. in_page q x))"

lemma changed_refl [simp]: "changed T m m"
  by (simp add: changed_def)

lemma changed_mono: "changed T m m' \<Longrightarrow> T \<subseteq> U \<Longrightarrow> changed U m m'"
  by (auto simp: changed_def)

lemma changed_trans: "changed T m m' \<Longrightarrow> changed T m' m'' \<Longrightarrow> changed T m m''"
  unfolding changed_def by metis

lemma agree_of_changed:
  assumes "changed T m m'" "\<And>q. q \<in> T \<union> U \<Longrightarrow> pg q" "T \<inter> U = {}"
  shows "agree U m m'"
  unfolding agree_def
proof (intro ballI allI impI, rule ccontr)
  fix q x
  assume q: "q \<in> U" "in_page q x" and "m' x \<noteq> m x"
  then obtain r where r: "r \<in> T" "in_page r x"
    using assms(1) by (auto simp: changed_def)
  then have "r \<noteq> q" using q assms(3) by blast
  then show False
    using pages_disjoint [of r q x] q r assms(2) [of q] assms(2) [of r] by (simp add: pg_def)
qed

lemma child_update:
  assumes wf: "twf (Suc l) m p" and i: "i < 512" "is_v (entry m p i)"
    and c: "c = PTE2PA (entry m p i)"
    and wf': "twf l m' c" and sub: "tset l m' c \<subseteq> tset l m c \<union> F"
    and F: "F \<inter> tset (Suc l) m p = {}" and ch: "changed (tset l m' c) m m'"
  shows "\<And>j. j < 512 \<Longrightarrow> entry m' p j = entry m p j"
    and "twf (Suc l) m' p"
    and "tset (Suc l) m' p \<subseteq> tset (Suc l) m p \<union> tset l m' c"
    and "tset l m' c \<subseteq> tset (Suc l) m' p"
    and "tset (Suc l) m p - tset l m c \<subseteq> tset (Suc l) m' p"
    and "\<And>va. lookup (Suc l) m' p va =
      (if px (Suc l) va = i then lookup l m' c va else lookup (Suc l) m p va)"
proof -
  have pgp: "pg p" and pgc: "\<And>q. q \<in> tset l m' c \<Longrightarrow> pg q"
    using wf twf_pg [OF wf'] by auto
  have ci: "p \<notin> tset l m c" "tset l m c \<subseteq> tset (Suc l) m p"
    using wf i c by auto
  then have p: "p \<notin> tset l m' c"
    using sub F by auto
  have ap: "agree {p} m m'"
    by (rule agree_of_changed [OF ch]) (use p pgp pgc in auto)
  show e: "entry m' p j = entry m p j" if "j < 512" for j
    by (rule agree_entry [OF ap _ that]) simp
  have o: "agree (tset l m d) m m'" "tset l m' c \<inter> tset l m d = {}" "d = PTE2PA (entry m p j) \<Longrightarrow> twf l m d \<and> p \<notin> tset l m d"
    if "j < 512" "j \<noteq> i" "is_v (entry m p j)" "d = PTE2PA (entry m p j)" for j d
  proof -
    have w: "twf l m d" "p \<notin> tset l m d" "tset l m d \<subseteq> tset (Suc l) m p" "tset l m c \<inter> tset l m d = {}"
      using wf i that c by auto
    then show dj: "tset l m' c \<inter> tset l m d = {}"
      using sub F by blast
    show "agree (tset l m d) m m'"
      by (rule agree_of_changed [OF ch]) (use pgc dj twf_pg [OF w(1)] in auto)
    show "twf l m d \<and> p \<notin> tset l m d"
      using w by simp
  qed
  have s: "tset l m' (PTE2PA (entry m p j)) = (if j = i then tset l m' c else tset l m (PTE2PA (entry m p j)))"
    "twf l m' (PTE2PA (entry m p j))" "p \<notin> tset l m' (PTE2PA (entry m p j))"
    "lookup l m' (PTE2PA (entry m p j)) = (if j = i then lookup l m' c else lookup l m (PTE2PA (entry m p j)))"
    if "j < 512" "is_v (entry m p j)" for j
    using that o [of j "PTE2PA (entry m p j)"] tree_cong [of l m "PTE2PA (entry m p j)" m'] c wf' p
    by (cases "j = i"; force)+
  have disj: "tset l m' (PTE2PA (entry m p j)) \<inter> tset l m' (PTE2PA (entry m p k)) = {}"
    if "j < 512" "k < 512" "j \<noteq> k" "is_v (entry m p j)" "is_v (entry m p k)" for j k
    using that wf o(2) [OF that(1) _ that(4) refl] o(2) [OF that(2) _ that(5) refl] s(1)
    by (cases "j = i"; cases "k = i") auto
  show "twf (Suc l) m' p"
    using pgp e s(2,3) disj by simp
  show "tset (Suc l) m' p \<subseteq> tset (Suc l) m p \<union> tset l m' c"
    using e s(1) by (auto split: if_splits)
  show "tset l m' c \<subseteq> tset (Suc l) m' p"
    using e i c by auto
  show "tset (Suc l) m p - tset l m c \<subseteq> tset (Suc l) m' p"
  proof
    fix q assume q: "q \<in> tset (Suc l) m p - tset l m c"
    show "q \<in> tset (Suc l) m' p"
    proof (cases "q = p")
      case False
      then obtain j where j: "j < 512" "is_v (entry m p j)" "q \<in> tset l m (PTE2PA (entry m p j))"
        using q by auto
      then have "j \<noteq> i" using q c by auto
      then have "q \<in> tset l m' (PTE2PA (entry m p j))"
        using s(1) [OF j(1,2)] j(3) by simp
      then show ?thesis
        using e [OF j(1)] j by auto
    qed simp
  qed
  show "lookup (Suc l) m' p va = (if px (Suc l) va = i then lookup l m' c va else lookup (Suc l) m p va)" for va
    using e [OF px_less] s(4) [OF px_less, of "Suc l" va] i c by (auto simp: Let_def)
qed

section \<open>Finding and setting a leaf\<close>

fun xwalk :: "nat \<Rightarrow> memory \<Rightarrow> u64 \<Rightarrow> u64 \<Rightarrow> u64" where
  "xwalk 0 m p va = p + 8 * of_nat (px 0 va)"
| "xwalk (Suc l) m p va =
     (let v = entry m p (px (Suc l) va) in if is_v v then xwalk l m (PTE2PA v) va else 0)"

lemma entry_addr_nz:
  assumes "pg p" "i < 512"
  shows "p + 8 * of_nat i \<noteq> 0"
proof
  assume z: "p + 8 * of_nat i = 0"
  have "in_page p 0"
    using entry_in_page [OF assms(2), of 0 p] z by simp
  moreover have "in_page 0 (0 :: u64)" "(0 :: u64) mod 4096 = 0" "p \<noteq> 0" "p mod 4096 = 0"
    using assms(1) by (simp_all add: pg_def)
  ultimately show False
    using pages_disjoint [of p 0 0] by simp
qed

lemma xwalk_cong: "agree (tset l m p) m m' \<Longrightarrow> xwalk l m' p va = xwalk l m p va"
proof (induction l arbitrary: p)
  case 0
  then show ?case by simp
next
  case (Suc l)
  let ?e = "entry m p (px (Suc l) va)"
  have e: "entry m' p (px (Suc l) va) = ?e"
    by (rule agree_entry [OF Suc.prems _ px_less]) simp
  show ?case
  proof (cases "is_v ?e")
    case True
    have "agree (tset l m (PTE2PA ?e)) m m'"
      by (rule agree_mono [OF Suc.prems]) (use True px_less in auto)
    from Suc.IH [OF this] show ?thesis using e by (simp add: Let_def)
  qed (simp add: e Let_def)
qed

lemma walk_level_find:
  "walk_level l p va False s = Ok (xwalk l (mem s) p va) s"
  by (induction l arbitrary: p) (simp_all add: load_pte_def pte_addr_px entry_def Let_def)

lemma lookup_xwalk:
  assumes "twf l m p"
  shows "lookup l m p va = (if xwalk l m p va = 0 then 0 else ld 8 m (xwalk l m p va))"
  using assms
proof (induction l arbitrary: p)
  case 0
  then show ?case
    using entry_addr_nz [OF _ px_less] by (simp add: entry_def)
next
  case (Suc l)
  then show ?case
    using px_less by (auto simp: Let_def)
qed

definition same :: "nat \<Rightarrow> u64 \<Rightarrow> u64 \<Rightarrow> bool" where
  "same l va va' \<longleftrightarrow> (\<forall>k \<le> l. px k va' = px k va)"

lemma same_Suc: "same (Suc l) va va' \<longleftrightarrow> px (Suc l) va' = px (Suc l) va \<and> same l va va'"
  by (auto simp: same_def le_Suc_eq)

lemma set_leaf:
  assumes "twf l m p" "xwalk l m p va \<noteq> 0" "m' = st 8 (xwalk l m p va) v m"
  shows "twf l m' p" and "tset l m' p = tset l m p" and "changed (tset l m p) m m'"
    and "\<And>va'. lookup l m' p va' = (if same l va va' then v else lookup l m p va')"
proof -
  have "twf l m' p \<and> tset l m' p = tset l m p \<and> changed (tset l m p) m m'
    \<and> (\<forall>va'. lookup l m' p va' = (if same l va va' then v else lookup l m p va'))"
    using assms
  proof (induction l arbitrary: p)
    case 0
    have "changed {p} m m'"
      unfolding changed_def using st_page [OF px_less, of p _ 0 va v m] 0(3) by auto
    moreover have "lookup 0 m' p va' = (if same 0 va va' then v else lookup 0 m p va')" for va'
      using entry_st_other [OF px_less px_less, of 0 va 0 va' p v m] 0(3) by (auto simp: same_def)
    ultimately show ?case
      using 0 by simp
  next
    case (Suc l)
    let ?i = "px (Suc l) va"
    let ?c = "PTE2PA (entry m p ?i)"
    have v: "is_v (entry m p ?i)" and x: "xwalk (Suc l) m p va = xwalk l m ?c va"
      using Suc.prems(2) by (auto simp: Let_def split: if_splits)
    have w: "twf l m ?c"
      using Suc.prems(1) v px_less by simp
    have nz: "xwalk l m ?c va \<noteq> 0" using Suc.prems(2) unfolding x .
    have m': "m' = st 8 (xwalk l m ?c va) v m" using Suc.prems(3) unfolding x .
    from Suc.IH [OF w nz m']
    have IH: "twf l m' ?c" "tset l m' ?c = tset l m ?c" "changed (tset l m ?c) m m'"
      "\<And>va'. lookup l m' ?c va' = (if same l va va' then v else lookup l m ?c va')"
      by blast+
    have u0: "tset l m' ?c \<subseteq> tset l m ?c \<union> {}" "{} \<inter> tset (Suc l) m p = {}" "changed (tset l m' ?c) m m'"
      unfolding IH(2) by (rule Un_upper1, rule Int_empty_left, rule IH(3))
    note u = child_update [OF Suc.prems(1) px_less v refl IH(1) u0]
    have sub: "tset l m ?c \<subseteq> tset (Suc l) m p"
      using v px_less by auto
    have t: "tset (Suc l) m' p = tset (Suc l) m p"
      using u(3,4,5) sub unfolding IH(2) by blast
    have "lookup (Suc l) m' p va' = (if same (Suc l) va va' then v else lookup (Suc l) m p va')" for va'
      using v unfolding u(6) IH(4) by (simp add: same_Suc Let_def)
    then show ?case
      using u(2) t changed_mono [OF IH(3) sub] by blast
  qed
  then show "twf l m' p" "tset l m' p = tset l m p" "changed (tset l m p) m m'"
    "\<And>va'. lookup l m' p va' = (if same l va va' then v else lookup l m p va')" by auto
qed

section \<open>Growing the tree\<close>

lemma kmem_pool_agree:
  assumes "kmem_pool s F" "agree F (mem s) m'"
  shows "kmem_pool (s\<lparr>mem := m'\<rparr>) F"
proof -
  obtain xs where xs: "lk_ok (lks s)" "\<not> locked (spinl (lks s) LKmem)" "kmem_inv s xs" "F = set xs"
    using assms(1) by (rule kmem_poolE)
  have "flist m' (freelist s) xs = flist (mem s) (freelist s) xs"
    by (rule flist_cong) (use assms(2) xs(4) in \<open>auto simp: agree_def\<close>)
  then show ?thesis
    using xs by (auto simp: kmem_pool_def kmem_inv_def)
qed

lemma kmem_pool_pg: "kmem_pool s F \<Longrightarrow> q \<in> F \<Longrightarrow> pg q"
  by (auto simp: kmem_pool_def kmem_inv_def intro: page_ok_pg)

text \<open>What the memory operations leave alone.\<close>

definition mframe :: "kstate \<Rightarrow> kstate \<Rightarrow> bool" where
  "mframe s s' \<longleftrightarrow> s'\<lparr>mem := mem s, freelist := freelist s, lks := lks s\<rparr> = s
     \<and> (lks s' = lks s \<or> lks s' = lk_touch (lks s))"

lemma mframe_refl [simp]: "mframe s s"
  by (simp add: mframe_def)

lemma mframe_trans:
  assumes "mframe s s'" "mframe s' s''"
  shows "mframe s s''"
proof -
  have "s''\<lparr>mem := mem s, freelist := freelist s, lks := lks s\<rparr> =
    (s''\<lparr>mem := mem s', freelist := freelist s', lks := lks s'\<rparr>)\<lparr>mem := mem s, freelist := freelist s, lks := lks s\<rparr>"
    by simp
  also have "\<dots> = s"
    using assms by (simp only: mframe_def)
  finally show ?thesis
    using assms by (auto simp: mframe_def)
qed

lemma mframe_mem [simp]: "mframe s (s'\<lparr>mem := m\<rparr>) = mframe s s'"
  by (simp add: mframe_def)

lemma mframe_fields:
  assumes "mframe s s'"
  shows "syms s' = syms s" "procs s' = procs s" "pipes s' = pipes s" "wake_bound s' = wake_bound s"
proof -
  from assms have e: "s'\<lparr>mem := mem s, freelist := freelist s, lks := lks s\<rparr> = s"
    by (simp add: mframe_def)
  have "syms (s'\<lparr>mem := mem s, freelist := freelist s, lks := lks s\<rparr>) = syms s'"
    "procs (s'\<lparr>mem := mem s, freelist := freelist s, lks := lks s\<rparr>) = procs s'"
    "pipes (s'\<lparr>mem := mem s, freelist := freelist s, lks := lks s\<rparr>) = pipes s'"
    "wake_bound (s'\<lparr>mem := mem s, freelist := freelist s, lks := lks s\<rparr>) = wake_bound s'" by simp_all
  then show "syms s' = syms s" "procs s' = procs s" "pipes s' = pipes s" "wake_bound s' = wake_bound s"
    unfolding e by simp_all
qed

lemma kalloc_pool:
  assumes "kmem_pool s F"
  obtains c s1 where "kalloc s = Ok c s1" "mframe s s1" "kmem_pool s1 (F - {c})"
    "c = 0 \<Longrightarrow> F = {} \<and> mem s1 = mem s" "c \<noteq> 0 \<Longrightarrow> c \<in> F \<and> pg c \<and> changed {c} (mem s) (mem s1)"
proof -
  obtain xs where xs: "lk_ok (lks s)" "\<not> locked (spinl (lks s) LKmem)" "kmem_inv s xs" "F = set xs"
    using assms by (rule kmem_poolE)
  show ?thesis
  proof (cases xs)
    case Nil
    have fl: "mframe s (s\<lparr>lks := lk_touch (lks s)\<rparr>)"
      by (simp add: mframe_def)
    show ?thesis
      by (rule that [of 0 "s\<lparr>lks := lk_touch (lks s)\<rparr>"])
         (use Nil xs fl kmem_inv_freelist [OF xs(3)] kmem_poolI [OF xs(3,1,2)] in \<open>auto simp: kalloc_Ok\<close>)
  next
    case (Cons c ys)
    have c: "freelist s = c" "page_ok (syms s) c" "c \<notin> set ys" "F - {c} = set ys"
      using xs Cons by (auto simp: kmem_inv_def)
    then have "c \<noteq> 0" "pg c" by (auto simp: page_okD intro: page_ok_pg)
    note c = c this
    have "changed {c} (mem s) (mem (kalloc_mem s))"
      using c by (auto simp: changed_def kalloc_mem_def memset_page pg_def split: if_splits)
    moreover have "mframe s (kalloc_mem s\<lparr>lks := lk_touch (lks s)\<rparr>)"
      by (simp add: mframe_def kalloc_mem_def)
    moreover have "kmem_pool (kalloc_mem s\<lparr>lks := lk_touch (lks s)\<rparr>) (F - {c})"
      using kmem_inv_kalloc [of s c ys] xs Cons c by (intro kmem_poolI) auto
    ultimately show ?thesis
      using c xs Cons by (intro that [of c "kalloc_mem s\<lparr>lks := lk_touch (lks s)\<rparr>"]) (simp_all add: kalloc_Ok)
  qed
qed

lemma zero_tree:
  assumes "pg c" "\<And>x. in_page c x \<Longrightarrow> m x = 0"
  shows "tset l m c = {c}" "twf l m c" "lookup l m c va = 0"
proof -
  have "entry m c i = 0" if "i < 512" for i
    using entry_cong [of c m "\<lambda>_. 0" i] assms(2) that by (simp add: entry_def ld_def)
  then show "tset l m c = {c}" "twf l m c" "lookup l m c va = 0"
    using px_less assms(1) by (cases l; auto)+
qed

lemma changed_new:
  assumes "c mod 4096 = 0" "i < 512"
  shows "changed {p, c} m (st 8 (p + 8 * of_nat i) v (memset c b 4096 m))"
  unfolding changed_def
proof (intro allI impI, rule ccontr)
  fix x
  assume "st 8 (p + 8 * of_nat i) v (memset c b 4096 m) x \<noteq> m x" "\<not> (\<exists>q \<in> {p, c}. in_page q x)"
  then show False
    using st_page [OF assms(2), of p x v "memset c b 4096 m"] memset_page [OF assms(1), of b m x] by auto
qed

lemma new_child:
  assumes wf: "twf (Suc l) m p" and i: "i < 512" "\<not> is_v (entry m p i)"
    and c: "pg c" "c \<notin> tset (Suc l) m p" and m1: "changed {c} m m1"
    and m2: "m2 = st 8 (p + 8 * of_nat i) (PA2PTE c OR PTE_V) (memset c 0 4096 m1)"
  shows "entry m2 p i = PA2PTE c OR PTE_V" and "PTE2PA (PA2PTE c OR PTE_V) = c" and "is_v (PA2PTE c OR PTE_V)"
    and "twf (Suc l) m2 p" and "tset (Suc l) m2 p = insert c (tset (Suc l) m p)"
    and "lookup (Suc l) m2 p = lookup (Suc l) m p" and "changed {p, c} m m2"
    and "tset l m2 c = {c}" and "twf l m2 c"
proof -
  let ?v = "PA2PTE c OR PTE_V"
  have pgp: "pg p" and "p \<noteq> c" using wf c by auto
  have ca: "c mod 4096 = 0" using c by (simp add: pg_def)
  show pa: "PTE2PA ?v = c"
    by (rule PTE2PA_PA2PTE) (use c in \<open>auto simp: pg_def\<close>)
  have "bit ?v 0" by (simp add: bit_or_iff)
  then show v: "is_v ?v"
    by (simp add: and_one_eq odd_iff_mod_2_eq_one bit_0)
  have ch1: "changed {c} m (memset c 0 4096 m1)"
    using m1 by (auto simp: changed_def memset_page [OF ca])
  show ch: "changed {p, c} m m2"
    unfolding m2 by (rule changed_trans [OF changed_mono [OF m1] changed_new [OF ca i(1)]]) simp
  show ei: "entry m2 p i = ?v"
    unfolding m2 by simp
  have ap: "agree {p} m (memset c 0 4096 m1)"
    by (rule agree_of_changed [OF ch1]) (use pgp c \<open>p \<noteq> c\<close> in auto)
  have ej: "entry m2 p j = entry m p j" if "j < 512" "j \<noteq> i" for j
    using entry_st_other [OF i(1) that(1), of p ?v "memset c 0 4096 m1"] agree_entry [OF ap _ that(1)] that
    by (simp add: m2)
  have z: "m2 x = 0" if "in_page c x" for x
  proof -
    have "\<not> in_page p x"
      using pages_disjoint [of p c x] pgp c that \<open>p \<noteq> c\<close> by (simp add: pg_def)
    then have "m2 x = memset c 0 4096 m1 x"
      unfolding m2 by (rule st_page [OF i(1)])
    then show ?thesis
      using memset_page [OF ca] that by simp
  qed
  note zt = zero_tree [where m = m2, OF c(1) z]
  show "tset l m2 c = {c}" by (rule zt)
  show "twf l m2 c" by (rule zt(2))
  have o: "tset l m2 d = tset l m d" "twf l m2 d = twf l m d" "lookup l m2 d = lookup l m d" "twf l m d"
    "p \<notin> tset l m d" "c \<notin> tset l m d"
    if "j < 512" "is_v (entry m p j)" "d = PTE2PA (entry m p j)" for j d
  proof -
    show w: "twf l m d" "p \<notin> tset l m d" "c \<notin> tset l m d"
      using wf c that by auto
    have "agree (tset l m d) m m2"
      by (rule agree_of_changed [OF ch]) (use w pgp c twf_pg [OF w(1)] in auto)
    from tree_cong [OF this] show "tset l m2 d = tset l m d" "twf l m2 d = twf l m d" "lookup l m2 d = lookup l m d"
      by auto
  qed
  have vj: "is_v (entry m2 p j) \<longleftrightarrow> j = i \<or> is_v (entry m p j)" if "j < 512" for j
    using ej ei v that by (cases "j = i") auto
  have cj: "PTE2PA (entry m2 p j) = (if j = i then c else PTE2PA (entry m p j))" if "j < 512" for j
    using ej ei pa that by auto
  have tj: "tset l m2 (PTE2PA (entry m2 p j)) = (if j = i then {c} else tset l m (PTE2PA (entry m p j)))"
    if "j < 512" "is_v (entry m2 p j)" for j
    using that vj [OF that(1)] cj [OF that(1)] o(1) zt(1) by auto
  show "twf (Suc l) m2 p"
    unfolding twf.simps
  proof (intro conjI allI impI)
    show "pg p" by (rule pgp)
  next
    fix j assume j: "j < 512" "is_v (entry m2 p j)"
    show "twf l m2 (PTE2PA (entry m2 p j))"
      using j vj [OF j(1)] cj [OF j(1)] o(2,4) zt(2) by auto
    show "p \<notin> tset l m2 (PTE2PA (entry m2 p j))"
      using j vj [OF j(1)] tj [OF j] o(5) \<open>p \<noteq> c\<close> by auto
    fix k assume k: "k < 512" "j \<noteq> k \<and> is_v (entry m2 p k)"
    have "tset l m (PTE2PA (entry m p j)) \<inter> tset l m (PTE2PA (entry m p k)) = {}"
      if "is_v (entry m p j)" "is_v (entry m p k)"
      using wf j(1) k that by simp
    then show "tset l m2 (PTE2PA (entry m2 p j)) \<inter> tset l m2 (PTE2PA (entry m2 p k)) = {}"
      using k tj [OF j] tj [of k] vj [OF j(1)] vj [OF k(1)] j o(6)
      by (cases "j = i"; cases "k = i") simp_all
  qed
  have I: "{j. j < 512 \<and> is_v (entry m2 p j)} = insert i {j. j < 512 \<and> is_v (entry m p j)}"
    using vj i by auto
  have J: "tset l m2 (PTE2PA (entry m2 p j)) = tset l m (PTE2PA (entry m p j))"
    if "j \<in> {j. j < 512 \<and> is_v (entry m p j)}" for j
    using that tj [of j] vj [of j] i by auto
  have "tset l m2 (PTE2PA (entry m2 p i)) = {c}"
    using tj [of i] vj [of i] i by auto
  then show "tset (Suc l) m2 p = insert c (tset (Suc l) m p)"
    unfolding tset.simps I using J by auto
  show "lookup (Suc l) m2 p = lookup (Suc l) m p"
  proof
    fix va
    show "lookup (Suc l) m2 p va = lookup (Suc l) m p va"
      using ei ej [OF px_less] o(3) [OF px_less _ refl] zt(3) pa v i
      by (cases "px (Suc l) va = i") (simp_all add: Let_def)
  qed
qed

lemma child_sub: "i < 512 \<Longrightarrow> is_v (entry m p i) \<Longrightarrow> tset l m (PTE2PA (entry m p i)) \<subseteq> tset (Suc l) m p"
  by auto

lemma child_twf: "twf (Suc l) m p \<Longrightarrow> i < 512 \<Longrightarrow> is_v (entry m p i) \<Longrightarrow> twf l m (PTE2PA (entry m p i))"
  by simp

declare tset.simps(2) [simp del] twf.simps(2) [simp del]

text \<open>What \<open>walk\<close> with \<open>alloc\<close> may do to the tree at \<open>p\<close>: take pages from the free set \<open>F\<close> for new
  tables, without changing what the tree maps.\<close>

definition grow :: "nat \<Rightarrow> u64 \<Rightarrow> u64 set \<Rightarrow> kstate \<Rightarrow> kstate \<Rightarrow> bool" where
  "grow l p F s s' \<longleftrightarrow> mframe s s' \<and> kmem_pool s' (F - tset l (mem s') p) \<and> twf l (mem s') p
     \<and> tset l (mem s) p \<subseteq> tset l (mem s') p \<and> tset l (mem s') p \<subseteq> tset l (mem s) p \<union> F
     \<and> lookup l (mem s') p = lookup l (mem s) p \<and> changed (tset l (mem s') p) (mem s) (mem s')"

lemma grow_parent:
  assumes wf: "twf (Suc l) (mem s) p" and i: "i < 512" "is_v (entry (mem s) p i)" "c = PTE2PA (entry (mem s) p i)"
    and F: "tset (Suc l) (mem s) p \<inter> F = {}" and g: "grow l c F s s'"
  shows "grow (Suc l) p F s s'" and "entry (mem s') p i = entry (mem s) p i"
proof -
  let ?m = "mem s" and ?m' = "mem s'"
  have g': "mframe s s'" "kmem_pool s' (F - tset l ?m' c)" "twf l ?m' c" "tset l ?m c \<subseteq> tset l ?m' c"
    "tset l ?m' c \<subseteq> tset l ?m c \<union> F" "lookup l ?m' c = lookup l ?m c" "changed (tset l ?m' c) ?m ?m'"
    using g by (auto simp: grow_def)
  have F': "F \<inter> tset (Suc l) ?m p = {}" using F by blast
  note u = child_update [OF wf i(1,2,3) g'(3,5) F' g'(7)]
  have c: "tset l ?m c \<subseteq> tset (Suc l) ?m p"
    unfolding i(3) by (rule child_sub [OF i(1,2)])
  have t: "tset (Suc l) ?m p \<subseteq> tset (Suc l) ?m' p"
    using u(4,5) g'(4) by blast
  have "F - tset (Suc l) ?m' p = F - tset l ?m' c"
    using u(3,4) F by blast
  moreover have "lookup (Suc l) ?m' p = lookup (Suc l) ?m p"
    using u(6) g'(6) i by (auto simp: fun_eq_iff Let_def)
  ultimately show "grow (Suc l) p F s s'"
    unfolding grow_def using g' u(2,3) t c changed_mono [OF g'(7) u(4)] by auto
  show "entry ?m' p i = entry ?m p i"
    by (rule u(1) [OF i(1)])
qed

lemma grow_trans:
  assumes "mframe s s1" "kmem_pool s1 (F - C)" "C \<subseteq> F" "twf l (mem s1) p"
    and "tset l (mem s1) p = C \<union> tset l (mem s) p" "lookup l (mem s1) p = lookup l (mem s) p"
    and "changed (tset l (mem s1) p) (mem s) (mem s1)" "grow l p (F - C) s1 s'"
  shows "grow l p F s s'"
proof -
  have g: "mframe s1 s'" "kmem_pool s' (F - C - tset l (mem s') p)" "twf l (mem s') p"
    "tset l (mem s1) p \<subseteq> tset l (mem s') p" "tset l (mem s') p \<subseteq> tset l (mem s1) p \<union> (F - C)"
    "lookup l (mem s') p = lookup l (mem s1) p" "changed (tset l (mem s') p) (mem s1) (mem s')"
    using assms(8) by (auto simp: grow_def)
  have "F - C - tset l (mem s') p = F - tset l (mem s') p"
    using g(4) assms(5) by blast
  moreover have "changed (tset l (mem s') p) (mem s) (mem s')"
    using changed_mono [OF assms(7) g(4)] g(7) by (rule changed_trans)
  ultimately show ?thesis
    unfolding grow_def using g assms mframe_trans by auto
qed

lemma walk_alloc:
  assumes "kmem_pool s F" "twf l (mem s) p" "tset l (mem s) p \<inter> F = {}"
  shows "wp (walk_level l p va True) (\<lambda>a s'. grow l p F s s'
     \<and> (if a = 0 then F \<subseteq> tset l (mem s') p else a = xwalk l (mem s') p va)) s"
  using assms
proof (induction l arbitrary: p s F)
  case 0
  then have "F - {p} = F" by auto
  then show ?case
    using 0 entry_addr_nz [OF _ px_less] by (simp add: grow_def pte_addr_px)
next
  case (Suc l)
  let ?i = "px (Suc l) va" and ?m = "mem s"
  let ?e = "entry ?m p ?i"
  have ld: "load_pte (pte_addr p (Suc l) va) s = Ok ?e s"
    by (simp add: load_pte_def pte_addr_px entry_def)
  show ?case
  proof (cases "is_v ?e")
    case True
    let ?c = "PTE2PA ?e"
    have "twf l ?m ?c" "tset l ?m ?c \<inter> F = {}"
      using child_twf [OF Suc.prems(2) px_less True] child_sub [OF px_less True] Suc.prems(3) by blast+
    from Suc.IH [OF Suc.prems(1) this] have
      "wp (walk_level l ?c va True) (\<lambda>a s'. grow (Suc l) p F s s'
         \<and> (if a = 0 then F \<subseteq> tset (Suc l) (mem s') p else a = xwalk (Suc l) (mem s') p va)) s"
    proof (rule wp_mono)
      fix a s'
      assume g: "grow l ?c F s s' \<and> (if a = 0 then F \<subseteq> tset l (mem s') ?c else a = xwalk l (mem s') ?c va)"
      note gp = grow_parent [OF Suc.prems(2) px_less True refl Suc.prems(3) conjunct1 [OF g]]
      have "tset l (mem s') ?c \<subseteq> tset (Suc l) (mem s') p"
        using child_sub [OF px_less, of "mem s'" p "Suc l" va l] gp(2) True by simp
      then show "grow (Suc l) p F s s' \<and> (if a = 0 then F \<subseteq> tset (Suc l) (mem s') p else a = xwalk (Suc l) (mem s') p va)"
        using gp g True subset_trans [of F "tset l (mem s') ?c"] by (cases "a = 0") (simp_all add: Let_def)
    qed
    then show ?thesis
      using True ld by (simp add: wp_def)
  next
    case False
    obtain c s1 where c: "kalloc s = Ok c s1" "mframe s s1" "kmem_pool s1 (F - {c})"
      "c = 0 \<Longrightarrow> F = {} \<and> mem s1 = ?m" "c \<noteq> 0 \<Longrightarrow> c \<in> F \<and> pg c \<and> changed {c} ?m (mem s1)"
      using kalloc_pool [OF Suc.prems(1)] by metis
    show ?thesis
    proof (cases "c = 0")
      case True
      then have "grow (Suc l) p F s s1"
        using c Suc.prems by (simp add: grow_def)
      then show ?thesis
        using True c False ld by (simp add: wp_def)
    next
      case nz: False
      let ?m2 = "st 8 (p + 8 * of_nat ?i) (PA2PTE c OR PTE_V) (memset c 0 4096 (mem s1))"
      let ?s2 = "s1\<lparr>mem := ?m2\<rparr>"
      have cF: "c \<in> F" "pg c" "changed {c} ?m (mem s1)" "c \<notin> tset (Suc l) ?m p"
        using c(5) nz Suc.prems(3) by auto
      note n = new_child [OF Suc.prems(2) px_less False cF(2,4,3) refl]
      have T: "{p, c} \<subseteq> tset (Suc l) ?m2 p"
        using n(5) by simp
      have "changed {p, c} (mem s1) ?m2"
        by (rule changed_new [OF _ px_less]) (use cF(2) in \<open>simp add: pg_def\<close>)
      then have "agree (F - {c}) (mem s1) ?m2"
        by (rule agree_of_changed)
           (use T twf_pg [OF n(4)] kmem_pool_pg [OF Suc.prems(1)] tset_root [of p "Suc l" ?m] Suc.prems(3) in blast)+
      then have pool: "kmem_pool ?s2 (F - {c})"
        by (rule kmem_pool_agree [OF c(3)])
      have w: "twf l (mem ?s2) c"
        using n(9) by simp
      have d: "tset l (mem ?s2) c \<inter> (F - {c}) = {}"
        using n(8) by simp
      from Suc.IH [OF pool w d] have
        "wp (walk_level l c va True) (\<lambda>a s'. grow (Suc l) p F s s'
           \<and> (if a = 0 then F \<subseteq> tset (Suc l) (mem s') p else a = xwalk (Suc l) (mem s') p va)) ?s2"
      proof (rule wp_mono)
        fix a s'
        assume g: "grow l c (F - {c}) ?s2 s' \<and> (if a = 0 then F - {c} \<subseteq> tset l (mem s') c else a = xwalk l (mem s') c va)"
        have e: "is_v (entry (mem ?s2) p ?i)" "c = PTE2PA (entry (mem ?s2) p ?i)"
          using n(1-3) by simp_all
        have d2: "tset (Suc l) (mem ?s2) p \<inter> (F - {c}) = {}"
          using n(5) Suc.prems(3) by auto
        have w2: "twf (Suc l) (mem ?s2) p" using n(4) by simp
        note gp = grow_parent [OF w2 px_less e d2 conjunct1 [OF g]]
        have gg: "grow (Suc l) p F s s'"
          by (rule grow_trans [where ?s1.0 = ?s2 and C = "{c}"])
             (use c(2) pool cF n(4-6) gp(1) changed_mono [OF n(7) T(1)] in simp_all)
        have "entry (mem s') p ?i = PA2PTE c OR PTE_V"
          using gp(2) n(1) by simp
        then have sub: "tset l (mem s') c \<subseteq> tset (Suc l) (mem s') p" and x: "xwalk (Suc l) (mem s') p va = xwalk l (mem s') c va"
          using child_sub [OF px_less, of "mem s'" p "Suc l" va l] n(2,3) by (simp_all add: Let_def)
        have "F \<subseteq> tset (Suc l) (mem s') p" if "F - {c} \<subseteq> tset l (mem s') c"
          using that sub tset_root [of c l "mem s'"] by blast
        then show "grow (Suc l) p F s s' \<and> (if a = 0 then F \<subseteq> tset (Suc l) (mem s') p else a = xwalk (Suc l) (mem s') p va)"
          using gg g x by (cases "a = 0") simp_all
      qed
      then show ?thesis
        using nz c(1) False ld by (simp add: wp_def zero_page_def store_pte_def pte_addr_px)
    qed
  qed
qed

section \<open>mappages\<close>

definition vpn :: "u64 \<Rightarrow> nat" where
  "vpn va = unat va div 4096"

lemma px_vpn: "px l va = vpn va div 512 ^ l mod 512"
proof -
  have "PX l va = drop_bit (PXSHIFT l) va mod 512"
    by (simp add: PX_def flip: take_bit_eq_mod [of 9, simplified])
       (simp add: take_bit_eq_mask mask_eq_exp_minus_1)
  then have "px l va = drop_bit (12 + 9 * l) (unat va) mod 512"
    by (simp add: px_def unat_mod PXSHIFT_def unat_drop_bit_eq)
  then have "px l va = unat va div 2 ^ (12 + 9 * l) mod 512"
    by (simp add: drop_bit_eq_div)
  moreover have "(2 :: nat) ^ (12 + 9 * l) = 4096 * 512 ^ l"
    by (simp add: power_add power_mult)
  ultimately show ?thesis
    by (simp add: vpn_def div_mult2_eq)
qed

lemma vpn_less: "va < MAXVA \<Longrightarrow> vpn va < 512 ^ 3"
  by (simp add: vpn_def word_less_nat_alt)

lemma same_vpn:
  assumes "va < MAXVA" "va' < MAXVA"
  shows "same 2 va va' \<longleftrightarrow> vpn va' = vpn va"
proof
  assume s: "same 2 va va'"
  have d: "n = n mod 512 + 512 * (n div 512 mod 512) + 512 * 512 * (n div 512 ^ 2 mod 512)" if "n < 512 ^ 3" for n :: nat
  proof -
    have "n div 512 ^ 2 < 512" using that by (simp add: less_mult_imp_div_less)
    then have 2: "n div 512 ^ 2 mod 512 = n div 512 div 512" by (simp add: div_mult2_eq)
    have e: "n mod 512 + 512 * (n div 512) = n" "n div 512 mod 512 + 512 * (n div 512 div 512) = n div 512"
      by simp_all
    have "n mod 512 + 512 * (n div 512 mod 512) + 512 * 512 * (n div 512 div 512) =
      n mod 512 + 512 * (n div 512 mod 512 + 512 * (n div 512 div 512))"
      by (simp only: distrib_left mult.assoc add.assoc)
    also have "\<dots> = n" by (simp only: e)
    finally show ?thesis unfolding 2 by (rule sym)
  qed
  have "px 0 va' = px 0 va" "px 1 va' = px 1 va" "px 2 va' = px 2 va"
    using s by (auto simp: same_def)
  then show "vpn va' = vpn va"
    using d [OF vpn_less [OF assms(1)]] d [OF vpn_less [OF assms(2)]] by (simp add: px_vpn)
qed (simp add: same_def px_vpn)

text \<open>The structural part of the contract of every operation that changes a page table: pages move
  only from the free set into the tree, and only the pages of the tree change.\<close>

definition ptstep :: "u64 \<Rightarrow> u64 set \<Rightarrow> kstate \<Rightarrow> kstate \<Rightarrow> bool" where
  "ptstep pt F s s' \<longleftrightarrow> mframe s s' \<and> kmem_pool s' (F - tset 2 (mem s') pt) \<and> twf 2 (mem s') pt
     \<and> tset 2 (mem s) pt \<subseteq> tset 2 (mem s') pt \<and> tset 2 (mem s') pt \<subseteq> tset 2 (mem s) pt \<union> F
     \<and> changed (tset 2 (mem s') pt) (mem s) (mem s')"

lemma ptstep_refl:
  "kmem_pool s F \<Longrightarrow> twf 2 (mem s) pt \<Longrightarrow> tset 2 (mem s) pt \<inter> F = {} \<Longrightarrow> ptstep pt F s s"
  by (simp add: ptstep_def Diff_triv Int_commute)

lemma ptstep_trans:
  assumes "ptstep pt F s s1" "ptstep pt (F - tset 2 (mem s1) pt) s1 s'"
  shows "ptstep pt F s s'"
proof -
  have "F - tset 2 (mem s1) pt - tset 2 (mem s') pt = F - tset 2 (mem s') pt"
    using assms(2) by (auto simp: ptstep_def)
  moreover have "changed (tset 2 (mem s') pt) (mem s) (mem s')"
    using assms changed_mono [of "tset 2 (mem s1) pt" "mem s" "mem s1" "tset 2 (mem s') pt"]
    by (auto simp: ptstep_def intro: changed_trans)
  ultimately show ?thesis
    using assms unfolding ptstep_def by (auto intro: mframe_trans)
qed

lemma ptstep_store:
  assumes s: "ptstep pt F s s1" and a: "a = xwalk 2 (mem s1) pt va" "a \<noteq> 0"
    and F: "tset 2 (mem s) pt \<inter> F = {}"
  shows "ptstep pt F s (s1\<lparr>mem := st 8 a v (mem s1)\<rparr>)"
    and "\<And>va'. lookup 2 (st 8 a v (mem s1)) pt va' = (if same 2 va va' then v else lookup 2 (mem s1) pt va')"
proof -
  have w: "twf 2 (mem s1) pt" using s by (simp add: ptstep_def)
  note l = set_leaf [OF w, of va "st 8 a v (mem s1)" v, folded a(1), OF a(2) refl]
  have "agree (F - tset 2 (mem s1) pt) (mem s1) (st 8 a v (mem s1))"
    by (rule agree_of_changed [OF l(3)])
       (use twf_pg [OF w] s kmem_pool_pg in \<open>auto simp: ptstep_def\<close>)
  then have "kmem_pool (s1\<lparr>mem := st 8 a v (mem s1)\<rparr>) (F - tset 2 (mem s1) pt)"
    using s by (intro kmem_pool_agree) (simp_all add: ptstep_def)
  moreover have "changed (tset 2 (mem s1) pt) (mem s) (st 8 a v (mem s1))"
    using s l(3) by (auto simp: ptstep_def intro: changed_trans)
  ultimately show "ptstep pt F s (s1\<lparr>mem := st 8 a v (mem s1)\<rparr>)"
    using s l(1,2) by (simp add: ptstep_def)
  show "lookup 2 (st 8 a v (mem s1)) pt va' = (if same 2 va va' then v else lookup 2 (mem s1) pt va')" for va'
    by (rule l(4))
qed

lemma walk_wp:
  assumes "kmem_pool s F" "twf 2 (mem s) pt" "tset 2 (mem s) pt \<inter> F = {}" "va < MAXVA"
  shows "wp (walk pt va True) (\<lambda>a s'. ptstep pt F s s' \<and> lookup 2 (mem s') pt = lookup 2 (mem s) pt
     \<and> (if a = 0 then F \<subseteq> tset 2 (mem s') pt else a = xwalk 2 (mem s') pt va)) s"
proof -
  have "wp (walk_level 2 pt va True) (\<lambda>a s'. ptstep pt F s s' \<and> lookup 2 (mem s') pt = lookup 2 (mem s) pt
     \<and> (if a = 0 then F \<subseteq> tset 2 (mem s') pt else a = xwalk 2 (mem s') pt va)) s"
    by (rule wp_mono [OF walk_alloc [OF assms(1-3)]]) (auto simp: grow_def ptstep_def split: if_splits)
  then show ?thesis
    using assms(4) by (simp add: walk_def not_le)
qed

lemma page_step:
  assumes "unat a + 4096 * Suc n = unat l" "l < MAXVA"
  shows "unat (a + 4096) + 4096 * n = unat l" and "vpn (a + 4096) = Suc (vpn a)" and "a < MAXVA"
proof -
  have l: "unat l < 0x4000000000" using assms(2) by (simp add: word_less_nat_alt)
  then have "unat a + 4096 < 2 ^ 64" using assms(1) by simp
  then have u: "unat (a + 4096) = unat a + 4096"
    using unat_add_of_nat [of a 4097 4096] by simp
  then show "unat (a + 4096) + 4096 * n = unat l" "vpn (a + 4096) = Suc (vpn a)"
    using assms(1) by (simp_all add: vpn_def)
  show "a < MAXVA"
    using l assms(1) by (simp add: word_less_nat_alt)
qed

text \<open>What a page table maps after \<open>k\<close> pages from \<open>va\<close> have been mapped to \<open>pa\<close> onwards.\<close>

definition map_range :: "u64 \<Rightarrow> u64 \<Rightarrow> u64 \<Rightarrow> nat \<Rightarrow> (u64 \<Rightarrow> u64) \<Rightarrow> u64 \<Rightarrow> u64" where
  "map_range a pa perm k f va =
     (if vpn a \<le> vpn va \<and> vpn va < vpn a + k
      then PA2PTE (pa + 4096 * of_nat (vpn va - vpn a)) OR perm OR PTE_V else f va)"

lemma map_range_0 [simp]: "map_range a pa perm 0 f = f"
  by (rule ext) (auto simp: map_range_def)

lemma map_range_Suc:
  assumes "vpn (a + 4096) = Suc (vpn a)"
    and "\<And>va. va < MAXVA \<Longrightarrow> g va = (if vpn va = vpn a then PA2PTE pa OR perm OR PTE_V else f va)" "va < MAXVA"
  shows "map_range (a + 4096) (pa + 4096) perm k g va = map_range a pa perm (Suc k) f va"
proof (cases "vpn va = vpn a")
  case True
  then show ?thesis using assms by (simp add: map_range_def)
next
  case False
  show ?thesis
  proof (cases "vpn a < vpn va")
    case True
    then obtain d where "vpn va = Suc (vpn a + d)" using less_natE by blast
    then show ?thesis using assms by (simp add: map_range_def algebra_simps)
  next
    case False
    then show ?thesis using assms \<open>vpn va \<noteq> vpn a\<close> by (simp add: map_range_def)
  qed
qed

definition mapped :: "u64 \<Rightarrow> u64 \<Rightarrow> u64 \<Rightarrow> u64 \<Rightarrow> nat \<Rightarrow> u64 set \<Rightarrow> kstate \<Rightarrow> int \<Rightarrow> kstate \<Rightarrow> bool" where
  "mapped pt a pa perm n F s r s' \<longleftrightarrow> ptstep pt F s s' \<and>
     (\<exists>k. (if r = 0 then k = n else r = - 1 \<and> k < n \<and> F \<subseteq> tset 2 (mem s') pt)
        \<and> (\<forall>va < MAXVA. lookup 2 (mem s') pt va = map_range a pa perm k (lookup 2 (mem s) pt) va))"

lemma map_one:
  assumes "kmem_pool s F" "twf 2 (mem s) pt" "tset 2 (mem s) pt \<inter> F = {}" "a < MAXVA"
    and nv: "\<not> is_v (lookup 2 (mem s) pt a)"
    and E: "\<And>s'. ptstep pt F s s' \<Longrightarrow> lookup 2 (mem s') pt = lookup 2 (mem s) pt \<Longrightarrow>
      F \<subseteq> tset 2 (mem s') pt \<Longrightarrow> Q (- 1) s'"
    and K: "\<And>s'. ptstep pt F s s' \<Longrightarrow> \<forall>va < MAXVA. lookup 2 (mem s') pt va =
      (if vpn va = vpn a then w else lookup 2 (mem s) pt va) \<Longrightarrow> wp k Q s'"
  shows "wp (bind (walk pt a True) (\<lambda>pte. if pte = 0 then return (- 1)
     else bind (load_pte pte) (\<lambda>v. seq (panic_if (is_v v) ''remap'') (seq (store_pte pte w) k)))) Q s"
  unfolding wp_bind
proof (rule wp_mono [OF walk_wp [OF assms(1-4)]])
  fix pte s'
  assume w: "ptstep pt F s s' \<and> lookup 2 (mem s') pt = lookup 2 (mem s) pt
     \<and> (if pte = 0 then F \<subseteq> tset 2 (mem s') pt else pte = xwalk 2 (mem s') pt a)"
  show "wp (if pte = 0 then return (- 1) else bind (load_pte pte) (\<lambda>v.
      seq (panic_if (is_v v) ''remap'') (seq (store_pte pte w) k))) Q s'"
  proof (cases "pte = 0")
    case True
    then show ?thesis using w E by simp
  next
    case False
    then have x: "pte = xwalk 2 (mem s') pt a" using w by simp
    have wf: "twf 2 (mem s') pt" using w by (simp add: ptstep_def)
    have "ld 8 (mem s') pte = lookup 2 (mem s') pt a"
      using lookup_xwalk [OF wf, of a] False x by simp
    moreover note st = ptstep_store [OF conjunct1 [OF w] x False assms(3), of w]
    have "\<forall>va < MAXVA. lookup 2 (st 8 pte w (mem s')) pt va = (if vpn va = vpn a then w else lookup 2 (mem s) pt va)"
      using st(2) same_vpn [OF assms(4)] w by simp
    then have "wp k Q (s'\<lparr>mem := st 8 pte w (mem s')\<rparr>)"
      using K [OF st(1)] by simp
    ultimately show ?thesis
      using False nv w by (simp add: load_pte_def store_pte_def)
  qed
qed

lemma mappages_from_wp:
  assumes "kmem_pool s F" "twf 2 (mem s) pt" "tset 2 (mem s) pt \<inter> F = {}"
    and "unat a + 4096 * n = unat l" "l < MAXVA"
    and "\<forall>va < MAXVA. vpn a \<le> vpn va \<and> vpn va \<le> vpn a + n \<longrightarrow> \<not> is_v (lookup 2 (mem s) pt va)"
  shows "wp (mappages_from pt a l pa perm) (mapped pt a pa perm (Suc n) F s) s"
  using assms
proof (induction n arbitrary: a pa s F)
  case 0
  then have al: "a = l" by (simp add: word_unat_eq_iff)
  have "wp (bind (walk pt a True) (\<lambda>pte. if pte = 0 then return (- 1)
     else bind (load_pte pte) (\<lambda>v. seq (panic_if (is_v v) ''remap'') (seq (store_pte pte (PA2PTE pa OR perm OR PTE_V)) (return 0)))))
     (mapped pt a pa perm (Suc 0) F s) s"
  proof (rule map_one [OF 0(1-3)], goal_cases)
    case 1
    then show ?case using 0(5) al by simp
  next
    case 2
    then show ?case using 0(5,6) al by simp
  next
    case (3 s')
    then show ?case
      unfolding mapped_def by (intro conjI exI [of _ 0]) simp_all
  next
    case (4 s')
    then show ?case
      by (auto simp: mapped_def map_range_def)
  qed
  then show ?case
    using al 0(5) by (subst mappages_from.simps) (simp add: not_le)
next
  case (Suc n)
  note st = page_step [OF Suc.prems(4,5)]
  have al: "a \<noteq> l" using Suc.prems(4) by auto
  have "wp (bind (walk pt a True) (\<lambda>pte. if pte = 0 then return (- 1)
     else bind (load_pte pte) (\<lambda>v. seq (panic_if (is_v v) ''remap'') (seq (store_pte pte (PA2PTE pa OR perm OR PTE_V))
        (mappages_from pt (a + PGSIZE) l (pa + PGSIZE) perm)))))
     (mapped pt a pa perm (Suc (Suc n)) F s) s"
  proof (rule map_one [OF Suc.prems(1-3) st(3)], goal_cases)
    case 1
    then show ?case using Suc.prems(6) st(3) by simp
  next
    case (2 s')
    then show ?case
      unfolding mapped_def by (intro conjI exI [of _ 0]) simp_all
  next
    case (3 s')
    let ?F = "F - tset 2 (mem s') pt"
    have p: "kmem_pool s' ?F" "twf 2 (mem s') pt" "tset 2 (mem s') pt \<inter> ?F = {}"
      using 3(1) by (auto simp: ptstep_def)
    have nv: "\<forall>va < MAXVA. vpn (a + 4096) \<le> vpn va \<and> vpn va \<le> vpn (a + 4096) + n \<longrightarrow> \<not> is_v (lookup 2 (mem s') pt va)"
      using 3(2) Suc.prems(6) st(2) by simp
    show ?case
    proof (rule wp_mono [OF Suc.IH [OF p st(1) Suc.prems(5) nv]])
      fix r s''
      assume m: "mapped pt (a + 4096) (pa + 4096) perm (Suc n) ?F s' r s''"
      then obtain k where k: "if r = 0 then k = Suc n else r = - 1 \<and> k < Suc n \<and> ?F \<subseteq> tset 2 (mem s'') pt"
        "\<forall>va < MAXVA. lookup 2 (mem s'') pt va = map_range (a + 4096) (pa + 4096) perm k (lookup 2 (mem s') pt) va"
        and ps: "ptstep pt ?F s' s''"
        by (auto simp: mapped_def)
      have "tset 2 (mem s') pt \<subseteq> tset 2 (mem s'') pt"
        using ps by (simp add: ptstep_def)
      then have "if r = 0 then Suc k = Suc (Suc n) else r = - 1 \<and> Suc k < Suc (Suc n) \<and> F \<subseteq> tset 2 (mem s'') pt"
        using k(1) by (auto split: if_splits)
      moreover have "\<forall>va < MAXVA. lookup 2 (mem s'') pt va = map_range a pa perm (Suc k) (lookup 2 (mem s) pt) va"
        using k(2) map_range_Suc [OF st(2), of "lookup 2 (mem s') pt" pa perm "lookup 2 (mem s) pt"] 3(2) by simp
      ultimately show "mapped pt a pa perm (Suc (Suc n)) F s r s''"
        unfolding mapped_def using ptstep_trans [OF 3(1) ps] by blast
    qed
  qed
  then show ?case
    using al st(3) by (subst mappages_from.simps) (simp add: not_le)
qed

lemma unat_PGROUNDDOWN: "unat (PGROUNDDOWN va) = 4096 * vpn va"
  by (simp add: PGROUNDDOWN_def unat_and_page vpn_def)

lemma vpn_PGROUNDDOWN [simp]: "vpn (PGROUNDDOWN va) = vpn va"
  by (simp add: vpn_def [of "PGROUNDDOWN va"] unat_PGROUNDDOWN)

lemma PGROUNDDOWN_aligned: "PGROUNDDOWN va mod 4096 = 0"
  by (simp add: aligned_unat unat_PGROUNDDOWN)

lemma PGROUNDDOWN_le: "PGROUNDDOWN va \<le> va"
  by (simp add: word_le_nat_alt unat_PGROUNDDOWN vpn_def)

section \<open>Unmapping\<close>

lemma kfree_pool:
  assumes "kmem_pool s F" "page_ok (syms s) p" "p \<notin> F"
  obtains s1 where "kfree p s = Ok () s1" "mframe s s1" "kmem_pool s1 (insert p F)" "changed {p} (mem s) (mem s1)"
proof -
  obtain xs where xs: "lk_ok (lks s)" "\<not> locked (spinl (lks s) LKmem)" "kmem_inv s xs" "F = set xs"
    using assms(1) by (rule kmem_poolE)
  have p: "p mod 4096 = 0" using page_okD [OF assms(2)] by simp
  have "changed {p} (mem s) (mem (kfree_mem p s))"
    using kfree_mem_outside [OF p] by (auto simp: changed_def)
  moreover have "kmem_pool (kfree_mem p s\<lparr>lks := lk_touch (lks s)\<rparr>) (insert p F)"
    using kmem_inv_kfree [OF xs(3) assms(2)] xs assms(3) by (intro kmem_poolI) auto
  ultimately show ?thesis
    using xs assms(2) by (intro that [of "kfree_mem p s\<lparr>lks := lk_touch (lks s)\<rparr>"])
      (simp_all add: kfree_Ok mframe_def kfree_mem_def)
qed

lemma lessThan_1 [simp]: "{..<Suc 0} = {0}"
  by auto

text \<open>The frames behind the \<open>n\<close> pages from \<open>a\<close> on.\<close>

definition frame_of :: "kstate \<Rightarrow> u64 \<Rightarrow> u64 \<Rightarrow> nat \<Rightarrow> u64" where
  "frame_of s pt a i = PTE2PA (lookup 2 (mem s) pt (a + 4096 * of_nat i))"

definition unmap_pre :: "kstate \<Rightarrow> u64 \<Rightarrow> u64 \<Rightarrow> nat \<Rightarrow> bool \<Rightarrow> u64 set \<Rightarrow> bool" where
  "unmap_pre s pt a n do_free F \<longleftrightarrow>
     (\<forall>i < n. let v = lookup 2 (mem s) pt (a + 4096 * of_nat i) in is_v v \<and> PTE_FLAGS v \<noteq> PTE_V)
     \<and> (do_free \<longrightarrow> inj_on (frame_of s pt a) {..<n}
         \<and> (\<forall>i < n. page_ok (syms s) (frame_of s pt a i) \<and> frame_of s pt a i \<notin> F \<union> tset 2 (mem s) pt))"

definition unmapped :: "kstate \<Rightarrow> u64 \<Rightarrow> u64 \<Rightarrow> nat \<Rightarrow> bool \<Rightarrow> u64 set \<Rightarrow> kstate \<Rightarrow> bool" where
  "unmapped s pt a n do_free F s' \<longleftrightarrow> mframe s s'
     \<and> kmem_pool s' (F \<union> (if do_free then frame_of s pt a ` {..<n} else {}))
     \<and> twf 2 (mem s') pt \<and> tset 2 (mem s') pt = tset 2 (mem s) pt
     \<and> changed (tset 2 (mem s) pt \<union> (if do_free then frame_of s pt a ` {..<n} else {})) (mem s) (mem s')
     \<and> (\<forall>va < MAXVA. lookup 2 (mem s') pt va =
          (if vpn a \<le> vpn va \<and> vpn va < vpn a + n then 0 else lookup 2 (mem s) pt va))"

lemma unmap_one:
  assumes "kmem_pool s F" "twf 2 (mem s) pt" "tset 2 (mem s) pt \<inter> F = {}" "a < MAXVA"
    and pre: "unmap_pre s pt a 1 do_free F"
  shows "\<exists>s'. unmapped s pt a 1 do_free F s' \<and> (\<forall>k. (bind (walk pt a False) (\<lambda>pte.
          seq (panic_if (pte = 0) ''uvmunmap: walk'') (
          bind (load_pte pte) (\<lambda>v.
          seq (panic_if (v AND PTE_V = 0) ''uvmunmap: not mapped'') (
          seq (panic_if (PTE_FLAGS v = PTE_V) ''uvmunmap: not a leaf'') (
          seq (whenM do_free (kfree (PTE2PA v))) (
          seq (store_pte pte 0)
          k))))))) s = k s')"
proof -
  let ?pte = "xwalk 2 (mem s) pt a"
  let ?v = "lookup 2 (mem s) pt a"
  have v: "is_v ?v" "PTE_FLAGS ?v \<noteq> PTE_V"
    using pre by (auto simp: unmap_pre_def Let_def)
  then have nz: "?pte \<noteq> 0" and ld: "ld 8 (mem s) ?pte = ?v"
    using lookup_xwalk [OF assms(2), of a] by (auto split: if_splits)
  have w: "walk pt a False s = Ok ?pte s"
    using assms(4) by (simp add: walk_def walk_level_find not_le)
  let ?fr = "if do_free then {PTE2PA ?v} else {}"
  obtain s1 where s1: "whenM do_free (kfree (PTE2PA ?v)) s = Ok () s1" "mframe s s1"
    "kmem_pool s1 (F \<union> ?fr)" "changed ?fr (mem s) (mem s1)"
  proof (cases do_free)
    case True
    then have "page_ok (syms s) (PTE2PA ?v)" "PTE2PA ?v \<notin> F"
      using pre by (auto simp: unmap_pre_def frame_of_def)
    from kfree_pool [OF assms(1) this] True that show ?thesis by auto
  next
    case False
    then show ?thesis using that [of s] assms(1) by simp
  qed
  have dj: "?fr \<inter> tset 2 (mem s) pt = {}" "\<And>q. q \<in> ?fr \<Longrightarrow> pg q"
    using pre page_ok_pg by (auto simp: unmap_pre_def frame_of_def split: if_splits)
  have ag: "agree (tset 2 (mem s) pt) (mem s) (mem s1)"
    by (rule agree_of_changed [OF s1(4)]) (use dj twf_pg [OF assms(2)] in auto)
  note tc = tree_cong [OF ag]
  have x: "xwalk 2 (mem s1) pt a = ?pte"
    by (rule xwalk_cong [OF ag])
  have wf1: "twf 2 (mem s1) pt" using tc(2) assms(2) by simp
  let ?m' = "st 8 ?pte (0 :: u64) (mem s1)"
  note l = set_leaf [OF wf1, of a ?m' 0, unfolded x, OF nz refl]
  have "agree (F \<union> ?fr) (mem s1) ?m'"
    by (rule agree_of_changed [OF l(3)])
       (use tc(1) dj assms(3) twf_pg [OF wf1] kmem_pool_pg [OF assms(1)] in auto)
  then have pool: "kmem_pool (s1\<lparr>mem := ?m'\<rparr>) (F \<union> ?fr)"
    by (rule kmem_pool_agree [OF s1(3)])
  have ch: "changed (tset 2 (mem s) pt \<union> ?fr) (mem s) ?m'"
    by (rule changed_trans [OF changed_mono [OF s1(4)] changed_mono [OF l(3)]]) (use tc(1) in auto)
  have fr: "frame_of s pt a ` {..<1} = {PTE2PA ?v}"
    by (simp add: frame_of_def)
  have "unmapped s pt a 1 do_free F (s1\<lparr>mem := ?m'\<rparr>)"
    unfolding unmapped_def fr
    using pool ch s1(2) l(1,2,4) tc same_vpn [OF assms(4)] by auto
  then show ?thesis
    using w nz ld v s1(1) by (intro exI [of _ "s1\<lparr>mem := ?m'\<rparr>"]) (simp add: load_pte_def store_pte_def)
qed


lemma vpn_off:
  assumes "unat a + 4096 * i < 0x4000000000"
  shows "vpn (a + 4096 * of_nat i) = vpn a + i" and "a + 4096 * of_nat i < MAXVA"
    and "unat (a + 4096 * of_nat i) = unat a + 4096 * i"
proof -
  have "unat (of_nat (4096 * i) :: u64) = 4096 * i"
    using assms by (intro unat_of_nat_u64) simp
  then have "unat (4096 * of_nat i :: u64) = 4096 * i" by simp
  then show u: "unat (a + 4096 * of_nat i) = unat a + 4096 * i"
    using assms by (subst unat_add_lem [THEN iffD1]) simp_all
  show "vpn (a + 4096 * of_nat i) = vpn a + i"
    by (simp add: vpn_def u)
  show "a + 4096 * of_nat i < MAXVA"
    using assms by (simp add: word_less_nat_alt u)
qed

lemma unmap_rest:
  assumes b: "unat a + 4096 * Suc n \<le> 0x4000000000" and pre: "unmap_pre s pt a (Suc n) do_free F"
    and u: "unmapped s pt a 1 do_free F s1"
  defines "F1 \<equiv> F \<union> (if do_free then frame_of s pt a ` {..<1} else {})"
  shows "\<And>i. i < n \<Longrightarrow> frame_of s1 pt (a + 4096) i = frame_of s pt a (Suc i)"
    and "unmap_pre s1 pt (a + 4096) n do_free F1"
proof -
  have lk: "lookup 2 (mem s1) pt (a + 4096 + 4096 * of_nat i) = lookup 2 (mem s) pt (a + 4096 * of_nat (Suc i))"
    if "i < n" for i
  proof -
    have "unat a + 4096 * Suc i < 0x4000000000" using b that by simp
    note v = vpn_off [OF this]
    have "a + 4096 + 4096 * of_nat i = a + 4096 * of_nat (Suc i)" by (simp add: algebra_simps)
    then show ?thesis using u v by (simp add: unmapped_def add.assoc)
  qed
  then show f: "frame_of s1 pt (a + 4096) i = frame_of s pt a (Suc i)" if "i < n" for i
    using that by (simp add: frame_of_def)
  have sy: "syms s1 = syms s" and t: "tset 2 (mem s1) pt = tset 2 (mem s) pt"
    using u mframe_fields by (auto simp: unmapped_def)
  show "unmap_pre s1 pt (a + 4096) n do_free F1"
    unfolding unmap_pre_def
  proof (intro conjI allI impI)
    fix i assume i: "i < n"
    then show "let v = lookup 2 (mem s1) pt (a + 4096 + 4096 * of_nat i) in is_v v \<and> PTE_FLAGS v \<noteq> 1"
      using pre [unfolded unmap_pre_def, THEN conjunct1, rule_format, of "Suc i"] unfolding lk [OF i] by simp
  next
    assume d: do_free
    then have inj: "inj_on (frame_of s pt a) {..<Suc n}" using pre by (simp add: unmap_pre_def)
    show "inj_on (frame_of s1 pt (a + 4096)) {..<n}"
    proof (rule inj_onI)
      fix i j assume "i \<in> {..<n}" "j \<in> {..<n}" "frame_of s1 pt (a + 4096) i = frame_of s1 pt (a + 4096) j"
      then show "i = j" using f inj by (auto dest: inj_onD)
    qed
    fix i assume i: "i < n"
    then show "page_ok (syms s1) (frame_of s1 pt (a + 4096) i)"
      using pre d f sy by (simp add: unmap_pre_def)
    have "frame_of s pt a (Suc i) \<noteq> frame_of s pt a 0"
      using inj i by (auto dest: inj_onD)
    then show "frame_of s1 pt (a + 4096) i \<notin> F1 \<union> tset 2 (mem s1) pt"
      using pre d f i t by (simp add: unmap_pre_def F1_def)
  qed
qed

lemma unmapped_trans:
  assumes b: "unat a + 4096 * Suc n \<le> 0x4000000000" and pre: "unmap_pre s pt a (Suc n) do_free F"
    and u: "unmapped s pt a 1 do_free F s1"
    and r: "unmapped s1 pt (a + 4096) n do_free (F \<union> (if do_free then frame_of s pt a ` {..<1} else {})) s'"
  shows "unmapped s pt a (Suc n) do_free F s'"
proof -
  have f: "frame_of s1 pt (a + 4096) ` {..<n} = frame_of s pt a ` {1..<Suc n}"
  proof -
    have "frame_of s1 pt (a + 4096) ` {..<n} = (\<lambda>i. frame_of s pt a (Suc i)) ` {..<n}"
      using unmap_rest(1) [OF b pre u] by (intro image_cong) auto
    also have "\<dots> = frame_of s pt a ` {1..<Suc n}"
      by (simp add: lessThan_atLeast0 flip: image_Suc_atLeastLessThan image_image)
    finally show ?thesis .
  qed
  have s: "frame_of s pt a ` {..<Suc n} = frame_of s pt a ` {..<1} \<union> frame_of s pt a ` {1..<Suc n}"
    by (simp add: lessThan_atLeast0 flip: image_Un ivl_disj_un_two(3) [of 0 1 "Suc n"])
  have "unat (a + 4096) = unat a + 4096"
    using b unat_add_of_nat [of a 4097 4096] by simp
  then have v: "vpn (a + 4096) = Suc (vpn a)"
    by (simp add: vpn_def)
  let ?G1 = "if do_free then frame_of s pt a ` {..<1} else {}"
  let ?G2 = "if do_free then frame_of s1 pt (a + 4096) ` {..<n} else {}"
  let ?G = "if do_free then frame_of s pt a ` {..<Suc n} else {}"
  have G: "?G = ?G1 \<union> ?G2"
    using s f by simp
  have U: "mframe s s1" "tset 2 (mem s1) pt = tset 2 (mem s) pt" "changed (tset 2 (mem s) pt \<union> ?G1) (mem s) (mem s1)"
    "\<forall>va < MAXVA. lookup 2 (mem s1) pt va = (if vpn a \<le> vpn va \<and> vpn va < vpn a + 1 then 0 else lookup 2 (mem s) pt va)"
    using u unfolding unmapped_def by blast+
  have R: "mframe s1 s'" "kmem_pool s' (F \<union> ?G1 \<union> ?G2)" "twf 2 (mem s') pt" "tset 2 (mem s') pt = tset 2 (mem s1) pt"
    "changed (tset 2 (mem s1) pt \<union> ?G2) (mem s1) (mem s')"
    "\<forall>va < MAXVA. lookup 2 (mem s') pt va = (if vpn (a + 4096) \<le> vpn va \<and> vpn va < vpn (a + 4096) + n then 0 else lookup 2 (mem s1) pt va)"
    using r unfolding unmapped_def by blast+
  show ?thesis
    unfolding unmapped_def
  proof (intro conjI)
    show "mframe s s'" by (rule mframe_trans [OF U(1) R(1)])
    show "kmem_pool s' (F \<union> ?G)" using R(2) unfolding G Un_assoc .
    show "twf 2 (mem s') pt" by (rule R(3))
    show "tset 2 (mem s') pt = tset 2 (mem s) pt" using R(4) U(2) by simp
    show "changed (tset 2 (mem s) pt \<union> ?G) (mem s) (mem s')"
      by (rule changed_trans [OF changed_mono [OF U(3)] changed_mono [OF R(5)]]) (unfold G U(2), blast+)
    show "\<forall>va < MAXVA. lookup 2 (mem s') pt va = (if vpn a \<le> vpn va \<and> vpn va < vpn a + Suc n then 0 else lookup 2 (mem s) pt va)"
      using U(4) R(6) v by auto
  qed
qed

text \<open>The loop up to its \<open>k\<close>-th page, all pages before that being leaves.\<close>

lemma uvmunmap_from_steps:
  assumes "kmem_pool s F" "twf 2 (mem s) pt" "tset 2 (mem s) pt \<inter> F = {}"
    and "unat a + 4096 * n \<le> 0x4000000000" "unat e = unat a + 4096 * n" "k \<le> n"
    and "unmap_pre s pt a k do_free F"
  shows "\<exists>s'. unmapped s pt a k do_free F s'
    \<and> uvmunmap_from pt a e do_free s = uvmunmap_from pt (a + 4096 * of_nat k) e do_free s'"
  using assms
proof (induction k arbitrary: a s F n)
  case 0
  then show ?case by (intro exI [of _ s]) (auto simp: unmapped_def)
next
  case (Suc k)
  obtain n' where n: "n = Suc n'" using Suc.prems(6) by (cases n) simp_all
  have a: "a < e" "a < MAXVA" using Suc.prems(4,5) n by (simp_all add: word_less_nat_alt)
  have pre1: "unmap_pre s pt a 1 do_free F"
    using Suc.prems(7) [unfolded unmap_pre_def] by (auto simp: unmap_pre_def Let_def dest: spec [of _ 0])
  have u: "unat (a + 4096) = unat a + 4096"
    using Suc.prems(4) n unat_add_of_nat [of a 4097 4096] by simp
  have "\<exists>s1. unmapped s pt a 1 do_free F s1 \<and> uvmunmap_from pt a e do_free s = uvmunmap_from pt (a + 4096) e do_free s1"
    using unmap_one [OF Suc.prems(1-3) a(2) pre1] a by (subst uvmunmap_from.simps) (auto simp: not_le)
  then obtain s1 where u1: "unmapped s pt a 1 do_free F s1"
    and e1: "uvmunmap_from pt a e do_free s = uvmunmap_from pt (a + 4096) e do_free s1"
    by blast
  let ?F = "F \<union> (if do_free then frame_of s pt a ` {..<1} else {})"
  have p: "kmem_pool s1 ?F" "twf 2 (mem s1) pt" "tset 2 (mem s1) pt \<inter> ?F = {}"
    using u1 Suc.prems(3,7) by (auto simp: unmapped_def unmap_pre_def)
  have b: "unat (a + 4096) + 4096 * n' \<le> 0x4000000000" "unat e = unat (a + 4096) + 4096 * n'" "k \<le> n'"
    using Suc.prems(4,5,6) u n by simp_all
  have ab: "unat a + 4096 * Suc k \<le> 0x4000000000"
    using mult_le_mono2 [OF Suc.prems(6), of 4096] Suc.prems(4) by simp
  obtain s2 where "unmapped s1 pt (a + 4096) k do_free ?F s2"
    "uvmunmap_from pt (a + 4096) e do_free s1 = uvmunmap_from pt (a + 4096 + 4096 * of_nat k) e do_free s2"
    using Suc.IH [OF p b unmap_rest(2) [OF ab Suc.prems(7) u1]] by blast
  then show ?case
    using unmapped_trans [OF ab Suc.prems(7) u1] e1 by (intro exI [of _ s2]) (simp add: add.assoc)
qed

text \<open>The check of the loop that fails at \<open>a\<close>.\<close>

definition unmap_error :: "memory \<Rightarrow> u64 \<Rightarrow> u64 \<Rightarrow> string" where
  "unmap_error m pt a =
     (if xwalk 2 m pt a = 0 then ''uvmunmap: walk''
      else if \<not> is_v (lookup 2 m pt a) then ''uvmunmap: not mapped'' else ''uvmunmap: not a leaf'')"

lemma uvmunmap_from_stuck:
  assumes "twf 2 (mem s) pt" "a < e" "a < MAXVA"
    and "\<not> (is_v (lookup 2 (mem s) pt a) \<and> PTE_FLAGS (lookup 2 (mem s) pt a) \<noteq> PTE_V)"
  shows "uvmunmap_from pt a e do_free s = Panic (unmap_error (mem s) pt a) s"
proof -
  have w: "walk pt a False s = Ok (xwalk 2 (mem s) pt a) s"
    using assms(3) by (simp add: walk_def walk_level_find not_le)
  show ?thesis
    using assms(2-4) lookup_xwalk [OF assms(1), of a] w
    by (subst uvmunmap_from.simps) (auto simp: not_le unmap_error_def load_pte_def)
qed

section \<open>mappages and uvmunmap\<close>

lemma vpn_add:
  assumes "unat x + unat y < 2 ^ 64"
  shows "vpn (x + y) = (unat x + unat y) div 4096"
  using assms by (simp add: vpn_def unat_add_lem [THEN iffD1])

lemma PGROUNDDOWN_less: "x < MAXVA \<Longrightarrow> PGROUNDDOWN x < MAXVA"
  using PGROUNDDOWN_le [of x] by (rule le_less_trans)

lemma mapped_PGROUNDDOWN: "mapped pt (PGROUNDDOWN va) pa perm n F s = mapped pt va pa perm n F s"
  by (intro ext) (simp add: mapped_def map_range_def vpn_PGROUNDDOWN)

text \<open>C16: \<open>mappages\<close> refines an update of the address map. On a well-formed page table, for a
  range below \<open>MAXVA\<close> no page of which is mapped yet, it never panics; the table stays a
  well-formed tree whose nodes are the old ones and pages taken from the free list; only
  page-table pages and the pages taken for it change; and the entry that a walk of the table finds
  for an address is the new leaf (the frame of the page with the permissions and \<open>PTE_V\<close>) for the
  pages of the range that were mapped, and the old one everywhere else. It returns 0 when all
  pages were mapped, and -1 only when the free list ran out, with a prefix of the pages mapped.\<close>

theorem mappages_correct:
  assumes "kmem_pool s F" "twf 2 (mem s) pt" "tset 2 (mem s) pt \<inter> F = {}"
    and "sz \<noteq> 0" "unat va + unat sz \<le> unat MAXVA"
    and "\<forall>x < MAXVA. vpn va \<le> vpn x \<and> vpn x \<le> vpn (va + sz - 1) \<longrightarrow> \<not> is_v (lookup 2 (mem s) pt x)"
  shows "wp (mappages pt va sz pa perm) (mapped pt va pa perm (Suc (vpn (va + sz - 1) - vpn va)) F s) s"
proof -
  define n where "n = vpn (va + sz - 1) - vpn va"
  have sz: "0 < unat sz" using assms(4) by (simp add: unat_gt_0)
  have "unat (va + sz) = unat va + unat sz"
    using assms(5) by (subst unat_add_lem [THEN iffD1]) simp_all
  then have l: "unat (va + sz - 1) = unat va + (unat sz - 1)"
    using sz by (subst unat_sub) (simp_all add: word_le_nat_alt)
  then have "va + sz - 1 < MAXVA"
    using assms(5) sz by (simp add: word_less_nat_alt)
  moreover have "vpn va \<le> vpn (va + sz - 1)"
    unfolding vpn_def l by (rule div_le_mono) simp
  ultimately have "wp (mappages_from pt (PGROUNDDOWN va) (PGROUNDDOWN (va + sz - 1)) pa perm)
      (mapped pt (PGROUNDDOWN va) pa perm (Suc n) F s) s"
    by (intro mappages_from_wp assms(1-3) PGROUNDDOWN_less)
      (use assms(6) in \<open>simp_all add: unat_PGROUNDDOWN vpn_PGROUNDDOWN n_def\<close>)
  then show ?thesis
    by (simp only: mappages_def mapped_PGROUNDDOWN n_def)
qed

text \<open>C17: \<open>uvmunmap\<close> removes the leading pages of the range that are mapped by leaves, and panics
  at the first page that is not. On a well-formed page table whose pages are not free, let the
  first \<open>k\<close> pages of an aligned range below \<open>MAXVA\<close> be mapped by leaves, with \<open>k\<close> the
  number of pages of the range or the next page not so mapped; with \<open>do_free\<close>, let the frames of these pages be
  distinct pages of allocatable memory that are neither free nor part of the table. Then
  exactly these \<open>k\<close> pages disappear from the address map; with \<open>do_free\<close> their frames join the free pages, and without it
  the free pages stay the same; only page-table pages and freed frames change. It
  returns when \<open>k\<close> is the whole range, and otherwise panics with the message of the check that fails: no
  page-table page on the way, an invalid entry, or an entry that is no leaf. An unaligned
  start panics at once.\<close>

theorem uvmunmap_correct:
  assumes "kmem_pool s F" "twf 2 (mem s) pt" "tset 2 (mem s) pt \<inter> F = {}"
    and "unat va + 4096 * unat npages \<le> unat MAXVA"
    and "k \<le> unat npages" "unmap_pre s pt va k do_free F"
    and "k < unat npages \<longrightarrow> \<not> (is_v (lookup 2 (mem s) pt (va + 4096 * of_nat k))
           \<and> PTE_FLAGS (lookup 2 (mem s) pt (va + 4096 * of_nat k)) \<noteq> PTE_V)"
  shows "if va mod PGSIZE \<noteq> 0 then uvmunmap pt va npages do_free s = Panic ''uvmunmap: not aligned'' s
    else \<exists>s'. unmapped s pt va k do_free F s' \<and> uvmunmap pt va npages do_free s =
      (if k = unat npages then Ok () s' else Panic (unmap_error (mem s') pt (va + 4096 * of_nat k)) s')"
proof (cases "va mod PGSIZE = 0")
  case True
  let ?e = "va + npages * PGSIZE" and ?a = "va + 4096 * of_nat k"
  have "unat npages * 4096 < 2 ^ 64" using assms(4) by simp
  then have m: "unat (npages * PGSIZE) = unat npages * 4096"
    by (subst unat_mult_lem [THEN iffD1]) simp_all
  then have e: "unat ?e = unat va + 4096 * unat npages"
    using assms(4) by (subst unat_add_lem [THEN iffD1]) simp_all
  obtain s' where s': "unmapped s pt va k do_free F s'"
    "uvmunmap_from pt va ?e do_free s = uvmunmap_from pt ?a ?e do_free s'"
    using uvmunmap_from_steps [OF assms(1-3) _ e assms(5,6)] assms(4) by auto
  show ?thesis
  proof (cases "k = unat npages")
    case True
    then have "?a = ?e" by simp
    then have "uvmunmap_from pt ?a ?e do_free s' = Ok () s'" by (subst uvmunmap_from.simps) simp
    then show ?thesis using s' True \<open>va mod PGSIZE = 0\<close> by (auto simp: uvmunmap_def)
  next
    case False
    then have lt: "unat va + 4096 * k < unat va + 4096 * unat npages" "k < unat npages" using assms(5) by simp_all
    then have b: "unat va + 4096 * k < 0x4000000000" using assms(4) by simp
    note v = vpn_off [OF b]
    have "?a < ?e" using v(3) e lt by (simp add: word_less_nat_alt)
    moreover have "lookup 2 (mem s') pt ?a = lookup 2 (mem s) pt ?a"
      using s'(1) v by (simp add: unmapped_def)
    moreover have "twf 2 (mem s') pt" using s'(1) by (simp add: unmapped_def)
    ultimately have "uvmunmap_from pt ?a ?e do_free s' = Panic (unmap_error (mem s') pt ?a) s'"
      using v(2) assms(7) lt(2) by (intro uvmunmap_from_stuck) simp_all
    then show ?thesis using s' False True by (auto simp: uvmunmap_def)
  qed
qed (simp add: uvmunmap_def)


section \<open>A small address space\<close>

text \<open>A table of three nodes that maps page 0 to one frame, on a machine with one free page.\<close>

lemma entry_st0:
  assumes "pg p" "pg q" "i < 512"
  shows "entry (st 8 q v m) p i = (if p = q \<and> i = 0 then v else entry m p i)"
proof (cases "p = q")
  case True
  then show ?thesis
    using entry_st_same [of q 0 v m] entry_st_other [of 0 i q v m] assms by auto
next
  case False
  have "entry (st 8 q v m) p i = entry m p i"
  proof (rule entry_cong [OF _ assms(3)])
    fix x assume "in_page p x"
    then have "\<not> in_page q x"
      using pages_disjoint [of p q x] False assms(1,2) by (auto simp: pg_def)
    then show "st 8 q v m x = m x"
      using st_page [of 0 q x v m] by simp
  qed
  with False show ?thesis by simp
qed

definition small_mem :: memory where
  "small_mem = st 8 0x87ffe000 (0x21fff401 :: u64) (st 8 0x87ffd000 (0x21fff001 :: u64)
     (st 8 0x87ffc000 (0x21ffec1f :: u64) (\<lambda>_. 0)))"

definition small_space :: kstate where
  "small_space = zero_state\<lparr>mem := small_mem, freelist := 0x87fff000\<rparr>"

lemma small_entries:
  assumes "pg p" "i < 512"
  shows "entry small_mem p i =
    (if i = 0 \<and> p = 0x87ffe000 then 0x21fff401 else if i = 0 \<and> p = 0x87ffd000 then 0x21fff001
     else if i = 0 \<and> p = 0x87ffc000 then 0x21ffec1f else 0)"
  using assms
  by (simp add: small_mem_def entry_st0 pg_def) (auto simp: entry_def ld_def)

lemma small_pg: "pg 0x87ffe000" "pg 0x87ffd000" "pg 0x87ffc000" "pg 0x87fff000"
  by (simp_all add: pg_def)

lemma small_pte: "PTE2PA 0x21fff401 = 0x87ffd000" "PTE2PA 0x21fff001 = 0x87ffc000" "PTE2PA 0x21ffec1f = 0x87ffb000"
  by (simp_all add: PTE2PA_def)

lemma small_tset: "tset 2 small_mem 0x87ffe000 = {0x87ffe000, 0x87ffd000, 0x87ffc000}"
proof -
  have e: "{i. i < 512 \<and> is_v (entry small_mem 0x87ffe000 i)} = {0}"
    "{i. i < 512 \<and> is_v (entry small_mem 0x87ffd000 i)} = {0}"
    by (auto simp: small_entries small_pg split: if_splits)
  then have "tset (Suc (Suc 0)) small_mem 0x87ffe000 = {0x87ffe000, 0x87ffd000, 0x87ffc000}"
    by (simp add: tset.simps small_entries small_pg small_pte insert_commute)
  then show ?thesis by (simp only: numeral_2_eq_2)
qed

lemma small_twf: "twf 2 small_mem 0x87ffe000"
proof -
  have "pg 0x87ffe000" "pg 0x87ffd000" "pg 0x87ffc000" by (simp_all add: small_pg)
  moreover have "tset 1 small_mem 0x87ffd000 = {0x87ffd000, 0x87ffc000}"
  proof -
    have "{i. i < 512 \<and> is_v (entry small_mem 0x87ffd000 i)} = {0}"
      by (auto simp: small_entries small_pg split: if_splits)
    then show ?thesis by (simp add: tset.simps small_entries small_pg small_pte insert_commute)
  qed
  then have "twf (Suc (Suc 0)) small_mem 0x87ffe000"
    by (simp add: tset.simps twf.simps small_entries small_pg small_pte)
  then show ?thesis by (simp only: numeral_2_eq_2)
qed

lemma small_lookup:
  "lookup 2 small_mem 0x87ffe000 va = (if px 2 va = 0 \<and> px 1 va = 0 \<and> px 0 va = 0 then 0x21ffec1f else 0)"
proof -
  have "lookup (Suc (Suc 0)) small_mem 0x87ffe000 va =
    (if px (Suc (Suc 0)) va = 0 \<and> px (Suc 0) va = 0 \<and> px 0 va = 0 then 0x21ffec1f else 0)"
    using px_less by (auto simp: Let_def small_entries small_pg small_pte)
  then show ?thesis by (simp only: numeral_2_eq_2 One_nat_def)
qed

lemma small_pool: "kmem_pool small_space {0x87fff000}"
proof -
  have "entry small_mem 0x87fff000 0 = 0" by (simp add: small_entries small_pg)
  then have "kmem_inv small_space [0x87fff000]"
    by (simp add: kmem_inv_def small_space_def page_ok_def zero_state_def entry_def)
  moreover have "can_lock LKmem small_space" by (simp add: small_space_def)
  ultimately show ?thesis unfolding kmem_pool_def by fastforce
qed

lemma small_disjoint: "tset 2 small_mem 0x87ffe000 \<inter> {0x87fff000} = {}"
  by (simp add: small_tset)

lemma small_frame: "frame_of small_space 0x87ffe000 0 0 = 0x87ffb000" "lookup 2 small_mem 0x87ffe000 0 = 0x21ffec1f"
  by (simp_all add: frame_of_def small_space_def small_lookup small_pte px_vpn vpn_def)

theorem mappages_correct_witness:
  "wp (mappages 0x87ffe000 0x1000 0x1000 0x80100000 6)
     (mapped 0x87ffe000 0x1000 0x80100000 6 1 {0x87fff000} small_space) small_space"
proof -
  have "\<not> is_v (lookup 2 small_mem 0x87ffe000 x)" if "vpn x = 1" for x
    using that by (simp add: small_lookup px_vpn)
  then show ?thesis
    using mappages_correct [where s = small_space and F = "{0x87fff000}" and pt = "0x87ffe000" and sz = "0x1000" and va = "0x1000"
        and pa = "0x80100000" and perm = 6] small_pool
      small_twf small_disjoint
    by (simp add: small_space_def vpn_def)
qed

theorem uvmunmap_correct_witness:
  "(\<exists>s'. uvmunmap 0x87ffe000 0 1 True small_space = Ok () s' \<and> kmem_pool s' {0x87fff000, 0x87ffb000}
     \<and> lookup 2 (mem s') 0x87ffe000 0x123 = 0)
   \<and> (\<exists>e s'. uvmunmap 0x87ffe000 0 2 True small_space = Panic e s' \<and> kmem_pool s' {0x87fff000, 0x87ffb000})"
proof -
  have pre: "unmap_pre small_space 0x87ffe000 0 1 True {0x87fff000}"
    using small_frame
    by (simp add: unmap_pre_def small_space_def small_tset PTE_FLAGS_def page_ok_def zero_state_def)
  have m: "mem small_space = small_mem" by (simp add: small_space_def)
  have nv: "lookup 2 small_mem 0x87ffe000 0x1000 = 0" by (simp add: small_lookup px_vpn vpn_def)
  obtain s1 where "unmapped small_space 0x87ffe000 0 1 True {0x87fff000} s1" "uvmunmap 0x87ffe000 0 1 True small_space = Ok () s1"
    using uvmunmap_correct [OF small_pool _ _ _ _ pre, of 1] small_twf small_disjoint by (auto simp: m)
  moreover obtain s2 e where "unmapped small_space 0x87ffe000 0 1 True {0x87fff000} s2" "uvmunmap 0x87ffe000 0 2 True small_space = Panic e s2"
    using uvmunmap_correct [OF small_pool _ _ _ _ pre, of 2] small_twf small_disjoint nv by (auto simp: m)
  ultimately show ?thesis
    by (auto simp: unmapped_def small_frame vpn_def insert_commute)
qed

end
