(* ===== verification/Usermem.thy ===== *)
theory Usermem
  imports Pagetable
begin

text \<open>
  The user address space that a page table defines, and what \<open>walkaddr\<close>, \<open>copyin\<close>, \<open>copyout\<close> and
  \<open>copyinstr\<close> of \<open>kernel/vm.c\<close> do with it.
\<close>

section \<open>Translation of user addresses\<close>

definition xlate :: "memory \<Rightarrow> u64 \<Rightarrow> u64 \<Rightarrow> u64" where
  "xlate m pt va =
     (let v = lookup 2 m pt va in
      if MAXVA \<le> va \<or> v AND PTE_V = 0 \<or> v AND PTE_U = 0 then 0 else PTE2PA v)"

lemma walkaddr_Ok:
  assumes "twf 2 (mem s) pt"
  shows "walkaddr pt va s = Ok (xlate (mem s) pt va) s"
  using lookup_xwalk [OF assms, of va]
  by (cases "MAXVA \<le> va") (auto simp: walkaddr_def walk_def walk_level_find load_pte_def xlate_def not_le)

text \<open>The physical address of a user virtual address, and the byte there.\<close>

definition uaddr :: "memory \<Rightarrow> u64 \<Rightarrow> u64 \<Rightarrow> u64 option" where
  "uaddr m pt va =
     (let pa = xlate m pt (PGROUNDDOWN va) in
      if pa = 0 then None else Some (pa + (va - PGROUNDDOWN va)))"

definition ubyte :: "memory \<Rightarrow> u64 \<Rightarrow> u64 \<Rightarrow> byte option" where
  "ubyte m pt va = map_option m (uaddr m pt va)"

text \<open>A sound user address space: its frames are pages, none of them holds a page table, and no
  two virtual pages share one.\<close>

definition uspace :: "memory \<Rightarrow> u64 \<Rightarrow> bool" where
  "uspace m pt \<longleftrightarrow> twf 2 m pt
     \<and> (\<forall>va < MAXVA. xlate m pt va \<noteq> 0 \<longrightarrow> pg (xlate m pt va) \<and> xlate m pt va \<notin> tset 2 m pt)
     \<and> (\<forall>va < MAXVA. \<forall>va' < MAXVA. xlate m pt va \<noteq> 0 \<and> xlate m pt va = xlate m pt va' \<longrightarrow> vpn va = vpn va')"

lemma xlate_MAXVA: "xlate m pt va \<noteq> 0 \<Longrightarrow> va < MAXVA"
  by (auto simp: xlate_def Let_def not_le split: if_splits)

lemma unat_offset: "unat (va - PGROUNDDOWN va) = unat va mod 4096"
  using PGROUNDDOWN_le [of va]
  by (simp add: unat_sub unat_PGROUNDDOWN vpn_def minus_mult_div_eq_mod)

lemma same_page:
  assumes "unat (va - PGROUNDDOWN va) + i < 4096"
  shows "PGROUNDDOWN (va + of_nat i) = PGROUNDDOWN va"
    and "va + of_nat i - PGROUNDDOWN va = (va - PGROUNDDOWN va) + of_nat i"
proof -
  have o: "unat va mod 4096 + i < 4096" using assms by (simp add: unat_offset)
  have d: "unat va = 4096 * vpn va + unat va mod 4096" by (simp add: vpn_def)
  have "unat (PGROUNDDOWN va) = 4096 * vpn va" by (rule unat_PGROUNDDOWN)
  moreover obtain P where "unat (PGROUNDDOWN va) = 4096 * P" "4096 * Suc P \<le> 2 ^ 64"
    using PGROUNDDOWN_aligned by (rule aligned_bound)
  ultimately have "4096 * Suc (vpn va) \<le> 2 ^ 64" by simp
  then have "4096 * vpn va + 4096 \<le> 2 ^ 64" by simp
  then have "unat va + i < 2 ^ 64" using d o by linarith
  moreover have "unat (of_nat i :: u64) = i" using o by (intro unat_of_nat_u64) simp
  ultimately have u: "unat (va + of_nat i) = unat va + i"
    by (subst unat_add_lem [THEN iffD1]) simp_all
  have "vpn (va + of_nat i) = vpn va"
  proof -
    have "unat (va + of_nat i) = 4096 * vpn va + (unat va mod 4096 + i)" using u d by linarith
    then show ?thesis using o by (simp add: vpn_def [of "va + of_nat i"])
  qed
  then show "PGROUNDDOWN (va + of_nat i) = PGROUNDDOWN va"
    by (simp add: word_unat_eq_iff unat_PGROUNDDOWN)
  show "va + of_nat i - PGROUNDDOWN va = (va - PGROUNDDOWN va) + of_nat i" by simp
qed

lemma chunk_props:
  fixes va len :: u64
  assumes "len \<noteq> 0"
  defines "c \<equiv> unat (chunk va len)"
  shows "0 < c" "c \<le> unat len" "unat (va - PGROUNDDOWN va) + c \<le> 4096"
    and "unat (len - chunk va len) = unat len - c"
    and "c < unat len \<Longrightarrow> PGROUNDDOWN va + PGSIZE = va + of_nat c"
proof -
  have off: "unat (va - PGROUNDDOWN va) < 4096"
    using page_offset_less [of va] by (simp add: word_less_nat_alt)
  then have n: "unat (PGSIZE - (va - PGROUNDDOWN va)) = 4096 - unat (va - PGROUNDDOWN va)"
    by (simp add: unat_sub word_le_nat_alt)
  show "0 < c" "c \<le> unat len"
    using chunk_pos(1) [OF assms(1), of va] chunk_pos(2) [of va len]
    by (simp_all add: c_def word_le_nat_alt unat_gt_0)
  show "unat (len - chunk va len) = unat len - c"
    using chunk_pos(2) [of va len] by (simp add: c_def unat_sub word_le_nat_alt)
  have c: "c = (if unat len < 4096 - unat (va - PGROUNDDOWN va) then unat len else 4096 - unat (va - PGROUNDDOWN va))"
    by (simp add: c_def chunk_def Let_def word_less_nat_alt n)
  then show "unat (va - PGROUNDDOWN va) + c \<le> 4096" using off by auto
  show "PGROUNDDOWN va + PGSIZE = va + of_nat c" if "c < unat len"
  proof -
    have "chunk va len = PGSIZE - (va - PGROUNDDOWN va)"
      using that by (auto simp: chunk_def Let_def c_def split: if_splits)
    then have "of_nat c = PGSIZE - (va - PGROUNDDOWN va)"
      by (simp add: c_def)
    then show ?thesis by simp
  qed
qed

lemma uaddr_page:
  assumes "len \<noteq> 0" "i < unat (chunk va len)"
  shows "uaddr m pt (va + of_nat i) =
    (if xlate m pt (PGROUNDDOWN va) = 0 then None
     else Some (xlate m pt (PGROUNDDOWN va) + (va - PGROUNDDOWN va) + of_nat i))"
proof -
  have "unat (va - PGROUNDDOWN va) + i < 4096"
    using chunk_props(3) [OF assms(1), of va] assms(2) by linarith
  from same_page [OF this] show ?thesis
    by (simp add: uaddr_def Let_def algebra_simps)
qed

lemma rest_addr:
  assumes "len \<noteq> 0" "unat (chunk va len) \<le> i" "i < unat len"
  shows "PGROUNDDOWN va + PGSIZE + of_nat (i - unat (chunk va len)) = va + of_nat i"
proof -
  have "PGROUNDDOWN va + PGSIZE = va + of_nat (unat (chunk va len))"
    using chunk_props(5) [OF assms(1), of va] assms(2,3) by simp
  then show ?thesis
    using assms(2) by (simp add: of_nat_diff)
qed

text \<open>Splitting a statement about the whole range into the first page and the rest.\<close>

lemma range_split:
  assumes "len \<noteq> 0"
  shows "(\<forall>i < unat len. P (va + of_nat i) i) \<longleftrightarrow>
    (\<forall>i < unat (chunk va len). P (va + of_nat i) i) \<and>
    (\<forall>i < unat (len - chunk va len). P (PGROUNDDOWN va + PGSIZE + of_nat i) (i + unat (chunk va len)))"
proof (intro iffI conjI allI impI)
  note c = chunk_props [OF assms, of va]
  {
    fix i assume "\<forall>i < unat len. P (va + of_nat i) i" "i < unat (chunk va len)"
    with c(2) show "P (va + of_nat i) i" by (elim allE [of _ i]) simp
  next
    fix i assume L: "\<forall>i < unat len. P (va + of_nat i) i" and "i < unat (len - chunk va len)"
    then have i: "i + unat (chunk va len) < unat len" using c(4) by simp
    have "PGROUNDDOWN va + PGSIZE + of_nat (i + unat (chunk va len) - unat (chunk va len)) =
       va + of_nat (i + unat (chunk va len))"
      by (rule rest_addr [OF assms _ i]) simp
    then show "P (PGROUNDDOWN va + PGSIZE + of_nat i) (i + unat (chunk va len))"
      using L [rule_format, OF i] by (simp only: add_diff_cancel_right')
  next
    fix i
    assume AB: "(\<forall>i < unat (chunk va len). P (va + of_nat i) i) \<and>
      (\<forall>i < unat (len - chunk va len). P (PGROUNDDOWN va + PGSIZE + of_nat i) (i + unat (chunk va len)))"
      and i: "i < unat len"
    show "P (va + of_nat i) i"
    proof (cases "i < unat (chunk va len)")
      case True
      with conjunct1 [OF AB] show ?thesis by (elim allE [of _ i]) simp
    next
      case False
      then have "i - unat (chunk va len) < unat (len - chunk va len)" using c(4) i by simp
      from conjunct2 [OF AB, rule_format, OF this] show ?thesis
        using rest_addr [OF assms _ i] False by (simp only: not_less le_add_diff_inverse2)
    qed
  }
qed

section \<open>copyin\<close>

definition umapped :: "memory \<Rightarrow> u64 \<Rightarrow> u64 \<Rightarrow> nat \<Rightarrow> bool" where
  "umapped m pt va n \<longleftrightarrow> (\<forall>i < n. uaddr m pt (va + of_nat i) \<noteq> None)"

lemma umapped_split:
  assumes "len \<noteq> 0"
  shows "umapped m pt va (unat len) \<longleftrightarrow> xlate m pt (PGROUNDDOWN va) \<noteq> 0
    \<and> umapped m pt (PGROUNDDOWN va + PGSIZE) (unat (len - chunk va len))"
proof -
  have "(\<forall>i < unat (chunk va len). uaddr m pt (va + of_nat i) \<noteq> None) \<longleftrightarrow> xlate m pt (PGROUNDDOWN va) \<noteq> 0"
    using uaddr_page [OF assms, of _ va m pt] chunk_props(1) [OF assms, of va] by (auto split: if_splits)
  then show ?thesis
    unfolding umapped_def by (subst range_split [OF assms]) simp
qed

lemma copyin_from_Ok:
  assumes "twf 2 (mem s) pt"
  shows "\<exists>d. copyin_from pt dst i va len s = Ok (if umapped (mem s) pt va (unat len) then 0 else - 1, d) s
    \<and> (umapped (mem s) pt va (unat len) \<longrightarrow> (\<forall>k < unat len. ubyte (mem s) pt (va + of_nat k) = Some (d (i + k))))
    \<and> (\<forall>j. j < i \<or> i + unat len \<le> j \<longrightarrow> d j = dst j)"
  using assms
proof (induction pt dst i va len rule: copyin_from.induct)
  case (1 pt dst i va len)
  let ?m = "mem s" and ?c = "unat (chunk va len)"
  show ?case
  proof (cases "len = 0 \<or> xlate ?m pt (PGROUNDDOWN va) = 0")
    case True
    then show ?thesis
      using umapped_split [of len ?m pt va] walkaddr_Ok [OF "1.prems"]
      by (subst copyin_from.simps) (auto simp: umapped_def)
  next
    case False
    then have len: "len \<noteq> 0" and pa: "xlate ?m pt (PGROUNDDOWN va) \<noteq> 0" by simp_all
    note c = chunk_props [OF len, of va]
    define dst' where "dst' = (\<lambda>j. if i \<le> j \<and> j < i + ?c
      then ?m (xlate ?m pt (PGROUNDDOWN va) + (va - PGROUNDDOWN va) + of_nat (j - i)) else dst j)"
    have step: "copyin_from pt dst i va len s =
        copyin_from pt dst' (i + ?c) (PGROUNDDOWN va + PGSIZE) (len - chunk va len) s"
      using len pa walkaddr_Ok [OF "1.prems"] by (subst copyin_from.simps) (simp add: dst'_def)
    obtain d where d: "copyin_from pt dst' (i + ?c) (PGROUNDDOWN va + PGSIZE) (len - chunk va len) s =
          Ok (if umapped ?m pt va (unat len) then 0 else - 1, d) s"
      and rest: "umapped ?m pt va (unat len) \<Longrightarrow> \<forall>k < unat (len - chunk va len).
          ubyte ?m pt (PGROUNDDOWN va + PGSIZE + of_nat k) = Some (d (i + (k + ?c)))"
      and fr: "\<And>j. j < i + ?c \<or> i + ?c + unat (len - chunk va len) \<le> j \<Longrightarrow> d j = dst' j"
      using "1.IH" [OF len pa "1.prems", of ?m] len pa
      by (fastforce simp: umapped_split [OF len] dst'_def ac_simps)
    have "\<forall>k < ?c. ubyte ?m pt (va + of_nat k) = Some (d (i + k))"
      using fr pa by (simp add: ubyte_def uaddr_page [OF len] dst'_def)
    then have "umapped ?m pt va (unat len) \<longrightarrow> (\<forall>k < unat len. ubyte ?m pt (va + of_nat k) = Some (d (i + k)))"
      using rest by (subst range_split [OF len]) simp
    moreover have "d j = dst j" if "j < i \<or> i + unat len \<le> j" for j
      using fr [of j] that c(2,4) by (auto simp: dst'_def)
    ultimately show ?thesis
      using step d by simp
  qed
qed

section \<open>copyout\<close>

lemma uaddr_frame:
  assumes "uaddr m pt va = Some x"
  shows "in_page (xlate m pt (PGROUNDDOWN va)) x" and "x = xlate m pt (PGROUNDDOWN va) + (va - PGROUNDDOWN va)"
    and "xlate m pt (PGROUNDDOWN va) \<noteq> 0"
  using assms page_offset_less [of va]
  by (auto simp: uaddr_def Let_def in_page_def word_less_nat_alt split: if_splits)

lemma uspaceD:
  assumes "uspace m pt" "xlate m pt va \<noteq> 0"
  shows "pg (xlate m pt va)" "xlate m pt va \<notin> tset 2 m pt"
    and "xlate m pt va' = xlate m pt va \<Longrightarrow> vpn va' = vpn va"
  using assms xlate_MAXVA [of m pt] unfolding uspace_def by metis+

lemma uaddr_inj:
  assumes us: "uspace m pt" and a: "uaddr m pt a = Some x" and b: "uaddr m pt b = Some x"
  shows "a = b"
proof -
  let ?A = "PGROUNDDOWN a" and ?B = "PGROUNDDOWN b"
  note fa = uaddr_frame [OF a] and fb = uaddr_frame [OF b]
  have eq: "xlate m pt ?A = xlate m pt ?B"
  proof (rule ccontr)
    assume "xlate m pt ?A \<noteq> xlate m pt ?B"
    moreover have "xlate m pt ?A mod 4096 = 0" "xlate m pt ?B mod 4096 = 0"
      using uspaceD(1) [OF us fa(3)] uspaceD(1) [OF us fb(3)] by (simp_all add: pg_def)
    ultimately show False
      using pages_disjoint [of "xlate m pt ?A" "xlate m pt ?B" x] fa(1) fb(1) by simp
  qed
  have "vpn ?A = vpn ?B"
    by (rule uspaceD(3) [OF us fb(3) eq])
  then have "unat ?A = unat ?B"
    unfolding unat_PGROUNDDOWN vpn_PGROUNDDOWN by simp
  then have AB: "?A = ?B" by (rule word_unat_eq_iff [THEN iffD2])
  have "xlate m pt ?B + (a - ?B) = xlate m pt ?B + (b - ?B)"
    using fa(2) fb(2) unfolding AB by (rule trans [OF sym])
  then have "a - ?B = b - ?B" by (rule add_left_imp_eq)
  then show ?thesis by (metis diff_add_cancel)
qed

lemma xlate_cong: "lookup 2 m' pt = lookup 2 m pt \<Longrightarrow> xlate m' pt = xlate m pt"
  by (intro ext) (simp add: xlate_def)

lemma uspace_write:
  assumes us: "uspace m pt" and pa: "xlate m pt va \<noteq> 0" and ch: "changed {xlate m pt va} m m'"
  shows "xlate m' pt = xlate m pt" and "uspace m' pt"
proof -
  have ag: "agree (tset 2 m pt) m m'"
  proof (rule agree_of_changed [OF ch])
    show "pg q" if "q \<in> {xlate m pt va} \<union> tset 2 m pt" for q
      using that uspaceD(1) [OF us pa] us twf_pg unfolding uspace_def by blast
    show "{xlate m pt va} \<inter> tset 2 m pt = {}"
      using uspaceD(2) [OF us pa] by simp
  qed
  show x: "xlate m' pt = xlate m pt" by (rule xlate_cong) (rule tree_cong(3) [OF ag])
  show "uspace m' pt"
    using us unfolding uspace_def x tree_cong(1,2) [OF ag] .
qed

lemma uaddr_cong: "xlate m' pt = xlate m pt \<Longrightarrow> uaddr m' pt = uaddr m pt"
  by (intro ext) (simp add: uaddr_def)

lemma unat_lt_u64: "unat (x :: u64) < 2 ^ 64"
  using unsigned_less [of x] by simp

definition uwrite :: "memory \<Rightarrow> u64 \<Rightarrow> u64 \<Rightarrow> nat \<Rightarrow> (nat \<Rightarrow> byte) \<Rightarrow> memory \<Rightarrow> bool" where
  "uwrite m pt va n src m' \<longleftrightarrow> xlate m' pt = xlate m pt \<and> uspace m' pt
     \<and> (umapped m pt va n \<longrightarrow> (\<forall>k < n. ubyte m' pt (va + of_nat k) = Some (src k)))
     \<and> (\<forall>x. m' x \<noteq> m x \<longrightarrow> (\<exists>k < n. uaddr m pt (va + of_nat k) = Some x))"

lemma chunk_write:
  fixes src :: "nat \<Rightarrow> byte"
  assumes us: "uspace m pt" and len: "len \<noteq> 0" and pa: "xlate m pt (PGROUNDDOWN va) \<noteq> 0"
  defines "m' \<equiv> blit (xlate m pt (PGROUNDDOWN va) + (va - PGROUNDDOWN va)) (unat (chunk va len)) src m"
  shows "uwrite m pt va (unat (chunk va len)) src m'"
proof -
  let ?pa = "xlate m pt (PGROUNDDOWN va)" and ?c = "unat (chunk va len)"
  note c = chunk_props(3) [OF len, of va]
  have wr: "\<exists>k < ?c. uaddr m pt (va + of_nat k) = Some x" if "m' x \<noteq> m x" for x
  proof -
    define k where "k = unat (x - (?pa + (va - PGROUNDDOWN va)))"
    have k: "k < ?c" using that by (auto simp: m'_def blit_def k_def split: if_splits)
    moreover have "x = ?pa + (va - PGROUNDDOWN va) + of_nat k"
      by (simp add: k_def)
    ultimately have "uaddr m pt (va + of_nat k) = Some x" using pa by (simp add: uaddr_page [OF len])
    with k show ?thesis by blast
  qed
  have "in_page ?pa x" if "m' x \<noteq> m x" for x
  proof -
    obtain k where k: "k < ?c" "uaddr m pt (va + of_nat k) = Some x" using wr \<open>m' x \<noteq> m x\<close> by blast
    have "unat (va - PGROUNDDOWN va) + k < 4096" using c k(1) by linarith
    then show ?thesis using uaddr_frame(1) [OF k(2)] same_page(1) by simp
  qed
  then have ch: "changed {?pa} m m'" by (auto simp: changed_def)
  note x = uspace_write [OF us pa ch]
  have "ubyte m' pt (va + of_nat k) = Some (src k)" if k: "k < ?c" for k
  proof -
    have "unat (of_nat k :: u64) = k"
      using k unat_lt_u64 [of "chunk va len"] by (intro unat_of_nat_u64) simp
    then have "m' (?pa + (va - PGROUNDDOWN va) + of_nat k) = src k"
      using k by (simp add: m'_def blit_def)
    moreover have "uaddr m' pt (va + of_nat k) = Some (?pa + (va - PGROUNDDOWN va) + of_nat k)"
      using k pa by (simp add: uaddr_cong [OF x(1)] uaddr_page [OF len])
    ultimately show ?thesis by (simp add: ubyte_def)
  qed
  with x wr show ?thesis by (simp add: uwrite_def)
qed

lemma of_nat_u64_inj: "j < 2 ^ 64 \<Longrightarrow> k < 2 ^ 64 \<Longrightarrow> (of_nat j :: u64) = of_nat k \<Longrightarrow> j = k"
  using unat_of_nat_u64 [of j] unat_of_nat_u64 [of k] by metis

lemma umapped_Suc: "umapped m pt va (Suc n) \<longleftrightarrow> umapped m pt va n \<and> uaddr m pt (va + of_nat n) \<noteq> None"
  unfolding umapped_def less_Suc_eq by blast

lemma umapped_app:
  "umapped m pt va (c + r) \<longleftrightarrow> umapped m pt va c \<and> umapped m pt (va + of_nat c) r"
proof (induction r)
  case 0
  then show ?case by (simp add: umapped_def)
next
  case (Suc r)
  have "va + of_nat (c + r) = va + of_nat c + of_nat r" by simp
  with Suc show ?case by (simp only: add_Suc_right umapped_Suc) blast
qed

text \<open>Two writes one after the other are one write of the concatenation.\<close>

lemma uwrite_app:
  assumes us: "uspace m pt" and n: "c + r < 2 ^ 64"
    and one: "uwrite m pt va c src m1"
    and two: "uwrite m1 pt (va + of_nat c) r (\<lambda>i. src (c + i)) m'"
  shows "uwrite m pt va (c + r) src m'"
proof -
  have x1: "xlate m1 pt = xlate m pt" "xlate m' pt = xlate m pt" using one two by (simp_all add: uwrite_def)
  note u = uaddr_cong [OF x1(1)] uaddr_cong [OF x1(2)]
  have two': "\<exists>k < r. uaddr m pt (va + of_nat (c + k)) = Some x" if "m' x \<noteq> m1 x" for x
    using two that by (auto simp: uwrite_def u add.assoc)
  have wr: "\<exists>k < c + r. uaddr m pt (va + of_nat k) = Some x" if "m' x \<noteq> m x" for x
  proof (cases "m1 x = m x")
    case True
    with that two' obtain k where "k < r" "uaddr m pt (va + of_nat (c + k)) = Some x" by metis
    then show ?thesis by (intro exI [of _ "c + k"]) simp
  next
    case False
    with one obtain k where "k < c" "uaddr m pt (va + of_nat k) = Some x" by (auto simp: uwrite_def)
    then show ?thesis by (intro exI [of _ k]) simp
  qed
  have "ubyte m' pt (va + of_nat k) = Some (src k)" if um: "umapped m pt va (c + r)" and k: "k < c + r" for k
  proof (cases "k < c")
    case True
    have "ubyte m1 pt (va + of_nat k) = Some (src k)"
      using one um True by (simp add: uwrite_def umapped_app)
    then obtain x where x: "uaddr m pt (va + of_nat k) = Some x" "m1 x = src k" by (auto simp: ubyte_def u)
    have "m' x = m1 x"
    proof (rule ccontr)
      assume "m' x \<noteq> m1 x"
      then obtain j where j: "j < r" "uaddr m pt (va + of_nat (c + j)) = Some x" using two' by blast
      have "va + of_nat k = va + of_nat (c + j)" by (rule uaddr_inj [OF us x(1) j(2)])
      then have "(of_nat k :: u64) = of_nat (c + j)" by (simp only: add_left_cancel)
      then have "k = c + j"
        by (rule of_nat_u64_inj [rotated 2]) (use k j(1) n in simp_all)
      with True show False by simp
    qed
    with x show ?thesis by (simp add: ubyte_def u)
  next
    case False
    then have i: "k - c < r" "c + (k - c) = k" using k by simp_all
    have "umapped m1 pt (va + of_nat c) r" using um by (simp only: umapped_app) (simp add: umapped_def u)
    then have "ubyte m' pt (va + of_nat c + of_nat (k - c)) = Some (src (c + (k - c)))"
      using two i(1) by (simp add: uwrite_def)
    moreover have "va + of_nat c + of_nat (k - c) = va + of_nat (c + (k - c))" by simp
    ultimately show ?thesis by (simp only: i(2))
  qed
  with wr two x1 show ?thesis by (simp add: uwrite_def)
qed

lemma uwrite_append:
  assumes us: "uspace m pt" and len: "len \<noteq> 0"
    and one: "uwrite m pt va (unat (chunk va len)) src m1"
    and two: "uwrite m1 pt (PGROUNDDOWN va + PGSIZE) (unat (len - chunk va len)) (\<lambda>i. src (i + unat (chunk va len))) m'"
  shows "uwrite m pt va (unat len) src m'"
proof -
  let ?c = "unat (chunk va len)" and ?r = "unat (len - chunk va len)"
  note c = chunk_props [OF len, of va]
  have cr: "?c + ?r = unat len" using c(2,4) by simp
  have two': "uwrite m1 pt (va + of_nat ?c) ?r (\<lambda>i. src (?c + i)) m'"
  proof (cases "?c < unat len")
    case True
    then show ?thesis using two c(5) by (simp add: add.commute)
  next
    case False
    then have "?r = 0" using c(4) by simp
    then show ?thesis using two by (simp add: uwrite_def umapped_def)
  qed
  have "?c + ?r < 2 ^ 64" unfolding cr by (rule unat_lt_u64)
  from uwrite_app [OF us this one two'] show ?thesis unfolding cr .
qed

lemma copyout_Ok:
  assumes "uspace (mem s) pt"
  shows "\<exists>m'. copyout pt va src len s = Ok (if umapped (mem s) pt va (unat len) then 0 else - 1) (s\<lparr>mem := m'\<rparr>)
    \<and> uwrite (mem s) pt va (unat len) src m'"
  using assms
proof (induction pt va src len arbitrary: s rule: copyout.induct)
  case (1 pt va src len s)
  let ?m = "mem s" and ?c = "unat (chunk va len)"
  have wa: "walkaddr pt a s = Ok (xlate ?m pt a) s" for a
    by (rule walkaddr_Ok) (use "1.prems" in \<open>simp add: uspace_def\<close>)
  show ?case
  proof (cases "len = 0 \<or> xlate ?m pt (PGROUNDDOWN va) = 0")
    case True
    then show ?thesis
      using umapped_split [of len ?m pt va] wa "1.prems"
      by (subst copyout.simps) (auto simp: umapped_def uwrite_def intro!: exI [of _ ?m])
  next
    case False
    then have len: "len \<noteq> 0" and pa: "xlate ?m pt (PGROUNDDOWN va) \<noteq> 0" by simp_all
    define m1 where "m1 = blit (xlate ?m pt (PGROUNDDOWN va) + (va - PGROUNDDOWN va)) ?c src ?m"
    have step: "copyout pt va src len s =
        copyout pt (PGROUNDDOWN va + PGSIZE) (\<lambda>i. src (i + ?c)) (len - chunk va len) (s\<lparr>mem := m1\<rparr>)"
      using len pa wa by (subst copyout.simps) (simp add: m1_def)
    have one: "uwrite ?m pt va ?c src m1"
      unfolding m1_def by (rule chunk_write [OF "1.prems" len pa])
    then have u1: "uspace (mem (s\<lparr>mem := m1\<rparr>)) pt" and x1: "xlate m1 pt = xlate ?m pt"
      by (simp_all add: uwrite_def)
    from "1.IH" [OF len pa u1] obtain m' where
      m': "copyout pt (PGROUNDDOWN va + PGSIZE) (\<lambda>i. src (i + ?c)) (len - chunk va len) (s\<lparr>mem := m1\<rparr>) =
        Ok (if umapped m1 pt (PGROUNDDOWN va + PGSIZE) (unat (len - chunk va len)) then 0 else - 1) (s\<lparr>mem := m'\<rparr>)"
      and two: "uwrite m1 pt (PGROUNDDOWN va + PGSIZE) (unat (len - chunk va len)) (\<lambda>i. src (i + ?c)) m'"
      by auto
    have "umapped m1 pt (PGROUNDDOWN va + PGSIZE) (unat (len - chunk va len)) = umapped ?m pt va (unat len)"
      using pa by (simp add: umapped_split [OF len]) (simp add: umapped_def uaddr_cong [OF x1])
    with m' step uwrite_append [OF "1.prems" len one two] show ?thesis by (intro exI [of _ m']) simp
  qed
qed

section \<open>A user page to read and write\<close>

lemma digits_zero:
  assumes "n < 512 * 512 * 512" "n div 512 ^ 2 mod 512 = 0" "n div 512 ^ 1 mod 512 = 0" "n div 512 ^ 0 mod 512 = 0"
  shows "n = (0 :: nat)"
proof -
  have "n div 512 div 512 < 512"
    using assms(1) by (intro less_mult_imp_div_less) simp
  moreover have "n div 512 div 512 mod 512 = 0"
    using assms(2) by (simp add: div_mult2_eq [symmetric])
  ultimately have "n div 512 div 512 = 0" by simp
  moreover have "n div 512 mod 512 = 0" "n mod 512 = 0" using assms(3,4) by simp_all
  ultimately have "n div 512 = 0" by (metis add.right_neutral mult_div_mod_eq mult_zero_right)
  with \<open>n mod 512 = 0\<close> show ?thesis by (metis add.right_neutral mult_div_mod_eq mult_zero_right)
qed

lemma small_xlate: "xlate small_mem 0x87ffe000 va = (if vpn va = 0 then 0x87ffb000 else 0)"
proof (cases "MAXVA \<le> va")
  case True
  then have "vpn va \<noteq> 0" by (simp add: vpn_def word_le_nat_alt)
  with True show ?thesis by (simp add: xlate_def)
next
  case False
  then have "vpn va < 512 * 512 * 512" by (simp add: vpn_def not_le word_less_nat_alt)
  then have "vpn va = 0 \<longleftrightarrow> px 2 va = 0 \<and> px 1 va = 0 \<and> px 0 va = 0"
  proof (intro iffI)
    assume "px 2 va = 0 \<and> px 1 va = 0 \<and> px 0 va = 0"
    with \<open>vpn va < _\<close> show "vpn va = 0" unfolding px_vpn by (elim conjE) (rule digits_zero)
  qed (simp add: px_vpn)
  with False show ?thesis
    by (simp add: xlate_def small_lookup small_pte)
qed

lemma small_uspace: "uspace small_mem 0x87ffe000"
  by (auto simp: uspace_def small_twf small_xlate small_tset pg_def)

lemma small_umapped: "umapped small_mem 0x87ffe000 0x10 3"
proof -
  have "vpn (PGROUNDDOWN (0x10 + of_nat i)) = 0" if "i < 3" for i
  proof -
    have "PGROUNDDOWN (0x10 + of_nat i) = PGROUNDDOWN 0x10"
      by (rule same_page(1)) (use that in \<open>simp add: unat_offset\<close>)
    then show ?thesis by (simp only: vpn_PGROUNDDOWN) (simp add: vpn_def)
  qed
  then show ?thesis by (simp add: umapped_def uaddr_def Let_def small_xlate)
qed

text \<open>C18: \<open>copyin\<close> never panics and changes no state. It returns 0 exactly when every
  address of the range is mapped for the user, and then the array holds the bytes that user memory
  holds there; otherwise it returns -1. It never writes the array beyond \<open>len\<close> bytes.\<close>

theorem copyin_correct:
  assumes "twf 2 (mem s) pt"
  shows "\<exists>d. copyin pt dst va len s = Ok (if umapped (mem s) pt va (unat len) then 0 else - 1, d) s
    \<and> (umapped (mem s) pt va (unat len) \<longrightarrow> (\<forall>k < unat len. ubyte (mem s) pt (va + of_nat k) = Some (d k)))
    \<and> (\<forall>j \<ge> unat len. d j = dst j)"
  using copyin_from_Ok [OF assms, of dst 0 va len] by (simp add: copyin_def)

theorem copyin_correct_witness:
  "\<exists>d. copyin 0x87ffe000 (\<lambda>_. 0) 0x10 3 small_space = Ok (0, d) small_space \<and> d 7 = 0"
  using copyin_correct [of small_space "0x87ffe000" "\<lambda>_. 0" "0x10" 3] small_twf small_umapped
  by (auto simp: small_space_def)

text \<open>C19: \<open>copyout\<close> never panics and changes nothing but memory. It returns 0 exactly when every
  address of the range is mapped for the user, and -1 otherwise. Every byte that it changes
  belongs to the user range that it was given, so neither the kernel, nor a page table, nor another
  page of the process is touched; the address space stays the same; and on success user memory
  holds the bytes of the source, which a following \<open>copyin\<close> of the range reads back.\<close>

theorem copyout_correct:
  assumes "uspace (mem s) pt"
  shows "\<exists>m' d. copyout pt va src len s = Ok (if umapped (mem s) pt va (unat len) then 0 else - 1) (s\<lparr>mem := m'\<rparr>)
    \<and> xlate m' pt = xlate (mem s) pt \<and> uspace m' pt
    \<and> (\<forall>x. m' x \<noteq> mem s x \<longrightarrow> (\<exists>k < unat len. uaddr (mem s) pt (va + of_nat k) = Some x))
    \<and> (umapped (mem s) pt va (unat len) \<longrightarrow>
        copyin pt dst va len (s\<lparr>mem := m'\<rparr>) = Ok (0, d) (s\<lparr>mem := m'\<rparr>)
        \<and> (\<forall>k < unat len. ubyte m' pt (va + of_nat k) = Some (src k) \<and> d k = src k))"
proof -
  obtain m' where m': "copyout pt va src len s = Ok (if umapped (mem s) pt va (unat len) then 0 else - 1) (s\<lparr>mem := m'\<rparr>)"
    and w: "uwrite (mem s) pt va (unat len) src m'"
    using copyout_Ok [OF assms] by blast
  then have us: "uspace m' pt" and x: "xlate m' pt = xlate (mem s) pt" by (simp_all add: uwrite_def)
  have tw: "twf 2 (mem (s\<lparr>mem := m'\<rparr>)) pt" using us by (simp add: uspace_def)
  have um: "umapped m' pt va (unat len) = umapped (mem s) pt va (unat len)"
    by (simp add: umapped_def uaddr_cong [OF x])
  obtain d where "copyin pt dst va len (s\<lparr>mem := m'\<rparr>) =
      Ok (if umapped (mem s) pt va (unat len) then 0 else - 1, d) (s\<lparr>mem := m'\<rparr>)"
    "umapped (mem s) pt va (unat len) \<longrightarrow> (\<forall>k < unat len. ubyte m' pt (va + of_nat k) = Some (d k))"
    using copyin_from_Ok [OF tw, of dst 0 va len] um by (auto simp: copyin_def)
  then show ?thesis
    using m' w unfolding uwrite_def by (intro exI [of _ m'] exI [of _ d]) simp
qed

theorem copyout_correct_witness:
  "\<exists>m'. copyout 0x87ffe000 0x10 (\<lambda>i. of_nat i + 7) 3 small_space = Ok 0 (small_space\<lparr>mem := m'\<rparr>)
     \<and> ubyte m' 0x87ffe000 0x12 = Some 9"
proof -
  obtain m' where "copyout 0x87ffe000 0x10 (\<lambda>i. of_nat i + 7) 3 small_space = Ok 0 (small_space\<lparr>mem := m'\<rparr>)"
    and "\<forall>k < 3. ubyte m' 0x87ffe000 (0x10 + of_nat k) = Some (of_nat k + 7)"
    using copyout_correct [of small_space "0x87ffe000" "0x10" "\<lambda>i. of_nat i + 7" 3 "\<lambda>_. 0"] small_uspace small_umapped
    by (auto simp: small_space_def)
  from this(1) this(2) [rule_format, of 2] show ?thesis by auto
qed

end
