(* ===== verification/Inodes.thy ===== *)
theory Inodes
  imports Blocks Usermem
begin

text \<open>
  Inodes, file contents and path names: reading and writing inodes through the cache, the block
  map, \<open>readi\<close> against the bytes of the file, and the splitting of path names.
\<close>

section \<open>Inodes through the cache\<close>

lemma bread_data:
  assumes "txn p k V R s" "R bn = Some (b, d)"
  shows "b_data (bufs s b) = d" "quiet p s"
proof -
  obtain G where c: "bcache (log_dev (logst s)) p (\<lambda>_. 0) G R s" using txn_obtain [OF assms(1)] by metis
  show "b_data (bufs s b) = d" "quiet p s" using bcache_held(4,8) [OF c assms(2)] by simp_all
qed

lemma iupdate_rt:
  assumes t: "txn p (Suc k) V Map.empty s" and x: "inodes s ip = x" "i_dev x = log_dev (logst s)"
    and ib: "IBLOCK (i_inum x) (sb s) \<notin> log_area (logst s)" "unat (IBLOCK (i_inum x) (sb s)) < 2 ^ 31"
    and Q: "\<And>s'. txn p k (V(IBLOCK (i_inum x) (sb s) := put_dinode (unat (i_inum x) mod IPB) (dinode_of x) (V (IBLOCK (i_inum x) (sb s))))) Map.empty s'
      \<Longrightarrow> fskeep p s s' \<Longrightarrow> Q () s'"
  shows "rt (disk_env p) (iupdate ip) Q s"
proof -
  let ?ib = "IBLOCK (i_inum x) (sb s)" and ?f = "put_dinode (unat (i_inum x) mod IPB) (dinode_of x)"
  have ok: "blk_ok (?f (V ?ib))" using t by (intro put_dinode_ok) (simp_all add: txn_def)
  show ?thesis
    unfolding iupdate_def rt_bind rt_gets rt_seq x(1)
  proof (rule txn_bread [OF t _ _ ib(2) x(2)], goal_cases)
    case s1: (3 bp s1)
    have i1: "inodes s1 ip = x" using fskeepD(1) [OF s1(2)] x(1) by simp
    show ?case
      unfolding i1
    proof (rule txn_set_data [where bn = ?ib and d = "V ?ib", OF s1(1)], goal_cases)
      case s2: (2 s2)
      have t2: "txn p (Suc k) V [?ib \<mapsto> (bp, ?f (V ?ib))] s2" using s2(1) by simp
      show ?case
      proof (rule txn_log_write [where bn = ?ib, OF t2 _ _ ib(2) ok], goal_cases)
        case s3: (3 s3)
        show ?case
        proof (rule txn_brelse [where bn = ?ib, OF s3(1)], goal_cases)
          case s4: (2 s4)
          then have "txn p k (V(?ib := ?f (V ?ib))) Map.empty s4" by simp
          moreover have "fskeep p s s4" using s1(2) s2(2) s3(2) s4(2) by (blast intro: fskeep_trans)
          ultimately show ?case by (rule Q)
        qed simp
      qed (use ib s1(3) s2(3) in simp_all)
    qed simp
  qed simp_all
qed

section \<open>The block map\<close>

text \<open>The number of block \<open>n\<close> of the file of inode \<open>x\<close>, 0 when it has none, and the bytes of the file.\<close>

definition faddr :: "(u32 \<Rightarrow> block) \<Rightarrow> inode \<Rightarrow> nat \<Rightarrow> u32" where
  "faddr V x n = (if n < NDIRECT then i_addrs x n else bld 4 (V (i_addrs x NDIRECT)) (4 * (n - NDIRECT)))"

definition fbyte :: "(u32 \<Rightarrow> block) \<Rightarrow> inode \<Rightarrow> nat \<Rightarrow> byte" where
  "fbyte V x i = V (faddr V x (i div BSIZE)) (i mod BSIZE)"

definition allocated :: "(u32 \<Rightarrow> block) \<Rightarrow> inode \<Rightarrow> nat \<Rightarrow> bool" where
  "allocated V x n \<longleftrightarrow> n < MAXFILE \<and> faddr V x n \<noteq> 0 \<and> unat (faddr V x n) < 2 ^ 31
     \<and> (NDIRECT \<le> n \<longrightarrow> i_addrs x NDIRECT \<noteq> 0 \<and> unat (i_addrs x NDIRECT) < 2 ^ 31)"

lemma rt_cong: "m s = m' s \<Longrightarrow> rt R m Q s = rt R m' Q s"
  by (simp add: rt_def)

lemma bmap_rt:
  assumes t: "txn p k V Map.empty s" and x: "inodes s ip = x" "i_dev x = log_dev (logst s)" and a: "allocated V x (unat bn)"
    and Q: "\<And>s'. txn p k V Map.empty s' \<Longrightarrow> fskeep p s s' \<Longrightarrow> logst s' = logst s \<Longrightarrow> Q (faddr V x (unat bn)) s'"
  shows "rt (disk_env p) (bmap ip bn) Q s"
proof (cases "unat bn < NDIRECT")
  case True
  then have "bn < of_nat NDIRECT" by (simp add: word_less_nat_alt)
  moreover have "i_addrs x (unat bn) \<noteq> 0" using a True by (simp add: allocated_def faddr_def)
  ultimately show ?thesis using Q [OF t] x(1) True by (simp add: bmap_def addr_or_alloc_def faddr_def)
next
  case False
  let ?n = "unat bn - NDIRECT" and ?ia = "i_addrs x NDIRECT"
  have sub: "unat (bn - of_nat NDIRECT) = ?n" using False by (subst unat_sub) (simp_all add: word_le_nat_alt)
  have n: "?n < NINDIRECT" using a False unfolding allocated_def by linarith
  have lt: "\<not> bn < of_nat NDIRECT" "bn - of_nat NDIRECT < of_nat NINDIRECT"
    using False n sub by (simp_all add: word_less_nat_alt)
  have ia: "?ia \<noteq> 0" "unat ?ia < 2 ^ 31" and ad: "bld 4 (V ?ia) (4 * ?n) \<noteq> (0 :: u32)"
    using a False by (simp_all add: allocated_def faddr_def)
  have e: "(i_addrs x NDIRECT = 0) = False" using ia by simp
  let ?m = "bind (bread (i_dev x) ?ia) (\<lambda>bp.
        bind (gets (\<lambda>s. bld 4 (b_data (bufs s bp)) (4 * ?n) :: u32)) (\<lambda>a.
        bind (if a = 0 then
                bind (balloc (i_dev x)) (\<lambda>a.
                seq (set_data bp (bst 4 (4 * ?n) a)) (
                seq (log_write bp)
                (return a)))
              else return a) (\<lambda>addr.
        seq (brelse bp)
        (return addr))))"
  have "bmap ip bn s = ?m s"
    using lt e sub by (simp add: bmap_def addr_or_alloc_def x(1) Let_def cong: if_cong)
  note body = rt_cong [where m = "bmap ip bn" and m' = ?m and s = s, OF this]
  show ?thesis
    unfolding body rt_bind
  proof (rule txn_bread [OF t _ _ ia(2) x(2)], goal_cases)
    case s1: (3 bp s1)
    have d: "b_data (bufs s1 bp) = V ?ia" by (rule bread_data(1) [OF s1(1)]) simp
    have "rt (disk_env p) (brelse bp) (\<lambda>_. Q (faddr V x (unat bn))) s1"
      by (rule txn_brelse [where bn = ?ia, OF s1(1)]) (use Q s1 fskeep_trans [OF s1(2)] in simp_all)
    then show ?case using ad False by (simp add: d faddr_def)
  qed simp_all
qed

section \<open>Reading a file\<close>

lemma txn_touch:
  assumes "txn p k V R s"
  shows "txn p k V R (s\<lparr>lks := lk_touch (lks s)\<rparr>)"
proof -
  obtain G where c: "bcache (log_dev (logst s)) p (\<lambda>_. 0) G R s" "dom G = set (home (logst s))" "V = val G (dblocks s)"
    using txn_obtain [OF assms] by metis
  have "quiet p (s\<lparr>lks := lk_touch (lks s)\<rparr>)" using c(1) quiet_upd(1) by (simp add: bcache_def)
  then have "bcache (log_dev (logst s)) p (\<lambda>_. 0) G R (s\<lparr>lks := lk_touch (lks s)\<rparr>)" using c(1) by (simp add: bcache_def)
  then show ?thesis using assms c(2,3) by (intro txn_cache [OF assms]) (auto simp: txn_def wrote_def)
qed

lemma io_chunk_props:
  assumes "tot < n" "unat off + (unat n - unat tot) < 2 ^ 32"
  defines "m \<equiv> io_chunk n tot off"
  shows "0 < unat m" "unat tot + unat m \<le> unat n" "unat (tot + m) = unat tot + unat m" "unat (off + m) = unat off + unat m"
    "unat (off mod of_nat BSIZE) = unat off mod BSIZE" "unat off mod BSIZE + unat m \<le> BSIZE" "unat (off div of_nat BSIZE) = unat off div BSIZE"
proof -
  have tn: "unat tot < unat n" using assms(1) by (simp add: word_less_nat_alt)
  have d: "unat (n - tot) = unat n - unat tot" using assms(1) by (subst unat_sub) (simp_all add: word_le_nat_alt tn less_imp_le)
  show md: "unat (off mod of_nat BSIZE) = unat off mod BSIZE" by (simp add: unat_mod)
  show "unat (off div of_nat BSIZE) = unat off div BSIZE" by (simp add: unat_div)
  have lt: "unat off mod BSIZE < BSIZE" by simp
  then have e: "unat (of_nat BSIZE - off mod of_nat BSIZE :: u32) = BSIZE - unat off mod BSIZE"
    using md by (subst unat_sub) (simp_all add: word_le_nat_alt)
  have m: "unat m = min (unat n - unat tot) (BSIZE - unat off mod BSIZE)"
    using d e by (simp add: m_def io_chunk_def min_def word_le_nat_alt)
  show "0 < unat m" using m tn lt by simp
  show a: "unat tot + unat m \<le> unat n" using m tn by linarith
  show "unat off mod BSIZE + unat m \<le> BSIZE" using m lt by linarith
  have "unat n < 2 ^ 32" using unsigned_less [of n] by simp
  then show "unat (tot + m) = unat tot + unat m" using a by (subst unat_add_lem [THEN iffD1]) simp_all
  have "unat off + unat m < 2 ^ 32" using assms(2) m by linarith
  then show "unat (off + m) = unat off + unat m" by (subst unat_add_lem [THEN iffD1]) simp_all
qed

text \<open>The part of the file that a read of \<open>n\<close> bytes at \<open>off\<close> touches has its blocks.\<close>

definition has_blocks :: "(u32 \<Rightarrow> block) \<Rightarrow> inode \<Rightarrow> nat \<Rightarrow> nat \<Rightarrow> bool" where
  "has_blocks V x off n \<longleftrightarrow> (\<forall>i < n. allocated V x ((off + i) div BSIZE))"

section \<open>Destinations of a read\<close>

text \<open>\<open>delivered pt f dst m n dst' m'\<close>: the first \<open>n\<close> bytes of \<open>f\<close> are at the destination \<open>dst\<close>, and
  nothing else of memory changed from \<open>m\<close> to \<open>m'\<close>. A user destination is an address in the address
  space of the page table \<open>pt\<close>, all of whose bytes have to be mapped.\<close>

fun delivered :: "u64 \<Rightarrow> (nat \<Rightarrow> byte) \<Rightarrow> ioptr \<Rightarrow> memory \<Rightarrow> nat \<Rightarrow> ioptr \<Rightarrow> memory \<Rightarrow> bool" where
  "delivered pt f (KernObj d) m n dst' m' \<longleftrightarrow> dst' = KernObj (\<lambda>i. if i < n then f i else d i) \<and> m' = m"
| "delivered pt f (KernVA a) m n dst' m' \<longleftrightarrow> dst' = KernVA a \<and> m' = blit a n f m"
| "delivered pt f (UserVA a) m n dst' m' \<longleftrightarrow> dst' = UserVA a \<and> uwrite m pt a n f m'"

fun writable :: "u64 \<Rightarrow> memory \<Rightarrow> nat \<Rightarrow> ioptr \<Rightarrow> bool" where
  "writable pt m n (UserVA a) \<longleftrightarrow> uspace m pt \<and> umapped m pt a n"
| "writable pt m n _ \<longleftrightarrow> True"

lemma delivered_0: "writable pt m n dst \<Longrightarrow> delivered pt f dst m 0 dst m"
  by (cases dst) (simp_all add: blit_def uwrite_def)

lemma blit_app:
  assumes "i + j < 2 ^ 64"
  shows "blit (a + of_nat i) j (\<lambda>k. f (i + k)) (blit a i f m) = blit a (i + j) f m"
proof
  fix x :: u64
  have i: "unat (of_nat i :: u64) = i" using assms by (simp add: unat_of_nat)
  have d: "unat (x - (a + of_nat i)) = (if i \<le> unat (x - a) then unat (x - a) - i else unat (x - a) + 2 ^ 64 - i)"
    unfolding diff_diff_add [symmetric] using unat_sub_if' [of "x - a" "of_nat i"] i by simp
  show "blit (a + of_nat i) j (\<lambda>k. f (i + k)) (blit a i f m) x = blit a (i + j) f m x"
    unfolding blit_def d using assms by auto
qed

lemma copy_to_delivered:
  assumes q: "quiet p s" and pt: "pagetable (procs s p) = pt" and w: "writable pt m0 N dst0"
    and d: "delivered pt f dst0 m0 (unat tot) dst (mem s)" and n: "unat tot + unat m \<le> N"
    and src: "\<And>i. i < unat m \<Longrightarrow> src i = f (unat tot + i)"
  shows "\<exists>dst' m'. copy_to dst tot src m s = Ok (0, dst') (s\<lparr>mem := m', lks := lk_touch (lks s)\<rparr>)
    \<and> delivered pt f dst0 m0 (unat tot + unat m) dst' m'"
proof -
  have lt: "unat tot < 2 ^ 32" "unat m < 2 ^ 32" using unsigned_less [of tot, where ?'a = nat] unsigned_less [of m, where ?'a = nat] by simp_all
  then have b: "unat tot + unat m < 2 ^ 64" by simp
  have my: "myproc s = Ok (Some p) (s\<lparr>lks := lk_touch (lks s)\<rparr>)"
    using myproc_Ok [of s] quietD [OF q] by simp
  have ca: "(ucast tot :: u64) = of_nat (unat tot)" by simp
  have cc: "(ucast (ucast m :: u64) :: u32) = m" by (rule bit_word_eqI) (simp add: bit_simps)
  show ?thesis
  proof (cases dst0)
    case (KernObj d0)
    have "s\<lparr>lks := lk_touch (lks s)\<rparr> = s\<lparr>mem := m0, lks := lk_touch (lks s)\<rparr>"
      using d KernObj by (intro kstate.equality) simp_all
    then show ?thesis using KernObj d src my
      by (intro exI [of _ "KernObj (\<lambda>i. if i < unat tot + unat m then f i else d0 i)"] exI [of _ m0]) (auto simp: fun_eq_iff)
  next
    case (KernVA a)
    have "blit (a + of_nat (unat tot)) (unat m) src (blit a (unat tot) f m0) = blit a (unat tot + unat m) f m0"
      unfolding blit_app [OF b, symmetric] by (auto simp: blit_def src fun_eq_iff)
    then show ?thesis using d KernVA my by (simp add: either_copyout_def ca cc del: of_nat_unat)
  next
    case (UserVA a)
    let ?va = "a + of_nat (unat tot)"
    have u: "uspace m0 pt" "umapped m0 pt a N" and w1: "uwrite m0 pt a (unat tot) f (mem s)" and dst: "dst = UserVA a"
      using w d UserVA by simp_all
    have us: "uspace (mem s) pt" and x: "xlate (mem s) pt = xlate m0 pt" using w1 by (simp_all add: uwrite_def)
    have um: "umapped (mem s) pt ?va (unat m)"
      unfolding umapped_def uaddr_cong [OF x]
    proof (intro allI impI)
      fix i assume "i < unat m"
      then have "unat tot + i < N" using n by linarith
      from u(2) [unfolded umapped_def, rule_format, OF this]
      show "uaddr m0 pt (?va + of_nat i) \<noteq> None" by (simp only: of_nat_add add.assoc not_False_eq_True)
    qed
    obtain m' where m': "copyout pt ?va src (ucast m) (s\<lparr>lks := lk_touch (lks s)\<rparr>) = Ok 0 (s\<lparr>lks := lk_touch (lks s), mem := m'\<rparr>)"
      "uwrite (mem s) pt ?va (unat m) src m'"
      using copyout_Ok [of "s\<lparr>lks := lk_touch (lks s)\<rparr>" pt ?va src "ucast m"] us um by auto
    have "uwrite (mem s) pt ?va (unat m) (\<lambda>i. f (unat tot + i)) m'" using m'(2) src by (simp add: uwrite_def)
    from uwrite_app [OF u(1) b w1 this] show ?thesis
      using m'(1) UserVA dst my pt
      by (intro exI [of _ "UserVA a"] exI [of _ m']) (simp add: either_copyout_def deref_def ca del: of_nat_unat)
  qed
qed


lemma txn_mem [simp]: "txn p k V R (s\<lparr>mem := m\<rparr>) = txn p k V R s"
proof -
  have "bcache dv p E G R (s\<lparr>mem := m\<rparr>) = bcache dv p E G R s" for dv E G R
    by (simp add: bcache_def quiet_def idle_thread_def)
  then show ?thesis by (simp add: txn_def)
qed

text \<open>Nothing but memory, the cache and the locks changes.\<close>

definition rdkeep :: "nat \<Rightarrow> kstate \<Rightarrow> kstate \<Rightarrow> bool" where
  "rdkeep p s s' \<longleftrightarrow> fskeep p (s\<lparr>mem := mem s'\<rparr>) s' \<and> logst s' = logst s"

lemma rest_mem: "rest p (s\<lparr>mem := m\<rparr>) = (rest p s)\<lparr>mem := m\<rparr>"
  by (rule kstate.equality) (simp_all add: rest_def)

lemma rdkeep_trans: "rdkeep p s s' \<Longrightarrow> rdkeep p s' s'' \<Longrightarrow> rdkeep p s s''"
  using arg_cong [of "rest p s'" "rest p (s\<lparr>mem := mem s'\<rparr>)" "\<lambda>x. x\<lparr>mem := mem s''\<rparr>"]
  by (simp add: rdkeep_def fskeep_def rest_mem)

lemma rdkeepI: "fskeep p s s' \<Longrightarrow> logst s' = logst s \<Longrightarrow> rdkeep p s s'"
  using fskeepD(6) [of p s s'] by (simp add: rdkeep_def)

lemma rdkeep_copy: "rdkeep p s (s\<lparr>mem := m, lks := l\<rparr>)"
  by (simp add: rdkeep_def fskeep_def)

lemma rdkeepD: "rdkeep p s s' \<Longrightarrow> inodes s' = inodes s \<and> logst s' = logst s \<and> procs s' p = procs s p"
  using fskeepD(1,5) [of p "s\<lparr>mem := mem s'\<rparr>" s'] by (simp add: rdkeep_def)

lemma readi_from_delivers:
  assumes t: "txn p k V Map.empty s" and x: "inodes s ip = x" "i_dev x = log_dev (logst s)" and pt: "pagetable (procs s p) = pt"
    and f: "unat n - unat tot \<le> f" and le: "tot \<le> n" and off: "unat off = off0 + unat tot"
    and del: "delivered pt (\<lambda>i. fbyte V x (off0 + i)) dst0 m0 (unat tot) dst (mem s)"
    and wrap: "off0 + unat n < 2 ^ 32" and blk: "has_blocks V x off0 (unat n)" and wr: "writable pt m0 (unat n) dst0"
    and Q: "\<And>dst' s'. txn p k V Map.empty s' \<Longrightarrow> rdkeep p s s' \<Longrightarrow>
      delivered pt (\<lambda>i. fbyte V x (off0 + i)) dst0 m0 (unat n) dst' (mem s') \<Longrightarrow> Q (n, dst') s'"
  shows "rt (disk_env p) (readi_from f ip dst off n tot) Q s"
  using t x pt f le off del Q
proof (induction f arbitrary: dst off tot s)
  case 0
  have "tot = n" using "0.prems"(5,6) by (simp add: word_le_nat_alt word_unat_eq_iff)
  then show ?case using "0.prems"(9) [OF "0.prems"(1) rdkeepI] "0.prems"(8) by simp
next
  case (Suc f dst off tot s)
  show ?case
  proof (cases "tot < n")
    case False
    then have "tot = n" using Suc.prems(6) by simp
    then show ?thesis using Suc.prems(9) [OF Suc.prems(1) rdkeepI] Suc.prems(8) by simp
  next
    case True
    define m where "m = io_chunk n tot off"
    have tn: "unat tot < unat n" using True by (simp add: word_less_nat_alt)
    have w: "unat off + (unat n - unat tot) < 2 ^ 32" using Suc.prems(7) wrap tn by linarith
    note c = io_chunk_props [OF True w, folded m_def]
    let ?a = "faddr V x (unat off div BSIZE)"
    have al: "allocated V x (unat (off div of_nat BSIZE))"
      using blk tn Suc.prems(7) unfolding has_blocks_def c(7) by auto
    have a31: "unat ?a < 2 ^ 31" using al unfolding c(7) allocated_def by blast
    have step: "V ?a (unat off mod BSIZE + i) = fbyte V x (off0 + (unat tot + i))" if "i < unat m" for i
    proof -
      have oi: "off0 + (unat tot + i) = unat off div BSIZE * BSIZE + (unat off mod BSIZE + i)"
        using Suc.prems(7) div_mult_mod_eq [of "unat off" BSIZE] by linarith
      have lt: "unat off mod BSIZE + i < BSIZE" using that c(6) by linarith
      have "(off0 + (unat tot + i)) div BSIZE = unat off div BSIZE" "(off0 + (unat tot + i)) mod BSIZE = unat off mod BSIZE + i"
        unfolding oi using lt by (simp_all only: div_mult_self3 mod_mult_self3 div_less mod_less add_0_right zero_neq_numeral not_False_eq_True)
      then show ?thesis by (simp add: fbyte_def)
    qed
    have IH: "rt (disk_env p) (readi_from f ip dst' (off + m) n (tot + m)) Q s'"
      if t': "txn p k V Map.empty s'" and k': "rdkeep p s s'"
        and d': "delivered pt (\<lambda>i. fbyte V x (off0 + i)) dst0 m0 (unat tot + unat m) dst' (mem s')" for dst' s'
    proof (rule Suc.IH [OF t'])
      show "inodes s' ip = x" "i_dev x = log_dev (logst s')" "pagetable (procs s' p) = pt" using Suc.prems(2-4) rdkeepD [OF k'] by simp_all
      show "unat n - unat (tot + m) \<le> f" using Suc.prems(5) c(1,3) by linarith
      show "tot + m \<le> n" using c(2,3) by (simp add: word_le_nat_alt)
      show "unat (off + m) = off0 + unat (tot + m)" using c(3,4) Suc.prems(7) by simp
      show "delivered pt (\<lambda>i. fbyte V x (off0 + i)) dst0 m0 (unat (tot + m)) dst' (mem s')" using d' unfolding c(3) .
    qed (use Suc.prems(9) rdkeep_trans [OF k'] in blast)
    show ?thesis
      unfolding readi_from.simps(2) if_P [OF True] rt_bind
    proof (rule bmap_rt [OF Suc.prems(1-3) al], goal_cases)
      case s1: (1 s1)
      have d1: "i_dev x = log_dev (logst s1)" and i1: "inodes s1 ip = x" using s1(3) Suc.prems(2,3) fskeepD(1) [OF s1(2)] by simp_all
      show ?case
        unfolding rt_gets i1 c(7)
      proof (rule txn_bread [OF s1(1) _ _ a31 d1], goal_cases)
        case s2: (3 bp s2)
        have bd: "b_data (bufs s2 bp) = V ?a" and q: "quiet p s2" by (rule bread_data [where bn = ?a, OF s2(1)], simp)+
        have k2: "rdkeep p s s2" using rdkeepI [OF fskeep_trans [OF s1(2) s2(2)]] s1(3) s2(3) by simp
        have m2: "mem s2 = mem s" "procs s2 p = procs s p" using fskeepD(5,6) [OF fskeep_trans [OF s1(2) s2(2)]] by simp_all
        obtain dst' m' where cp: "copy_to dst tot (\<lambda>i. V ?a (unat off mod BSIZE + i)) m s2 = Ok (0, dst') (s2\<lparr>mem := m', lks := lk_touch (lks s2)\<rparr>)"
          and dl: "delivered pt (\<lambda>i. fbyte V x (off0 + i)) dst0 m0 (unat tot + unat m) dst' m'"
          using copy_to_delivered [where f = "\<lambda>i. fbyte V x (off0 + i)" and src = "\<lambda>i. V ?a (unat off mod BSIZE + i)" and dst = dst, OF q _ wr _ c(2) step]
            Suc.prems(4,8) m2 by auto
        let ?s3 = "s2\<lparr>mem := m', lks := lk_touch (lks s2)\<rparr>"
        have t3: "txn p k V [?a \<mapsto> (bp, V ?a)] ?s3" using txn_touch [of p k V _ "s2\<lparr>mem := m'\<rparr>"] s2(1) by simp
        have k3: "rdkeep p s ?s3" using rdkeep_trans [OF k2 rdkeep_copy] .
        have "rt (disk_env p) (brelse bp) (\<lambda>_. rt (disk_env p) (readi_from f ip dst' (off + m) n (tot + m)) Q) ?s3"
        proof (rule txn_brelse [where bn = ?a, OF t3], goal_cases)
          case (2 s4)
          show ?case
            by (rule IH) (use 2 rdkeep_trans [OF k3 rdkeepI [OF 2(2,3)]] fskeepD(6) [OF 2(2)] dl in simp_all)
        qed simp
        then show ?case
          unfolding Let_def rt_bind rt_gets bd m_def [symmetric] c(5) rt_Ok [where m = "copy_to _ _ _ _", OF cp]
          by simp
      qed simp_all
    qed
  qed
qed


definition read_count :: "inode \<Rightarrow> nat \<Rightarrow> nat \<Rightarrow> nat" where
  "read_count x off n = (if unat (i_size x) < off \<or> 2 ^ 32 \<le> off + n then 0 else min n (unat (i_size x) - off))"

text \<open>C33: \<open>readi\<close> reads the bytes of the file, for each of the three kinds of destination: a user address, a kernel
  address, and a variable of the kernel. For a file whose blocks are allocated in the range that is
  read, and a destination that is mapped when it is a user address, it delivers the bytes
  from \<open>off\<close> on, at most \<open>n\<close> of them and none beyond the size of the file, as the direct and indirect block
  addresses and the running transaction define them, and returns their number; no other byte of the
  destination or of memory changes. An offset beyond the size, or one for which \<open>off + n\<close> overflows, yields 0
  bytes. No block, inode or log entry changes.\<close>

theorem readi_correct:
  assumes "txn p k V Map.empty s" "inodes s ip = x" "i_dev x = log_dev (logst s)"
    and "has_blocks V x (unat off) (read_count x (unat off) (unat n))"
    and "writable (pagetable (procs s p)) (mem s) (read_count x (unat off) (unat n)) dst"
  shows "rt (disk_env p) (readi ip dst off n) (\<lambda>(r, dst') s'.
      unat r = read_count x (unat off) (unat n)
      \<and> delivered (pagetable (procs s p)) (\<lambda>i. fbyte V x (unat off + i)) dst (mem s) (read_count x (unat off) (unat n)) dst' (mem s')
      \<and> txn p k V Map.empty s' \<and> fskeep p (s\<lparr>mem := mem s'\<rparr>) s' \<and> logst s' = logst s) s"
proof -
  let ?c = "read_count x (unat off) (unat n)"
  have lt: "unat n < 2 ^ 32" using unsigned_less [of n] by simp
  have "unat (off + n) = (if unat off + unat n < 2 ^ 32 then unat off + unat n else unat off + unat n - 2 ^ 32)"
    using unat_plus_if' [of off n] by simp
  then have wrap: "off + n < off \<longleftrightarrow> 2 ^ 32 \<le> unat off + unat n"
    using lt by (simp add: word_less_nat_alt) linarith
  show ?thesis
  proof (cases "i_size x < off \<or> off + n < off")
    case True
    then have "?c = 0" using wrap by (auto simp: read_count_def word_less_nat_alt)
    then show ?thesis using True assms(1,2) delivered_0 [OF assms(5)] by (simp add: readi_def)
  next
    case False
    let ?n = "if i_size x < off + n then i_size x - off else n"
    have fits: "unat off + unat n < 2 ^ 32" "unat off \<le> unat (i_size x)" using False wrap by (auto simp: word_less_nat_alt)
    then have add: "unat (off + n) = unat off + unat n" by (subst unat_add_lem [THEN iffD1]) simp_all
    have sub: "unat (i_size x - off) = unat (i_size x) - unat off" using fits(2) by (subst unat_sub) (simp_all add: word_le_nat_alt)
    have n: "unat ?n = ?c"
      using fits by (auto simp: read_count_def word_less_nat_alt add sub min_def)
    have "rt (disk_env p) (readi_from (unat ?n) ip dst off ?n 0) (\<lambda>(r, dst') s'.
      unat r = ?c \<and> delivered (pagetable (procs s p)) (\<lambda>i. fbyte V x (unat off + i)) dst (mem s) ?c dst' (mem s')
      \<and> txn p k V Map.empty s' \<and> fskeep p (s\<lparr>mem := mem s'\<rparr>) s' \<and> logst s' = logst s) s"
    proof (rule readi_from_delivers [where ?off0.0 = "unat off" and ?dst0.0 = dst and ?m0.0 = "mem s", OF assms(1-3) refl], goal_cases)
      case 4
      then show ?case using delivered_0 [OF assms(5)] by simp
    next
      case 5
      then show ?case using fits n by (simp add: read_count_def)
    next
      case (8 dst' s')
      then show ?case using n unfolding rdkeep_def by simp
    qed (use assms(4,5) in \<open>simp_all add: n\<close>)
    then show ?thesis using False assms(2) by (cases "i_size x < off + n") (simp_all add: readi_def Let_def)
  qed
qed


definition file_ready :: kstate where
  "file_ready = fs_ready\<lparr>inodes := (inodes fs_ready)(0 := (inodes fs_ready 0)\<lparr>i_dev := 1, i_inum := 5, i_ref := 1, i_valid := True,
     i_type := 2, i_size := 100, i_addrs := (\<lambda>_. 45)\<rparr>)\<rparr>"

lemma txn_inodes: "txn p k V R (s\<lparr>inodes := I\<rparr>) = txn p k V R s"
proof -
  have "bcache dv p E G R (s\<lparr>inodes := I\<rparr>) = bcache dv p E G R s" for dv E G R
    by (simp add: bcache_def quiet_def idle_thread_def)
  then show ?thesis by (simp add: txn_def)
qed

definition user_ready :: kstate where
  "user_ready = file_ready\<lparr>mem := small_mem, procs := (procs file_ready)(0 := (procs file_ready 0)\<lparr>pagetable := 0x87ffe000\<rparr>)\<rparr>"

lemma txn_pagetable: "txn p k V R (s\<lparr>procs := (procs s)(p := (procs s p)\<lparr>pagetable := pt\<rparr>)\<rparr>) = txn p k V R s"
proof -
  have "bcache dv p E G R (s\<lparr>procs := (procs s)(p := (procs s p)\<lparr>pagetable := pt\<rparr>)\<rparr>) = bcache dv p E G R s" for dv E G R
    by (simp add: bcache_def quiet_def idle_thread_def)
  then show ?thesis by (simp add: txn_def)
qed

theorem readi_correct_witness:
  "rt (disk_env 0) (readi 0 (UserVA 0x10) 4 3) (\<lambda>(r, dst) s'. unat r = 3
     \<and> map (\<lambda>i. ubyte (mem s') 0x87ffe000 (0x10 + of_nat i)) [0..<3] = [Some 255, Some 255, Some 0]) user_ready"
proof -
  let ?x = "inodes user_ready 0"
  have t: "txn 0 0 fs_disk Map.empty user_ready"
    using txn_fs_ready [of 0] txn_pagetable [of 0 0 fs_disk Map.empty "file_ready\<lparr>mem := small_mem\<rparr>" "0x87ffe000"]
    by (simp add: user_ready_def) (simp add: file_ready_def txn_inodes)
  have x: "i_dev ?x = 1" "i_size ?x = 100" "i_addrs ?x = (\<lambda>_. 45)" by (simp_all add: user_ready_def file_ready_def)
  have dv: "i_dev ?x = log_dev (logst user_ready)" by (simp add: x fs_ready_logst user_ready_def file_ready_def)
  have c: "read_count ?x (unat (4 :: u32)) (unat (3 :: u32)) = 3" by (simp add: read_count_def x)
  have fa: "faddr fs_disk ?x 0 = 45" by (simp add: faddr_def x)
  have "allocated fs_disk ?x 0" by (simp add: allocated_def fa)
  then have h: "has_blocks fs_disk ?x (unat (4 :: u32)) (read_count ?x (unat (4 :: u32)) (unat (3 :: u32)))"
    unfolding c by (simp add: has_blocks_def)
  have b: "fbyte fs_disk ?x i = (if i < 6 then 255 else 0)" if "i < 1024" for i
  proof -
    have "fs_disk 45 = (\<lambda>i. if i < 6 then 255 else 0)" by (simp add: fs_disk_def)
    then show ?thesis using that by (simp add: fbyte_def fa)
  qed
  have m: "mem user_ready = small_mem" "pagetable (procs user_ready 0) = 0x87ffe000" by (simp_all add: user_ready_def)
  have w: "writable (pagetable (procs user_ready 0)) (mem user_ready) (read_count ?x (unat (4 :: u32)) (unat (3 :: u32))) (UserVA 0x10)"
    unfolding c by (simp add: m small_uspace small_umapped)
  show ?thesis
  proof (rule rt_mono [OF readi_correct [OF t refl dv h w, unfolded c m]], goal_cases)
    case (1 a s')
    obtain r dst where a: "a = (r, dst)" by (cases a)
    have u: "uwrite small_mem 0x87ffe000 0x10 3 (\<lambda>i. fbyte fs_disk ?x (4 + i)) (mem s')" "unat r = 3" using 1 by (simp_all add: a)
    then have k: "ubyte (mem s') 0x87ffe000 (0x10 + of_nat k) = Some (fbyte fs_disk ?x (4 + k))" if "k < 3" for k
      using small_umapped that by (simp add: uwrite_def)
    show ?case using u(2) k [of 0] k [of 1] k [of 2] by (simp add: a b upt_rec)
  qed
qed

text \<open>C32: An inode survives the trip to the disk. \<open>iupdate\<close> writes the in-memory inode into its place in its
  inode block and leaves the other fifteen inodes of that block and all other blocks as they are; what
  \<open>ilock\<close> loads from there into any cache entry has the type, device numbers, link count, size and all 13 block
  addresses of the inode that was written.\<close>

theorem iupdate_roundtrip:
  assumes "txn p (Suc k) V Map.empty s" "inodes s ip = x" "i_dev x = log_dev (logst s)"
    and "IBLOCK (i_inum x) (sb s) \<notin> log_area (logst s)" "unat (IBLOCK (i_inum x) (sb s)) < 2 ^ 31"
  shows "rt (disk_env p) (iupdate ip) (\<lambda>_ s'. fskeep p s s' \<and> (\<exists>V'. txn p k V' Map.empty s'
     \<and> (\<forall>b. b \<noteq> IBLOCK (i_inum x) (sb s) \<longrightarrow> V' b = V b)
     \<and> (\<forall>j. j \<noteq> unat (i_inum x) mod IPB \<longrightarrow> get_dinode (V' (IBLOCK (i_inum x) (sb s))) j = get_dinode (V (IBLOCK (i_inum x) (sb s))) j)
     \<and> (\<forall>y. let z = load_dinode (get_dinode (V' (IBLOCK (i_inum x) (sb s))) (unat (i_inum x) mod IPB)) y in
          i_type z = i_type x \<and> i_major z = i_major x \<and> i_minor z = i_minor x \<and> i_nlink z = i_nlink x \<and> i_size z = i_size x
          \<and> (\<forall>i < NDIRECT + 1. i_addrs z i = i_addrs x i)))) s"
proof (rule iupdate_rt [OF assms], goal_cases)
  case (1 s')
  let ?ib = "IBLOCK (i_inum x) (sb s)" and ?k = "unat (i_inum x) mod IPB"
  let ?V = "V(?ib := put_dinode ?k (dinode_of x) (V ?ib))"
  have g: "get_dinode (?V ?ib) ?k = (dinode_of x)\<lparr>di_addrs := \<lambda>i. if i < NDIRECT + 1 then i_addrs x i else 0\<rparr>"
    using put_dinode_get [of ?k "dinode_of x" "V ?ib"] by (simp add: dinode_of_def cong: if_cong)
  have o: "get_dinode (?V ?ib) j = get_dinode (V ?ib) j" if "j \<noteq> ?k" for j using put_dinode_other [OF that] by simp
  have l: "let z = load_dinode (get_dinode (?V ?ib) ?k) y in
          i_type z = i_type x \<and> i_major z = i_major x \<and> i_minor z = i_minor x \<and> i_nlink z = i_nlink x \<and> i_size z = i_size x
          \<and> (\<forall>i < NDIRECT + 1. i_addrs z i = i_addrs x i)" for y
    unfolding g by (simp add: load_dinode_def dinode_of_def)
  show ?case
    by (intro conjI exI [of _ ?V] 1 allI impI o l) simp_all
qed

theorem iupdate_roundtrip_witness:
  "rt (disk_env 0) (iupdate 0) (\<lambda>_ s'. \<exists>V'. txn 0 3 V' Map.empty s' \<and> di_size (get_dinode (V' 32) 5) = 100) file_ready"
proof -
  let ?x = "inodes file_ready 0"
  have t: "txn 0 (Suc 3) fs_disk Map.empty file_ready" using txn_fs_ready [of 4] by (simp add: file_ready_def txn_inodes)
  have x: "i_dev ?x = 1" "i_inum ?x = 5" "i_size ?x = 100" by (simp_all add: file_ready_def)
  have dv: "i_dev ?x = log_dev (logst file_ready)" by (simp add: x fs_ready_logst file_ready_def)
  have ib: "IBLOCK (i_inum ?x) (sb file_ready) = 32" by (simp add: IBLOCK_def x file_ready_def fs_ready_def fs_super_def)
  have st: "log_start (logst file_ready) = 2" by (simp add: file_ready_def fs_ready_logst)
  have a: "IBLOCK (i_inum ?x) (sb file_ready) \<notin> log_area (logst file_ready)" "unat (IBLOCK (i_inum ?x) (sb file_ready)) < 2 ^ 31"
    unfolding ib by (simp_all add: log_area_def st)
  show ?thesis
  proof (rule rt_mono [OF iupdate_roundtrip [OF t refl dv a, unfolded ib]], elim conjE exE, goal_cases)
    case (1 _ s' V')
    from 1(5) have "i_size (load_dinode (get_dinode (V' 32) 5) ?x) = 100" by (simp add: x Let_def)
    then show ?case using 1(2) by (auto simp: load_dinode_def)
  qed
qed

section \<open>Path names\<close>

text \<open>The elements of a path by definition: the maximal runs of characters other than the slash. An
  element of \<open>DIRSIZ\<close> characters or more is cut to \<open>DIRSIZ\<close>.\<close>

fun elements :: "byte list \<Rightarrow> byte list \<Rightarrow> byte list list" where
  "elements acc [] = (if acc = [] then [] else [acc])"
| "elements acc (c # cs) = (if c = slash then (if acc = [] then elements [] cs else acc # elements [] cs) else elements (acc @ [c]) cs)"

definition name_of :: "(nat \<Rightarrow> byte) \<Rightarrow> byte list" where
  "name_of nm = takeWhile (\<lambda>c. c \<noteq> 0) (map nm [0..<DIRSIZ])"

text \<open>All elements that repeated calls of \<open>skipelem\<close> deliver; every call consumes a character.\<close>

function walk_path :: "byte list \<Rightarrow> (nat \<Rightarrow> byte) \<Rightarrow> byte list list" where
  "walk_path path nm = (case skipelem path nm of None \<Rightarrow> [] | Some (path', nm') \<Rightarrow> name_of nm' # walk_path path' nm')"
  by pat_completeness auto
termination
proof (relation "measure (\<lambda>(path, nm). length path)", goal_cases)
  case (2 path nm a path' nm')
  let ?p = "dropWhile (\<lambda>c. c = slash) path"
  have p: "?p \<noteq> []" "path' = dropWhile (\<lambda>c. c = slash) (dropWhile (\<lambda>c. c \<noteq> slash) ?p)"
    using 2 by (auto simp: skipelem_def Let_def split: if_splits)
  have "hd ?p \<noteq> slash" using hd_dropWhile [OF p(1)] .
  then have "length (dropWhile (\<lambda>c. c \<noteq> slash) ?p) < length ?p"
    using p(1) by (cases ?p) (simp_all add: le_imp_less_Suc length_dropWhile_le)
  then have "length path' < length ?p" unfolding p(2) using length_dropWhile_le le_less_trans by blast
  then show ?case using length_dropWhile_le [of "\<lambda>c. c = slash" path] by simp
qed simp

declare walk_path.simps [simp del]

lemma elements_slashes: "elements [] (dropWhile (\<lambda>c. c = slash) path) = elements [] path"
  by (induction path) simp_all

lemma elements_acc:
  "acc \<noteq> [] \<Longrightarrow> elements acc path = (acc @ takeWhile (\<lambda>c. c \<noteq> slash) path) # elements [] (dropWhile (\<lambda>c. c \<noteq> slash) path)"
proof (induction path arbitrary: acc)
  case (Cons c cs)
  show ?case
  proof (cases "c = slash")
    case False
    then show ?thesis using Cons.IH [of "acc @ [c]"] by simp
  qed (use Cons.prems in simp)
qed simp

lemma elements_step:
  assumes "path \<noteq> []" "hd path \<noteq> slash"
  shows "elements [] path = takeWhile (\<lambda>c. c \<noteq> slash) path # elements [] (dropWhile (\<lambda>c. c \<noteq> slash) path)"
  using assms elements_acc [of "[hd path]" "tl path"] by (cases path) simp_all

lemma name_of_elem:
  assumes "0 \<notin> set e"
  shows "name_of (if DIRSIZ \<le> length e then (\<lambda>i. if i < DIRSIZ then e ! i else nm i)
      else (\<lambda>i. if i < length e then e ! i else if i = length e then 0 else nm i)) = take DIRSIZ e"
proof (cases "DIRSIZ \<le> length e")
  case True
  have "map (\<lambda>i. if i < DIRSIZ then e ! i else nm i) [0..<DIRSIZ] = take DIRSIZ e"
    using True by (intro nth_equalityI) simp_all
  moreover have "takeWhile (\<lambda>c. c \<noteq> 0) (take DIRSIZ e) = take DIRSIZ e"
    using assms by (auto simp: takeWhile_eq_all_conv dest: in_set_takeD)
  ultimately show ?thesis using True by (simp add: name_of_def)
next
  case False
  let ?f = "\<lambda>i. if i < length e then e ! i else if i = length e then 0 else nm i"
  have up: "[0..<DIRSIZ] = [0..<length e] @ length e # [Suc (length e)..<DIRSIZ]"
    using False upt_add_eq_append [of 0 "length e" "DIRSIZ - length e"] by (simp add: upt_conv_Cons)
  have "map ?f [0..<length e] = e" by (rule nth_equalityI) simp_all
  then have "map ?f [0..<DIRSIZ] = e @ 0 # map ?f [Suc (length e)..<DIRSIZ]" unfolding up by simp
  moreover have "takeWhile (\<lambda>c. c \<noteq> 0) (e @ 0 # ys) = e" for ys using assms by (induction e) auto
  ultimately have "name_of ?f = e" by (simp add: name_of_def)
  then show ?thesis using False by simp
qed

text \<open>C34: Path names are split as the definition of a path element says: the names that successive
  calls of \<open>skipelem\<close> deliver for \<open>namex\<close> are exactly the maximal runs of characters other than the slash, in
  order, each cut to \<open>DIRSIZ\<close> characters, however many slashes separate, precede or follow them.\<close>

theorem skipelem_elements:
  assumes "0 \<notin> set path"
  shows "walk_path path nm = map (take DIRSIZ) (elements [] path)"
  using assms
proof (induction path nm rule: walk_path.induct)
  case (1 path nm)
  define p where "p = dropWhile (\<lambda>c. c = slash) path"
  show ?case
  proof (cases "p = []")
    case True
    then have "skipelem path nm = None" "elements [] path = []"
      using elements_slashes [of path, folded p_def] unfolding skipelem_def Let_def p_def [symmetric] by simp_all
    then show ?thesis by (simp add: walk_path.simps)
  next
    case False
    define e where "e = takeWhile (\<lambda>c. c \<noteq> slash) p"
    define q where "q = dropWhile (\<lambda>c. c = slash) (dropWhile (\<lambda>c. c \<noteq> slash) p)"
    define nm' where "nm' = (if DIRSIZ \<le> length e then (\<lambda>i. if i < DIRSIZ then e ! i else nm i)
      else (\<lambda>i. if i < length e then e ! i else if i = length e then 0 else nm i))"
    have sk: "skipelem path nm = Some (q, nm')"
      using False by (simp add: skipelem_def Let_def p_def [symmetric] e_def [symmetric] q_def [symmetric] nm'_def)
    have sub: "set e \<subseteq> set path" "set q \<subseteq> set path"
      unfolding e_def q_def p_def by (blast dest: set_dropWhileD set_takeWhileD)+
    then have z: "0 \<notin> set e" "0 \<notin> set q" using "1.prems" by blast+
    have "hd p \<noteq> slash" using hd_dropWhile [of "\<lambda>c. c = slash" path] False by (simp add: p_def)
    then have "elements [] path = e # elements [] q"
      using elements_step [OF False] elements_slashes [of path] elements_slashes [of "dropWhile (\<lambda>c. c \<noteq> slash) p"]
      by (simp add: e_def q_def p_def)
    moreover have "walk_path path nm = name_of nm' # walk_path q nm'" by (simp add: walk_path.simps [of path] sk)
    moreover have "name_of nm' = take DIRSIZ e" unfolding nm'_def by (rule name_of_elem [OF z(1)])
    ultimately show ?thesis using "1.IH" [OF sk refl z(2)] by simp
  qed
qed

theorem skipelem_elements_witness: "walk_path [47, 47, 97, 47, 47, 98, 98, 47] (\<lambda>_. 9) = [[97], [98, 98]]"
  using skipelem_elements [of "[47, 47, 97, 47, 47, 98, 98, 47]" "\<lambda>_. 9"] by simp

end
