(* ===== verification/Ring.thy ===== *)
theory Ring
  imports Types
begin

text \<open>
  The queue contract behind the kernel's ring buffers.  The uart transmit buffer, the pipe
  buffer and the console input buffer each put bytes at one index of a circular array and
  take them from another; the contract says that such a buffer is a bounded first-in
  first-out queue, and the lemmas here are proved once from it.
\<close>

locale fifo =
  fixes put :: "byte \<Rightarrow> 'r \<Rightarrow> 'r" and get :: "'r \<Rightarrow> byte \<times> 'r"
    and is_full :: "'r \<Rightarrow> bool" and is_empty :: "'r \<Rightarrow> bool"
    and contents :: "'r \<Rightarrow> byte list" and inv :: "'r \<Rightarrow> bool" and cap :: nat
  assumes put_law: "inv r \<Longrightarrow> \<not> is_full r \<Longrightarrow> inv (put b r) \<and> contents (put b r) = contents r @ [b]"
    and get_law: "inv r \<Longrightarrow> \<not> is_empty r \<Longrightarrow>
      inv (snd (get r)) \<and> contents r = fst (get r) # contents (snd (get r))"
    and empty_law: "inv r \<Longrightarrow> is_empty r \<longleftrightarrow> contents r = []"
    and full_law: "inv r \<Longrightarrow> is_full r \<longleftrightarrow> length (contents r) = cap"
    and cap_law: "inv r \<Longrightarrow> length (contents r) \<le> cap"
begin

lemma put_all:
  assumes "inv r" "length (contents r) + length bs \<le> cap"
  shows "inv (fold put bs r) \<and> contents (fold put bs r) = contents r @ bs"
  using assms
proof (induction bs arbitrary: r)
  case Nil
  then show ?case by simp
next
  case (Cons b bs)
  then have "\<not> is_full r"
    using full_law by auto
  then have "inv (put b r)" "contents (put b r) = contents r @ [b]"
    using Cons.prems(1) put_law by auto
  then show ?case
    using Cons.IH [of "put b r"] Cons.prems(2) by simp
qed

text \<open>Taking out what was put in gives the bytes back in order.\<close>

lemma get_all:
  assumes "inv r" "n \<le> length (contents r)"
  shows "\<exists>r'. inv r' \<and> contents r' = drop n (contents r)
     \<and> ((\<lambda>(bs, r). let (b, r) = get r in (bs @ [b], r)) ^^ n) (as, r) = (as @ take n (contents r), r')"
  using assms
proof (induction n arbitrary: r as)
  case 0
  then show ?case by auto
next
  case (Suc n)
  then have "\<not> is_empty r"
    using empty_law by fastforce
  then have g: "inv (snd (get r))" "contents r = fst (get r) # contents (snd (get r))"
    using Suc.prems(1) get_law by auto
  let ?f = "\<lambda>(bs, r). let (b, r) = get r in (bs @ [b], r)"
  obtain r' where r': "inv r'" "contents r' = drop n (contents (snd (get r)))"
    "(?f ^^ n) (as @ [fst (get r)], snd (get r)) =
       ((as @ [fst (get r)]) @ take n (contents (snd (get r))), r')"
    using Suc.IH [OF g(1), of "as @ [fst (get r)]"] Suc.prems(2) g(2)
    by (metis Suc_le_mono length_Cons)
  have "(?f ^^ Suc n) (as, r) = (?f ^^ n) (as @ [fst (get r)], snd (get r))"
    by (simp add: funpow_Suc_right case_prod_beta Let_def del: funpow.simps)
  with r' g(2) show ?case
    by (metis append.assoc append_Cons append_Nil drop_Suc_Cons take_Suc_Cons)
qed

end

text \<open>The circular array shared by the buffers: \<open>n\<close> bytes from index \<open>r\<close> on, modulo the size.\<close>

definition ring_list :: "(nat \<Rightarrow> byte) \<Rightarrow> nat \<Rightarrow> nat \<Rightarrow> nat \<Rightarrow> byte list" where
  "ring_list buf sz r n = map (\<lambda>i. buf ((r + i) mod sz)) [0..<n]"

lemma length_ring_list [simp]: "length (ring_list buf sz r n) = n"
  by (simp add: ring_list_def)

lemma ring_list_0 [simp]: "ring_list buf sz r 0 = []"
  by (simp add: ring_list_def)

lemma ring_list_Suc: "ring_list buf sz r (Suc n) = buf (r mod sz) # ring_list buf sz (Suc r) n"
  by (simp add: ring_list_def map_upt_Suc del: upt_Suc)

lemma ring_list_put:
  assumes "n < sz"
  shows "ring_list (buf((r + n) mod sz := b)) sz r (Suc n) = ring_list buf sz r n @ [b]"
proof -
  have "(r + i) mod sz \<noteq> (r + n) mod sz" if "i < n" for i
  proof
    assume "(r + i) mod sz = (r + n) mod sz"
    then have "(n - i) mod sz = 0"
      using that by (metis (no_types, lifting) add_diff_cancel_left le_add1 add_left_mono
          less_or_eq_imp_le mod_eq_dvd_iff_nat dvd_imp_mod_0)
    then show False
      using that assms by (simp add: mod_eq_0_iff_dvd nat_dvd_not_less)
  qed
  then show ?thesis
    by (simp add: ring_list_def)
qed

lemma ring_list_mod: "ring_list buf sz (r mod sz) n = ring_list buf sz r n"
  by (simp add: ring_list_def mod_add_left_eq)

end
