(* ===== verification/Pipe.thy ===== *)
theory Pipe
  imports Sched Ring Usermem
begin

text \<open>
  \<open>kernel/pipe.c\<close>.  A \<open>struct pipe\<close> lives in a page from \<open>kalloc\<close>; \<open>pipes\<close> holds it under the
  address of that page.  \<open>nread\<close> and \<open>nwrite\<close> are unsigned counters that run freely and wrap;
  the buffer is indexed by them modulo \<open>PIPESIZE\<close>.
\<close>

section \<open>Definitions\<close>

definition upd_pipe :: "u64 \<Rightarrow> (pipe \<Rightarrow> pipe) \<Rightarrow> unit k" where
  "upd_pipe a f = modify (\<lambda>s. s\<lparr>pipes := (pipes s)(a := f (pipes s a))\<rparr>)"

definition pipe_full :: "pipe \<Rightarrow> bool" where
  "pipe_full p \<longleftrightarrow> nwrite p = nread p + PIPESIZE"

definition pipe_empty :: "pipe \<Rightarrow> bool" where
  "pipe_empty p \<longleftrightarrow> nread p = nwrite p"

definition pipe_put :: "byte \<Rightarrow> pipe \<Rightarrow> pipe" where
  "pipe_put ch p = p\<lparr>pi_data := (pi_data p)(unat (nwrite p mod PIPESIZE) := ch), nwrite := nwrite p + 1\<rparr>"

definition pipe_get :: "pipe \<Rightarrow> byte \<times> pipe" where
  "pipe_get p = (pi_data p (unat (nread p mod PIPESIZE)), p\<lparr>nread := nread p + 1\<rparr>)"

definition pipeclose :: "u64 \<Rightarrow> bool \<Rightarrow> unit k" where
  "pipeclose a writable =
     seq (acquire (LPipe a)) (
     seq (if writable
          then seq (upd_pipe a (\<lambda>p. p\<lparr>writeopen := False\<rparr>)) (wakeup (ChPipeRead a))
          else seq (upd_pipe a (\<lambda>p. p\<lparr>readopen := False\<rparr>)) (wakeup (ChPipeWrite a))) (
     bind (gets (\<lambda>s. \<not> readopen (pipes s a) \<and> \<not> writeopen (pipes s a))) (\<lambda>dead.
     if dead then seq (release (LPipe a)) (kfree a)
     else release (LPipe a))))"

text \<open>Waiting for room: the result says that the write has to fail, the lock being released.\<close>

fun pipewrite_wait :: "nat \<Rightarrow> u64 \<Rightarrow> nat \<Rightarrow> bool k" where
  "pipewrite_wait n a pr =
     bind (gets (\<lambda>s. pipe_full (pipes s a))) (\<lambda>f.
     if \<not> f then return False
     else bind (gets (\<lambda>s. \<not> readopen (pipes s a) \<or> killed (procs s pr))) (\<lambda>die.
       if die then seq (release (LPipe a)) (return True)
       else
         seq (wakeup (ChPipeRead a)) (case n of
             0 \<Rightarrow> spin
           | Suc n' \<Rightarrow> seq (sleep (ChPipeWrite a) (LPipe a)) (pipewrite_wait n' a pr))))"

declare pipewrite_wait.simps [simp del]

text \<open>The loop over \<open>i\<close>: \<open>None\<close> when the write failed while waiting.\<close>

fun pipewrite_from :: "u64 \<Rightarrow> u64 \<Rightarrow> nat \<Rightarrow> nat \<Rightarrow> nat \<Rightarrow> int option k" where
  "pipewrite_from a addr pr i 0 = return (Some (int i))"
| "pipewrite_from a addr pr i (Suc m) =
     bind (gets wake_bound) (\<lambda>wb.
     bind (pipewrite_wait wb a pr) (\<lambda>die.
     if die then return None
     else
       bind (gets (\<lambda>s. pagetable (procs s pr))) (\<lambda>pt.
       bind (copyin pt (\<lambda>_. 0) (addr + of_nat i) 1) (\<lambda>(r, c).
       if r = - 1 then return (Some (int i))
       else seq (upd_pipe a (pipe_put (c 0))) (pipewrite_from a addr pr (Suc i) m)))))"

definition pipewrite :: "u64 \<Rightarrow> u64 \<Rightarrow> int \<Rightarrow> int k" where
  "pipewrite a addr n =
     bind curproc (\<lambda>pr.
     seq (acquire (LPipe a)) (
     bind (pipewrite_from a addr pr 0 (nat n)) (\<lambda>r. case r of
       None \<Rightarrow> return (- 1)
     | Some i \<Rightarrow>
         seq (wakeup (ChPipeRead a)) (
         seq (release (LPipe a))
         (return i)))))"

fun piperead_wait :: "nat \<Rightarrow> u64 \<Rightarrow> nat \<Rightarrow> bool k" where
  "piperead_wait n a pr =
     bind (gets (\<lambda>s. pipe_empty (pipes s a) \<and> writeopen (pipes s a))) (\<lambda>e.
     if \<not> e then return False
     else bind (gets (\<lambda>s. killed (procs s pr))) (\<lambda>kd.
       if kd then seq (release (LPipe a)) (return True)
       else (case n of
             0 \<Rightarrow> spin
           | Suc n' \<Rightarrow> seq (sleep (ChPipeRead a) (LPipe a)) (piperead_wait n' a pr))))"

declare piperead_wait.simps [simp del]

fun piperead_from :: "u64 \<Rightarrow> u64 \<Rightarrow> nat \<Rightarrow> nat \<Rightarrow> nat \<Rightarrow> int k" where
  "piperead_from a addr pr i 0 = return (int i)"
| "piperead_from a addr pr i (Suc m) =
     bind (gets (\<lambda>s. pipes s a)) (\<lambda>p.
     if pipe_empty p then return (int i)
     else
       seq (upd_pipe a (\<lambda>p. snd (pipe_get p))) (
       bind (gets (\<lambda>s. pagetable (procs s pr))) (\<lambda>pt.
       bind (copyout pt (addr + of_nat i) (\<lambda>_. fst (pipe_get p)) 1) (\<lambda>r.
       if r = - 1 then return (int i) else piperead_from a addr pr (Suc i) m))))"

definition piperead :: "u64 \<Rightarrow> u64 \<Rightarrow> int \<Rightarrow> int k" where
  "piperead a addr n =
     bind curproc (\<lambda>pr.
     seq (acquire (LPipe a)) (
     bind (gets wake_bound) (\<lambda>wb.
     bind (piperead_wait wb a pr) (\<lambda>kd.
     if kd then return (- 1)
     else
       bind (piperead_from a addr pr 0 (nat n)) (\<lambda>i.
       seq (wakeup (ChPipeWrite a)) (
       seq (release (LPipe a))
       (return i)))))))"

section \<open>The pipe buffer is a queue\<close>

definition pipe_inv :: "pipe \<Rightarrow> bool" where
  "pipe_inv p \<longleftrightarrow> unat (nwrite p - nread p) \<le> 512"

definition pipe_bytes :: "pipe \<Rightarrow> byte list" where
  "pipe_bytes p = ring_list (pi_data p) 512 (unat (nread p)) (unat (nwrite p - nread p))"

lemma unat_plus_mod_512: "unat (a + b :: u32) mod 512 = (unat a + unat b) mod 512"
  by (simp add: unat_word_ariths mod_mod_cancel)

lemma pipe_put_law:
  assumes "pipe_inv p" "\<not> pipe_full p"
  shows "pipe_inv (pipe_put b p) \<and> pipe_bytes (pipe_put b p) = pipe_bytes p @ [b]"
proof -
  define d where "d = nwrite p - nread p"
  have w: "nwrite p = nread p + d" by (simp add: d_def)
  have "d \<noteq> 512" using assms(2) by (simp add: pipe_full_def w)
  then have "unat d \<noteq> 512" by (simp add: word_unat_eq_iff)
  moreover have "unat d \<le> 512" using assms(1) by (simp add: pipe_inv_def d_def)
  ultimately have lt: "unat d < 512" by simp
  then have s: "unat (1 + d) = Suc (unat d)"
    by (subst unat_add_lem [THEN iffD1]) simp_all
  have i: "unat (nwrite p mod 512) = (unat (nread p) + unat d) mod 512"
    by (simp add: w unat_mod unat_plus_mod_512)
  have "unat (nwrite p + 1 - nread p) = Suc (unat d)" unfolding s [symmetric] by (simp add: w add.commute)
  then show ?thesis
    using lt s i ring_list_put [OF lt, of "pi_data p" "unat (nread p)" b]
    by (simp add: pipe_inv_def pipe_bytes_def pipe_put_def flip: d_def)
qed

lemma pipe_get_law:
  assumes "pipe_inv p" "\<not> pipe_empty p"
  shows "pipe_inv (snd (pipe_get p)) \<and> pipe_bytes p = fst (pipe_get p) # pipe_bytes (snd (pipe_get p))"
proof -
  define d where "d = nwrite p - nread p"
  have w: "nwrite p = nread p + d" by (simp add: d_def)
  have "d \<noteq> 0" using assms(2) by (simp add: pipe_empty_def w)
  then have "0 < unat d" by (simp add: unat_gt_0)
  then have s: "unat d = Suc (unat (d - 1))" by (subst unat_sub) (simp_all add: word_le_nat_alt)
  have "ring_list (pi_data p) 512 (unat (nread p + 1)) n = ring_list (pi_data p) 512 (Suc (unat (nread p))) n" for n
    using ring_list_mod [of "pi_data p" 512 "unat (nread p + 1)" n] ring_list_mod [of "pi_data p" 512 "Suc (unat (nread p))" n]
    by (simp only: unat_plus_mod_512) simp
  moreover have "unat (nwrite p - (nread p + 1)) = unat (d - 1)" by (simp add: w)
  ultimately show ?thesis
    using assms(1) s by (simp add: pipe_inv_def pipe_bytes_def pipe_get_def ring_list_Suc unat_mod flip: d_def)
qed

interpretation pq: fifo pipe_put pipe_get pipe_full pipe_empty pipe_bytes pipe_inv 512
proof unfold_locales
  fix p :: pipe assume "pipe_inv p"
  show "pipe_empty p \<longleftrightarrow> pipe_bytes p = []"
    by (auto simp: pipe_empty_def pipe_bytes_def ring_list_def unat_eq_0)
  have "nwrite p = nread p + 512 \<longleftrightarrow> nwrite p - nread p = 512" by (auto simp: algebra_simps)
  then show "pipe_full p \<longleftrightarrow> length (pipe_bytes p) = 512"
    by (simp add: pipe_full_def pipe_bytes_def word_unat_eq_iff)
  show "length (pipe_bytes p) \<le> 512"
    using \<open>pipe_inv p\<close> by (simp add: pipe_bytes_def pipe_inv_def)
qed (use pipe_put_law pipe_get_law in blast)+

section \<open>Writing\<close>



lemma copyin_byte:
  assumes "twf 2 (mem s) pt"
  shows "\<exists>d. copyin pt dst va 1 s = Ok (if ubyte (mem s) pt va = None then - 1 else 0, d) s
    \<and> (\<forall>b. ubyte (mem s) pt va = Some b \<longrightarrow> d 0 = b)"
proof -
  have "umapped (mem s) pt va (unat (1 :: u64)) \<longleftrightarrow> ubyte (mem s) pt va \<noteq> None"
    by (simp add: umapped_def ubyte_def)
  then show ?thesis
    using copyin_from_Ok [OF assms, of dst 0 va 1] by (auto simp: copyin_def)
qed




section \<open>Reading\<close>

lemma uwrite_umapped: "uwrite m pt va n src m' \<Longrightarrow> umapped m' pt va' k = umapped m pt va' k"
  by (simp add: uwrite_def umapped_def uaddr_cong [of m' pt m])

lemma uwrite_src_cong:
  assumes "uwrite m pt va n f m'" "\<And>i. i < n \<Longrightarrow> f i = g i"
  shows "uwrite m pt va n g m'"
  using assms by (simp add: uwrite_def)

lemma piperead_from_Ok:
  assumes "uspace (mem s) (pagetable (procs s pr))" "pipe_inv (pipes s a)" "n < 2 ^ 63"
    and "umapped (mem s) (pagetable (procs s pr)) (addr + of_nat i) n"
  shows "\<exists>m' p'. piperead_from a addr pr i n s =
      Ok (int (i + min n (length (pipe_bytes (pipes s a))))) (s\<lparr>pipes := (pipes s)(a := p'), mem := m'\<rparr>)
    \<and> p'\<lparr>nread := nread (pipes s a)\<rparr> = pipes s a \<and> pipe_inv p' \<and> pipe_bytes p' = drop n (pipe_bytes (pipes s a))
    \<and> uwrite (mem s) (pagetable (procs s pr)) (addr + of_nat i) (min n (length (pipe_bytes (pipes s a))))
        (\<lambda>j. pipe_bytes (pipes s a) ! j) m'"
  using assms
proof (induction n arbitrary: i s)
  case 0
  then show ?case
    by (intro exI [of _ "mem s"] exI [of _ "pipes s a"]) (simp add: uwrite_def)
next
  case (Suc n)
  let ?pt = "pagetable (procs s pr)" and ?va = "addr + of_nat i" and ?p = "pipes s a"
  show ?case
  proof (cases "pipe_empty ?p")
    case True
    then show ?thesis
      using pq.empty_law [OF Suc.prems(2)] Suc.prems(1,2)
      by (intro exI [of _ "mem s"] exI [of _ ?p]) (simp add: uwrite_def)
  next
    case False
    define b p1 where "b = fst (pipe_get ?p)" and "p1 = snd (pipe_get ?p)"
    have g: "pipe_inv p1" "pipe_bytes ?p = b # pipe_bytes p1" and p1: "p1\<lparr>nread := nread ?p\<rparr> = ?p"
      using pipe_get_law [OF Suc.prems(2) False] by (simp_all add: b_def p1_def pipe_get_def)
    have va: "addr + of_nat (Suc i) = ?va + 1" by simp
    have um: "umapped (mem s) ?pt ?va 1" "umapped (mem s) ?pt (?va + 1) n"
      using Suc.prems(4) umapped_app [of "mem s" ?pt ?va 1 n] by simp_all
    let ?s1 = "s\<lparr>pipes := (pipes s)(a := p1)\<rparr>"
    obtain m1 where m1: "copyout ?pt ?va (\<lambda>_. b) 1 ?s1 = Ok 0 (?s1\<lparr>mem := m1\<rparr>)"
      and w1: "uwrite (mem s) ?pt ?va 1 (\<lambda>_. b) m1"
      using copyout_Ok [of ?s1 ?pt ?va "\<lambda>_. b" 1] Suc.prems(1) um(1) by auto
    let ?s2 = "?s1\<lparr>mem := m1\<rparr>" and ?k = "min n (length (pipe_bytes p1))"
    have u1: "uspace m1 ?pt" using w1 by (simp add: uwrite_def)
    obtain m' p' where r: "piperead_from a addr pr (Suc i) n ?s2 = Ok (int (Suc i + ?k)) (s\<lparr>pipes := (pipes s)(a := p'), mem := m'\<rparr>)"
      and p': "p'\<lparr>nread := nread p1\<rparr> = p1" "pipe_inv p'" "pipe_bytes p' = drop n (pipe_bytes p1)"
      and w2: "uwrite m1 ?pt (?va + 1) ?k (\<lambda>j. pipe_bytes p1 ! j) m'"
      using Suc.IH [of ?s2 "Suc i"] Suc.prems(3) u1 g(1) um(2) uwrite_umapped [OF w1]
      unfolding va by (auto simp: fun_upd_def cong: if_cong)
    have "uwrite (mem s) ?pt ?va (1 + ?k) (\<lambda>j. pipe_bytes ?p ! j) m'"
    proof (rule uwrite_app [OF Suc.prems(1)])
      show "1 + ?k < 2 ^ 64" using Suc.prems(3) by (simp add: min_def)
    qed (use w1 w2 g(2) in \<open>auto elim: uwrite_src_cong\<close>)
    moreover have "piperead_from a addr pr i (Suc n) s = Ok (int (Suc i + ?k)) (s\<lparr>pipes := (pipes s)(a := p'), mem := m'\<rparr>)"
      using False m1 r by (simp add: upd_pipe_def flip: b_def p1_def)
    moreover have "p'\<lparr>nread := nread ?p\<rparr> = ?p" using p'(1) p1 by (metis pipe.surjective pipe.update_convs(2))
    ultimately show ?thesis
      using p' g(2) by (intro exI [of _ m'] exI [of _ p']) (simp add: min_Suc_Suc fun_upd_def)
  qed
qed


text \<open>C21: \<open>piperead\<close> refines taking bytes from the queue. When the pipe holds data or its
  write end is closed, and the user range is mapped, a read of at most \<open>n\<close> bytes returns
  \<open>min n\<close> of the number of bytes queued (0, the end of the file, for an empty pipe that nobody
  can write). The bytes are the oldest ones, delivered in order to the user range and to no other
  byte of memory, and they leave the queue; writers that sleep are woken.\<close>

theorem piperead_correct:
  assumes "idle_thread pr s" "uspace (mem s) (pagetable (procs s pr))" "pipe_inv (pipes s a)" "nat n < 2 ^ 63"
    and "umapped (mem s) (pagetable (procs s pr)) addr (nat n)"
    and "pipe_bytes (pipes s a) \<noteq> [] \<or> writeopen (pipes s a) = False"
  shows "\<exists>m' p'. piperead a addr n s = Ok (int (min (nat n) (length (pipe_bytes (pipes s a)))))
      (woken (ChPipeWrite a) (s\<lparr>pipes := (pipes s)(a := p'), mem := m'\<rparr>))
    \<and> pipe_inv p' \<and> pipe_bytes p' = drop (nat n) (pipe_bytes (pipes s a))
    \<and> p'\<lparr>nread := nread (pipes s a)\<rparr> = pipes s a
    \<and> uwrite (mem s) (pagetable (procs s pr)) addr (min (nat n) (length (pipe_bytes (pipes s a))))
        (\<lambda>j. pipe_bytes (pipes s a) ! j) m'"
proof -
  have l: "lk_ok (lks s)" "cpu_proc (curcpu (lks s)) = Some pr" "\<And>L. \<not> locked (spinl (lks s) L)"
    using assms(1) by (simp_all add: idle_thread_def)
  let ?l = "lk_acq (LPipe a) (lk_touch (lks s))" and ?k = "min (nat n) (length (pipe_bytes (pipes s a)))"
  have acq: "acquire (LPipe a) (s\<lparr>lks := lk_touch (lks s)\<rparr>) = Ok () (s\<lparr>lks := ?l\<rparr>)"
    using l by (simp add: acquire_can)
  have wt: "piperead_wait (wake_bound s) a pr (s\<lparr>lks := ?l\<rparr>) = Ok False (s\<lparr>lks := ?l\<rparr>)"
    using assms(6) pq.empty_law [OF assms(3)] by (subst piperead_wait.simps) auto
  obtain m' p' where r: "piperead_from a addr pr 0 (nat n) (s\<lparr>lks := ?l\<rparr>) =
      Ok (int ?k) (s\<lparr>lks := ?l, pipes := (pipes s)(a := p'), mem := m'\<rparr>)"
    and q: "p'\<lparr>nread := nread (pipes s a)\<rparr> = pipes s a" "pipe_inv p'" "pipe_bytes p' = drop (nat n) (pipe_bytes (pipes s a))"
      "uwrite (mem s) (pagetable (procs s pr)) addr ?k (\<lambda>j. pipe_bytes (pipes s a) ! j) m'"
    using piperead_from_Ok [of "s\<lparr>lks := ?l\<rparr>" pr a "nat n" addr 0] assms(2-5) by auto
  let ?s = "s\<lparr>lks := ?l, pipes := (pipes s)(a := p'), mem := m'\<rparr>"
  have "procs_free ?s" using l by (simp add: procs_free_def)
  note wk = wakeup_Ok [OF this, of "ChPipeWrite a"]
  have "piperead a addr n s = Ok (int ?k) (woken (ChPipeWrite a) (s\<lparr>pipes := (pipes s)(a := p'), mem := m'\<rparr>))"
    using l by (simp add: piperead_def curproc_Ok acq wt r wk release_Ok [where l = "lk_touch (lks s)"] woken_def)
  with q show ?thesis by blast
qed

lemma pipewrite_full:
  assumes "idle_thread pr s" "noff (curcpu (lks s)) = 0" "pipe_full (pipes s a)" "0 < n" "0 < wake_bound s"
  shows "if \<not> readopen (pipes s a) \<or> killed (procs s pr)
    then pipewrite a addr n s = Ok (- 1) (s\<lparr>lks := lk_touch (lks s)\<rparr>)
    else \<exists>s' k. pipewrite a addr n s = Swtch s' k \<and> pipes s' = pipes s \<and> mem s' = mem s
      \<and> \<not> locked (spinl (lks s') (LPipe a))
      \<and> procs s' = (wake_all (ChPipeRead a) (procs s))
          (pr := (wake_all (ChPipeRead a) (procs s) pr)\<lparr>pchan := Some (ChPipeWrite a), pstate := SLEEPING\<rparr>)"
proof -
  have l: "lk_ok (lks s)" "cpu_proc (curcpu (lks s)) = Some pr" "\<And>L. \<not> locked (spinl (lks s) L)"
    using assms(1) by (simp_all add: idle_thread_def)
  let ?l = "lk_acq (LPipe a) (lk_touch (lks s))"
  have acq: "acquire (LPipe a) (s\<lparr>lks := lk_touch (lks s)\<rparr>) = Ok () (s\<lparr>lks := ?l\<rparr>)"
    using l by (simp add: acquire_can)
  obtain m where m: "nat n = Suc m" using assms(4) by (cases "nat n") simp_all
  obtain w where w: "wake_bound s = Suc w" using assms(5) by (cases "wake_bound s") simp_all
  show ?thesis
  proof (cases "\<not> readopen (pipes s a) \<or> killed (procs s pr)")
    case True
    have "pipewrite_wait (Suc w) a pr (s\<lparr>lks := ?l\<rparr>) = Ok True (s\<lparr>lks := lk_touch (lks s)\<rparr>)"
      using True assms(3) l by (subst pipewrite_wait.simps) (simp add: release_Ok [where l = "lk_touch (lks s)"])
    then show ?thesis
      using True l by (simp add: pipewrite_def curproc_Ok acq m w)
  next
    case False
    let ?s = "s\<lparr>procs := wake_all (ChPipeRead a) (procs s), lks := ?l\<rparr>"
    have "procs_free (s\<lparr>lks := ?l\<rparr>)" using l by (simp add: procs_free_def)
    note wk = wakeup_Ok [OF this, of "ChPipeRead a"]
    have "sleep_pre pr (LPipe a) (lk_touch (lks s))"
      using l assms(2) by (simp add: sleep_pre_def)
    from sleep_Swtch [OF this, of ?s "ChPipeWrite a"] obtain k where
      "sleep (ChPipeWrite a) (LPipe a) ?s = Swtch (?s\<lparr>lks := lk_acq (LProc pr) (lk_touch (lks s)),
         procs := (procs ?s)(pr := (procs ?s pr)\<lparr>pchan := Some (ChPipeWrite a), pstate := SLEEPING\<rparr>)\<rparr>) k"
      by simp
    then have "\<exists>k. pipewrite_wait (Suc w) a pr (s\<lparr>lks := ?l\<rparr>) = Swtch (?s\<lparr>lks := lk_acq (LProc pr) (lk_touch (lks s)),
         procs := (procs ?s)(pr := (procs ?s pr)\<lparr>pchan := Some (ChPipeWrite a), pstate := SLEEPING\<rparr>)\<rparr>) k"
      using False assms(3) wk l by (subst pipewrite_wait.simps) simp
    then show ?thesis
      using False l by (auto simp: pipewrite_def curproc_Ok acq m w)
  qed
qed

section \<open>Writing to a full pipe\<close>

text \<open>The states in which \<open>pipewrite\<close> gives up the CPU, and those in which it may be resumed: the pipe
  may have changed in any way that keeps it a queue.\<close>

definition pipe_waits :: "u64 \<Rightarrow> nat \<Rightarrow> kstate \<Rightarrow> bool" where
  "pipe_waits a pr s \<longleftrightarrow> pipe_full (pipes s a) \<and> pipe_inv (pipes s a) \<and> readopen (pipes s a)
     \<and> \<not> killed (procs s pr) \<and> pstate (procs s pr) = SLEEPING \<and> pchan (procs s pr) = Some (ChPipeWrite a)
     \<and> (\<forall>q < NPROC. \<not> (pstate (procs s q) = SLEEPING \<and> pchan (procs s q) = Some (ChPipeRead a)))
     \<and> (\<exists>l. free_lks pr l \<and> lks s = lk_acq (LProc pr) l)"

definition pipe_resumed :: "u64 \<Rightarrow> nat \<Rightarrow> kstate \<Rightarrow> kstate \<Rightarrow> bool" where
  "pipe_resumed a pr s s' \<longleftrightarrow> pipe_inv (pipes s' a) \<and> twf 2 (mem s') (pagetable (procs s' pr))
     \<and> (\<exists>l. free_lks pr l \<and> lks s' = lk_acq (LProc pr) l)"

definition writing :: "u64 \<Rightarrow> nat \<Rightarrow> kstate \<Rightarrow> bool" where
  "writing a pr s \<longleftrightarrow> pipe_inv (pipes s a) \<and> twf 2 (mem s) (pagetable (procs s pr))
     \<and> (\<exists>l. free_lks pr l \<and> lks s = lk_acq (LPipe a) l)"

definition write_failed :: "u64 \<Rightarrow> nat \<Rightarrow> kstate \<Rightarrow> bool" where
  "write_failed a pr s \<longleftrightarrow> pipe_inv (pipes s a) \<and> pipe_full (pipes s a) \<and> (\<not> readopen (pipes s a) \<or> killed (procs s pr))
     \<and> free_lks pr (lks s)"

lemma pipewrite_wait_rg:
  assumes "writing a pr s"
  shows "rg (pipe_waits a pr) (pipe_resumed a pr) (pipewrite_wait n a pr)
    (\<lambda>die s'. if die then write_failed a pr s' else writing a pr s' \<and> \<not> pipe_full (pipes s' a)) s"
  using assms
proof (induction n arbitrary: s)
  case 0
  obtain l where l: "free_lks pr l" "lks s = lk_acq (LPipe a) l" using 0 by (auto simp: writing_def)
  have r: "release (LPipe a) s = Ok () (s\<lparr>lks := lk_touch l\<rparr>)" using l by (simp add: release_Ok [where l = l] free_lks_def)
  have "procs_free s" using l by (simp add: procs_free_def free_lks_def)
  note w = wakeup_Ok [OF this]
  show ?case
    by (subst pipewrite_wait.simps) (use 0 l(1) in \<open>simp add: rg_apply [where m = "release (LPipe a)", OF r] rg_apply [where m = "wakeup (ChPipeRead a)", OF w] write_failed_def\<close>,
      simp add: writing_def)
next
  case (Suc n)
  obtain l where l: "free_lks pr l" "lks s = lk_acq (LPipe a) l" using Suc.prems by (auto simp: writing_def)
  have r: "release (LPipe a) s = Ok () (s\<lparr>lks := lk_touch l\<rparr>)" using l by (simp add: release_Ok [where l = l] free_lks_def)
  have pf: "procs_free s" using l by (simp add: procs_free_def free_lks_def)
  note w = wakeup_Ok [OF pf, of "ChPipeRead a"]
  let ?s = "s\<lparr>procs := wake_all (ChPipeRead a) (procs s), lks := lk_touch (lks s)\<rparr>"
  have k: "killed (wake_all c ps q) = killed (ps q)" for c ps q by (simp add: wake_all_def wake1_def)
  have lt: "lks ?s = lk_acq (LPipe a) l" using l by (simp add: free_lks_def)
  have sl: "rg (pipe_waits a pr) (pipe_resumed a pr) (sleep (ChPipeWrite a) (LPipe a)) (\<lambda>_. writing a pr) ?s"
    if "pipe_full (pipes s a)" "readopen (pipes s a)" "\<not> killed (procs s pr)"
  proof (rule sleep_rg [OF free_lks_sleep_pre [OF l(1)] lt], goal_cases)
    case 2
    have "\<forall>q < NPROC. \<not> (pstate (wake_all (ChPipeRead a) (procs s) q) = SLEEPING \<and> pchan (wake_all (ChPipeRead a) (procs s) q) = Some (ChPipeRead a))"
      by (simp add: wake_all_def wake1_def)
    then show ?case using that l Suc.prems by (auto simp: pipe_waits_def k writing_def)
  next
    case (3 s')
    then obtain l' where "free_lks pr l'" "lks s' = lk_acq (LProc pr) l'" by (auto simp: pipe_resumed_def)
    moreover from this have "\<exists>m. free_lks pr m \<and> lk_acq (LPipe a) (set_intr (intr l) l') = lk_acq (LPipe a) m"
      by (intro exI [of _ "set_intr (intr l) l'"]) simp
    ultimately show ?case
      using 3 by (intro exI [of _ l']) (simp add: free_lks_sleep_pre writing_def pipe_resumed_def)
  qed simp
  show ?case
  proof (cases "pipe_full (pipes s a) \<and> readopen (pipes s a) \<and> \<not> killed (procs s pr)")
    case True
    then have "rg (pipe_waits a pr) (pipe_resumed a pr) (seq (sleep (ChPipeWrite a) (LPipe a)) (pipewrite_wait n a pr))
      (\<lambda>die s'. if die then write_failed a pr s' else writing a pr s' \<and> \<not> pipe_full (pipes s' a)) ?s"
      unfolding rg_seq by (intro rg_mono [OF sl] Suc.IH) simp_all
    moreover have "pipewrite_wait (Suc n) a pr s = seq (sleep (ChPipeWrite a) (LPipe a)) (pipewrite_wait n a pr) ?s"
      using True by (subst pipewrite_wait.simps) (simp add: w)
    ultimately show ?thesis by (simp only: rg_def)
  next
    case False
    then show ?thesis
      by (subst pipewrite_wait.simps) (use Suc.prems l(1) in \<open>auto simp: rg_apply [where m = "release (LPipe a)", OF r] write_failed_def\<close>, auto simp: writing_def)
  qed
qed


lemma pipewrite_from_rg:
  assumes "writing a pr s"
  shows "rg (pipe_waits a pr) (pipe_resumed a pr) (pipewrite_from a addr pr i m)
    (\<lambda>r s'. case r of None \<Rightarrow> write_failed a pr s' | Some j \<Rightarrow> writing a pr s' \<and> int i \<le> j \<and> j \<le> int (i + m)) s"
  using assms
proof (induction m arbitrary: i s)
  case (Suc m)
  let ?Q = "\<lambda>r s'. case r of None \<Rightarrow> write_failed a pr s' | Some j \<Rightarrow> writing a pr s' \<and> int i \<le> j \<and> j \<le> int (i + Suc m)"
  have "rg (pipe_waits a pr) (pipe_resumed a pr) (if die then return None
     else bind (gets (\<lambda>s. pagetable (procs s pr))) (\<lambda>pt.
       bind (copyin pt (\<lambda>_. 0) (addr + of_nat i) 1) (\<lambda>(r, c).
       if r = - 1 then return (Some (int i))
       else seq (upd_pipe a (pipe_put (c 0))) (pipewrite_from a addr pr (Suc i) m)))) ?Q s1"
    if d: "if die then write_failed a pr s1 else writing a pr s1 \<and> \<not> pipe_full (pipes s1 a)" for die s1
  proof (cases die)
    case False
    then have w: "writing a pr s1" "\<not> pipe_full (pipes s1 a)" using d by simp_all
    let ?pt = "pagetable (procs s1 pr)"
    obtain r c where c: "copyin ?pt (\<lambda>_. 0) (addr + of_nat i) 1 s1 = Ok (r, c) s1"
      using copyin_byte [of s1 ?pt "\<lambda>_. 0" "addr + of_nat i"] w(1) by (auto simp: writing_def)
    let ?s = "s1\<lparr>pipes := (pipes s1)(a := pipe_put (c 0) (pipes s1 a))\<rparr>"
    have "writing a pr ?s" using w pipe_put_law [of "pipes s1 a" "c 0"] by (auto simp: writing_def)
    from rg_mono [OF Suc.IH [OF this, of "Suc i"], of ?Q]
    have "rg (pipe_waits a pr) (pipe_resumed a pr) (pipewrite_from a addr pr (Suc i) m) ?Q ?s"
      by (auto split: option.splits)
    then show ?thesis
      using False w(1) by (simp add: rg_apply [where m = "copyin _ _ _ _", OF c] upd_pipe_def)
  qed (use d in simp)
  then show ?case
    by (simp only: pipewrite_from.simps rg_bind rg_gets) (rule rg_mono [OF pipewrite_wait_rg [OF Suc.prems]])
qed simp

text \<open>C22: A writer never overwrites unread data, however it is woken.  \<open>pipewrite\<close>, called by a thread
  that holds no lock on a pipe that is a queue of at most \<open>PIPESIZE\<close> bytes, gives up the CPU
  only while the pipe is full, its read end open and the writer not killed, asleep on the write channel with the pipe lock
  free and no reader left asleep on the read channel.  If every time it is resumed the pipe is
  again a queue of at most \<open>PIPESIZE\<close> bytes, in whatever state (even still full), the process's page table well formed and no other lock held, then it never panics and
  leaves such a queue: the write counter never runs more than \<open>PIPESIZE\<close> ahead of the read
  counter. It returns at most \<open>n\<close>, or -1, which happens only on a full pipe whose read end is closed or whose writer was killed.\<close>

theorem pipewrite_waits:
  assumes "idle_thread pr s" "noff (curcpu (lks s)) = 0" "pipe_inv (pipes s a)" "twf 2 (mem s) (pagetable (procs s pr))"
  shows "rg (pipe_waits a pr) (pipe_resumed a pr) (pipewrite a addr n) (\<lambda>r s'. pipe_inv (pipes s' a) \<and> free_lks pr (lks s')
     \<and> (if r = - 1 then pipe_full (pipes s' a) \<and> (\<not> readopen (pipes s' a) \<or> killed (procs s' pr)) else 0 \<le> r \<and> r \<le> max 0 n)) s"
proof -
  have l: "free_lks pr (lks s)" using assms(1,2) by (simp add: idle_thread_def free_lks_def)
  let ?s = "s\<lparr>lks := lk_acq (LPipe a) (lk_touch (lks s))\<rparr>"
  have c: "curproc s = Ok pr (s\<lparr>lks := lk_touch (lks s)\<rparr>)" "acquire (LPipe a) (s\<lparr>lks := lk_touch (lks s)\<rparr>) = Ok () ?s"
    using l by (simp_all add: free_lks_def curproc_Ok acquire_can)
  have w: "writing a pr ?s" using l assms(3,4) by (auto simp: writing_def intro!: exI [of _ "lk_touch (lks s)"])
  have fin: "seq (wakeup (ChPipeRead a)) (seq (release (LPipe a)) (return i)) s1 =
      Ok i (s1\<lparr>procs := wake_all (ChPipeRead a) (procs s1), lks := lk_touch l\<rparr>)"
    if "free_lks pr l" "lks s1 = lk_acq (LPipe a) l" for s1 l i
  proof -
    have "procs_free s1" using that by (simp add: procs_free_def free_lks_def)
    from wakeup_Ok [OF this, of "ChPipeRead a"] show ?thesis
      using that by (simp add: release_Ok [where l = l] free_lks_def)
  qed
  have "rg (pipe_waits a pr) (pipe_resumed a pr) (pipewrite_from a addr pr 0 (nat n)) (\<lambda>r. rg (pipe_waits a pr) (pipe_resumed a pr) (case r of
       None \<Rightarrow> return (- 1)
     | Some i \<Rightarrow> seq (wakeup (ChPipeRead a)) (seq (release (LPipe a)) (return i))) (\<lambda>r s'. pipe_inv (pipes s' a) \<and> free_lks pr (lks s')
     \<and> (if r = - 1 then pipe_full (pipes s' a) \<and> (\<not> readopen (pipes s' a) \<or> killed (procs s' pr)) else 0 \<le> r \<and> r \<le> max 0 n))) ?s"
  proof (rule rg_mono [OF pipewrite_from_rg [OF w]], goal_cases)
    case (1 r s1)
    show ?case
    proof (cases r)
      case None
      then show ?thesis using 1 by (simp add: write_failed_def)
    next
      case (Some i)
      then obtain l where l: "free_lks pr l" "lks s1 = lk_acq (LPipe a) l" using 1 by (auto simp: writing_def)
      show ?thesis using 1 Some l(1) unfolding rg_def by (simp add: fin [OF l] writing_def max_def del: seq_apply)
    qed
  qed
  then show ?thesis
    by (simp only: pipewrite_def rg_bind rg_seq rg_apply [where m = curproc, OF c(1)] rg_apply [where m = "acquire (LPipe a)", OF c(2)])
qed

section \<open>A pipe whose counters wrap\<close>

definition pipe_space :: kstate where
  "pipe_space = small_space\<lparr>lks := run0_lks, procs := \<lambda>_. zero_proc\<lparr>pagetable := 0x87ffe000\<rparr>,
     pipes := \<lambda>_. \<lparr>pi_data = of_nat, nread = 0xfffffffe, nwrite = 0, readopen = True, writeopen = True\<rparr>,
     wake_bound := 1\<rparr>"

lemma pipe_space_idle: "idle_thread 0 pipe_space" "noff (curcpu (lks pipe_space)) = 0"
  by (simp_all add: idle_thread_def pipe_space_def run0_lks_def lk_ok_def upd_cpu_def intr_def zero_lks_def)

lemma pipe_space_mem: "mem pipe_space = small_mem" "pagetable (procs pipe_space p) = 0x87ffe000"
  by (simp_all add: pipe_space_def small_space_def)

lemma pipe_space_pipe: "pipe_inv (pipes pipe_space a)" "pipe_bytes (pipes pipe_space a) = [254, 255]"
  by (simp_all add: pipe_space_def pipe_inv_def pipe_bytes_def ring_list_def upt_rec)


theorem piperead_correct_witness:
  "\<exists>m' p'. piperead 0x80100000 0x10 3 pipe_space = Ok 2
      (woken (ChPipeWrite 0x80100000) (pipe_space\<lparr>pipes := (pipes pipe_space)(0x80100000 := p'), mem := m'\<rparr>))
    \<and> pipe_bytes p' = []"
  using piperead_correct [OF pipe_space_idle(1), of "0x80100000" 3 "0x10"] small_uspace small_umapped
  by (auto simp: pipe_space_mem pipe_space_pipe)

definition full_pipe :: pipe where
  "full_pipe = \<lparr>pi_data = of_nat, nread = 0xfffffffe, nwrite = 510, readopen = True, writeopen = True\<rparr>"

theorem pipewrite_waits_witness:
  "rg (pipe_waits 0x80100000 0) (pipe_resumed 0x80100000 0) (pipewrite 0x80100000 0x10 3)
     (\<lambda>r s'. pipe_inv (pipes s' 0x80100000)) (pipe_space\<lparr>pipes := \<lambda>_. full_pipe\<rparr>)
   \<and> (\<exists>s' k. pipewrite 0x80100000 0x10 3 (pipe_space\<lparr>pipes := \<lambda>_. full_pipe\<rparr>) = Swtch s' k \<and> pipe_waits 0x80100000 0 s')"
proof -
  let ?s = "pipe_space\<lparr>pipes := \<lambda>_. full_pipe\<rparr>"
  have h: "idle_thread 0 ?s" "noff (curcpu (lks ?s)) = 0" "pipe_full (pipes ?s 0x80100000)" "0 < wake_bound ?s" "pipe_inv (pipes ?s 0x80100000)"
    "twf 2 (mem ?s) (pagetable (procs ?s 0))"
    using pipe_space_idle small_twf by (simp_all add: idle_thread_def pipe_full_def pipe_inv_def full_pipe_def pipe_space_mem) (simp_all add: pipe_space_def)
  note r = pipewrite_waits [OF h(1,2,5,6), of "0x10" 3]
  have "readopen (pipes ?s 0x80100000)" "\<not> killed (procs ?s 0)"
    by (simp_all add: full_pipe_def pipe_space_def zero_proc_def)
  then obtain s' k where sw: "pipewrite 0x80100000 0x10 3 ?s = Swtch s' k"
    using pipewrite_full [OF h(1,2,3) _ h(4), of 3 "0x10"] by auto
  moreover have "pipe_waits 0x80100000 0 s'" using r unfolding rg_def sw by simp
  ultimately show ?thesis using r by (auto elim: rg_mono)
qed

end
