(* ===== verification/Uart.thy ===== *)
theory Uart
  imports Sched Ring
begin

text \<open>
  \<open>kernel/uart.c\<close>: the 16550 serial port.  The device is a parameter of the state: \<open>uart_lsr\<close>
  lists what it answers to the coming reads of the line status register (and 0, neither
  ready nor idle, after that), \<open>uart_rhr\<close> the bytes it has received; bytes written to the
  transmit register are appended to \<open>uart_thr\<close>.
\<close>

abbreviation (input) LSR_RX_READY :: byte where "LSR_RX_READY \<equiv> 1"
abbreviation (input) LSR_TX_IDLE :: byte where "LSR_TX_IDLE \<equiv> 32"
abbreviation (input) UART_TX_BUF_SIZE :: int where "UART_TX_BUF_SIZE \<equiv> 32"

section \<open>Registers\<close>

definition upd_uart :: "(uart \<Rightarrow> uart) \<Rightarrow> unit k" where
  "upd_uart f = modify (\<lambda>s. s\<lparr>uartst := f (uartst s)\<rparr>)"

definition read_lsr :: "byte k" where
  "read_lsr = bind (gets (\<lambda>s. uart_lsr (uartst s))) (\<lambda>l.
     case l of [] \<Rightarrow> return 0 | v # vs \<Rightarrow> seq (upd_uart (\<lambda>u. u\<lparr>uart_lsr := vs\<rparr>)) (return v))"

definition read_rhr :: "byte k" where
  "read_rhr = bind (gets (\<lambda>s. uart_rhr (uartst s))) (\<lambda>l.
     case l of [] \<Rightarrow> return 0 | v # vs \<Rightarrow> seq (upd_uart (\<lambda>u. u\<lparr>uart_rhr := vs\<rparr>)) (return v))"

definition write_thr :: "byte \<Rightarrow> unit k" where
  "write_thr c = upd_uart (\<lambda>u. u\<lparr>uart_thr := uart_thr u @ [c]\<rparr>)"

definition write_ctl :: "nat \<Rightarrow> byte \<Rightarrow> unit k" where
  "write_ctl reg v = upd_uart (\<lambda>u. u\<lparr>uart_ctl := uart_ctl u @ [(reg, v)]\<rparr>)"

section \<open>The driver\<close>

definition uartinit :: "unit k" where
  "uartinit =
     seq (write_ctl 1 0) (
     seq (write_ctl 3 0x80) (
     seq (write_ctl 0 3) (
     seq (write_ctl 1 0) (
     seq (write_ctl 3 3) (
     seq (write_ctl 2 7) (
     seq (write_ctl 1 3)
     (initlock LUartTx ''uart'')))))))"

definition tx_full :: "uart \<Rightarrow> bool" where
  "tx_full u \<longleftrightarrow> (uart_tx_w u + 1) mod UART_TX_BUF_SIZE = uart_tx_r u"

definition tx_empty :: "uart \<Rightarrow> bool" where
  "tx_empty u \<longleftrightarrow> uart_tx_w u = uart_tx_r u"

definition tx_put :: "byte \<Rightarrow> uart \<Rightarrow> uart" where
  "tx_put c u = u\<lparr>uart_tx_buf := (uart_tx_buf u)(nat (uart_tx_w u) := c),
                  uart_tx_w := (uart_tx_w u + 1) mod UART_TX_BUF_SIZE\<rparr>"

definition tx_get :: "uart \<Rightarrow> byte \<times> uart" where
  "tx_get u = (uart_tx_buf u (nat (uart_tx_r u)),
               u\<lparr>uart_tx_r := (uart_tx_r u + 1) mod UART_TX_BUF_SIZE\<rparr>)"

text \<open>\<open>uartstart\<close> sends at most as many bytes as the buffer holds.\<close>

fun uartstart_loop :: "nat \<Rightarrow> unit k" where
  "uartstart_loop 0 = spin"
| "uartstart_loop (Suc n) =
     bind (gets (\<lambda>s. tx_empty (uartst s))) (\<lambda>e.
     if e then return ()
     else bind read_lsr (\<lambda>v.
       if v AND LSR_TX_IDLE = 0 then return ()
       else bind (gets (\<lambda>s. fst (tx_get (uartst s)))) (\<lambda>c.
         seq (upd_uart (\<lambda>u. snd (tx_get u))) (
         seq (wakeup ChUart) (
         seq (write_thr c)
         (uartstart_loop n))))))"

definition uartstart :: "unit k" where
  "uartstart = uartstart_loop 32"

definition uartputc :: "int \<Rightarrow> unit k" where
  "uartputc c =
     seq (acquire LUartTx) (
     bind (gets panicked) (\<lambda>p.
     if p then spin
     else bind (gets wake_bound) (\<lambda>n.
       seq (sleep_while n (\<lambda>s. tx_full (uartst s)) ChUart LUartTx) (
       seq (upd_uart (tx_put (word_of_int c))) (
       seq uartstart
       (release LUartTx))))))"

fun lsr_wait :: "byte list \<Rightarrow> byte list option" where
  "lsr_wait [] = None"
| "lsr_wait (v # vs) = (if v AND LSR_TX_IDLE = 0 then lsr_wait vs else Some vs)"

definition uartputc_sync :: "int \<Rightarrow> unit k" where
  "uartputc_sync c =
     seq push_off (
     bind (gets panicked) (\<lambda>p.
     if p then spin
     else bind (gets (\<lambda>s. lsr_wait (uart_lsr (uartst s)))) (\<lambda>r.
       case r of None \<Rightarrow> spin
       | Some vs \<Rightarrow>
         seq (upd_uart (\<lambda>u. u\<lparr>uart_lsr := vs\<rparr>)) (
         seq (write_thr (word_of_int c))
         pop_off))))"

definition uartgetc :: "int k" where
  "uartgetc = bind read_lsr (\<lambda>v.
     if v AND LSR_RX_READY \<noteq> 0 then bind read_rhr (\<lambda>c. return (uint c)) else return (- 1))"

section \<open>The transmit buffer is a queue of 31 bytes\<close>

definition tx_inv :: "uart \<Rightarrow> bool" where
  "tx_inv u \<longleftrightarrow> 0 \<le> uart_tx_r u \<and> uart_tx_r u < 32 \<and> 0 \<le> uart_tx_w u \<and> uart_tx_w u < 32"

definition tx_count :: "uart \<Rightarrow> nat" where
  "tx_count u = nat ((uart_tx_w u - uart_tx_r u) mod 32)"

definition tx_contents :: "uart \<Rightarrow> byte list" where
  "tx_contents u = ring_list (uart_tx_buf u) 32 (nat (uart_tx_r u)) (tx_count u)"

lemma tx_count_put:
  assumes "tx_inv u" "\<not> tx_full u"
  shows "tx_count (tx_put c u) = Suc (tx_count u)" "tx_count u < 31"
    "(nat (uart_tx_r u) + tx_count u) mod 32 = nat (uart_tx_w u)"
proof -
  have b: "0 \<le> uart_tx_r u" "uart_tx_r u < 32" "0 \<le> uart_tx_w u" "uart_tx_w u < 32"
    and nf: "(uart_tx_w u + 1) mod 32 \<noteq> uart_tx_r u"
    using assms by (auto simp: tx_inv_def tx_full_def)
  let ?d = "(uart_tx_w u - uart_tx_r u) mod 32"
  have d: "0 \<le> ?d" "?d < 32" by simp_all
  have w: "(uart_tx_r u + ?d) mod 32 = uart_tx_w u"
    using b by (simp add: mod_add_right_eq)
  have "?d \<noteq> 31"
  proof
    assume "?d = 31"
    then have "(uart_tx_r u + 31) mod 32 = uart_tx_w u"
      using w by simp
    then have "(uart_tx_w u + 1) mod 32 = (uart_tx_r u + 31 + 1) mod 32"
      by (metis mod_add_left_eq)
    then show False
      using nf b by simp
  qed
  then have "?d < 31" using d by linarith
  then show "tx_count u < 31"
    by (simp add: tx_count_def)
  have "((uart_tx_w u + 1) mod 32 - uart_tx_r u) mod 32 = (?d + 1) mod 32"
    using mod_add_left_eq [of "uart_tx_w u - uart_tx_r u" 32 1]
    by (simp add: mod_diff_left_eq algebra_simps)
  also have "\<dots> = ?d + 1"
    using \<open>?d < 31\<close> d by (intro mod_pos_pos_trivial) linarith+
  finally show "tx_count (tx_put c u) = Suc (tx_count u)"
    using d by (simp add: tx_count_def tx_put_def Suc_nat_eq_nat_zadd1 add.commute)
  have "nat ((uart_tx_r u + ?d) mod 32) = nat (uart_tx_r u + ?d) mod nat 32"
    using b d by (intro nat_mod_distrib) linarith+
  then show "(nat (uart_tx_r u) + tx_count u) mod 32 = nat (uart_tx_w u)"
    using w b d by (simp add: tx_count_def nat_add_distrib)
qed

lemma tx_count_get:
  assumes "tx_inv u" "\<not> tx_empty u"
  shows "tx_count u = Suc (tx_count (snd (tx_get u)))"
proof -
  have b: "0 \<le> uart_tx_r u" "uart_tx_r u < 32" "0 \<le> uart_tx_w u" "uart_tx_w u < 32"
    and ne: "uart_tx_w u \<noteq> uart_tx_r u"
    using assms by (auto simp: tx_inv_def tx_empty_def)
  let ?d = "(uart_tx_w u - uart_tx_r u) mod 32"
  have d: "0 \<le> ?d" "?d < 32" by simp_all
  have w: "(uart_tx_r u + ?d) mod 32 = uart_tx_w u"
    using b by (simp add: mod_add_right_eq)
  then have "?d \<noteq> 0"
    using b ne by auto
  then have "0 < ?d" using d by linarith
  have "(uart_tx_w u - (uart_tx_r u + 1) mod 32) mod 32 = (?d - 1) mod 32"
    using mod_diff_left_eq [of "uart_tx_w u - uart_tx_r u" 32 1]
    by (simp add: mod_diff_right_eq algebra_simps)
  also have "\<dots> = ?d - 1"
    using \<open>0 < ?d\<close> d by (intro mod_pos_pos_trivial) linarith+
  finally show ?thesis
    using \<open>0 < ?d\<close> by (simp add: tx_count_def tx_get_def Suc_nat_eq_nat_zadd1)
qed

lemma tx_count_0: "tx_inv u \<Longrightarrow> tx_count u = 0 \<longleftrightarrow> tx_empty u"
proof
  assume u: "tx_inv u" "tx_count u = 0"
  show "tx_empty u"
  proof (rule ccontr)
    assume "\<not> tx_empty u"
    with tx_count_get [OF u(1)] u(2) show False by simp
  qed
qed (simp add: tx_empty_def tx_count_def)

lemma tx_count_le: "tx_count u \<le> 31"
proof -
  have "(uart_tx_w u - uart_tx_r u) mod 32 < 32" by simp
  then show ?thesis
    unfolding tx_count_def by linarith
qed

lemma tx_full_count: "tx_inv u \<Longrightarrow> tx_full u \<longleftrightarrow> tx_count u = 31"
proof
  assume u: "tx_inv u" "tx_full u"
  then have "uart_tx_r u = (uart_tx_w u + 1) mod 32"
    by (simp add: tx_full_def)
  then have "(uart_tx_w u - uart_tx_r u) mod 32 = (uart_tx_w u - (uart_tx_w u + 1)) mod 32"
    by (simp add: mod_diff_right_eq)
  then show "tx_count u = 31"
    by (simp add: tx_count_def)
next
  assume "tx_inv u" "tx_count u = 31"
  with tx_count_put(2) [of u] show "tx_full u"
    by fastforce
qed

interpretation txq: fifo tx_put tx_get tx_full tx_empty tx_contents tx_inv 31
proof (unfold_locales, goal_cases)
  case (1 r b)
  have "tx_inv (tx_put b r)"
    using 1 by (simp add: tx_inv_def tx_put_def)
  moreover have "tx_contents (tx_put b r) = tx_contents r @ [b]"
    using tx_count_put(1) [OF 1, of b] tx_count_put(2,3) [OF 1] ring_list_put [of "tx_count r" 32 "uart_tx_buf r" "nat (uart_tx_r r)" b]
    by (simp add: tx_contents_def) (simp add: tx_put_def)
  ultimately show ?case by simp
next
  case (2 r)
  have "tx_inv (snd (tx_get r))"
    using 2 by (simp add: tx_inv_def tx_get_def)
  moreover have "nat (uart_tx_r r) < 32" "Suc (nat (uart_tx_r r)) mod 32 = nat (uart_tx_r (snd (tx_get r)))"
    using 2(1) by (simp_all add: tx_inv_def tx_get_def nat_mod_distrib nat_add_distrib nat_less_iff)
  then have "tx_contents r = fst (tx_get r) # tx_contents (snd (tx_get r))"
    using tx_count_get [OF 2] ring_list_mod [of _ 32 "Suc (nat (uart_tx_r r))"]
    by (simp add: tx_contents_def ring_list_Suc) (simp add: tx_get_def)
  ultimately show ?case by simp
next
  case (3 r)
  then show ?case
    using tx_count_0 [of r] by (metis tx_contents_def length_0_conv length_ring_list)
next
  case (4 r)
  then show ?case by (simp add: tx_full_count tx_contents_def)
next
  case (5 r)
  then show ?case by (simp add: tx_contents_def tx_count_le)
qed

section \<open>Bytes leave in the order they were written\<close>

text \<open>Everything handed to the driver so far: what the device has been given, then what waits.\<close>

definition tx_stream :: "uart \<Rightarrow> byte list" where
  "tx_stream u = uart_thr u @ tx_contents u"

lemma tx_contents_thr [simp]: "tx_contents (u\<lparr>uart_thr := x\<rparr>) = tx_contents u"
  by (simp add: tx_contents_def tx_count_def)

lemma tx_contents_lsr [simp]: "tx_contents (u\<lparr>uart_lsr := x\<rparr>) = tx_contents u"
  by (simp add: tx_contents_def tx_count_def)

lemma tx_inv_regs [simp]: "tx_inv (u\<lparr>uart_thr := x\<rparr>) = tx_inv u" "tx_inv (u\<lparr>uart_lsr := y\<rparr>) = tx_inv u"
  by (simp_all add: tx_inv_def)

lemma tx_thr [simp]: "uart_thr (snd (tx_get u)) = uart_thr u" "uart_thr (tx_put c u) = uart_thr u"
  by (simp_all add: tx_get_def tx_put_def)

lemma tx_count_regs [simp]:
  "tx_count (u\<lparr>uart_thr := x\<rparr>) = tx_count u" "tx_count (u\<lparr>uart_lsr := y\<rparr>) = tx_count u"
  by (simp_all add: tx_count_def)

text \<open>Sending touches nothing but the uart and the states of the processes waiting for it.\<close>

definition tx_frame :: "kstate \<Rightarrow> kstate \<Rightarrow> bool" where
  "tx_frame s s' \<longleftrightarrow> (\<exists>ps u. s' = s\<lparr>procs := ps, uartst := u\<rparr>)"

lemma tx_frame_refl [simp]: "tx_frame s s"
  unfolding tx_frame_def by (intro exI [of _ "procs s"] exI [of _ "uartst s"]) simp

lemma tx_frame_trans:
  assumes "tx_frame s s1" "tx_frame s1 s2"
  shows "tx_frame s s2"
proof -
  obtain ps u ps' u' where "s1 = s\<lparr>procs := ps, uartst := u\<rparr>" "s2 = s1\<lparr>procs := ps', uartst := u'\<rparr>"
    using assms by (auto simp: tx_frame_def)
  then have "s2 = s\<lparr>procs := ps', uartst := u'\<rparr>" by simp
  then show ?thesis unfolding tx_frame_def by blast
qed

lemma tx_frame_uart [simp]: "tx_frame s (s\<lparr>uartst := u\<rparr>)"
  unfolding tx_frame_def by (intro exI [of _ "procs s"] exI [of _ u]) simp

lemma tx_frame_lks: "tx_frame s s' \<Longrightarrow> lks s' = lks s \<and> mem s' = mem s \<and> panicked s' = panicked s"
  by (auto simp: tx_frame_def)

text \<open>The state after one byte has been sent.\<close>

definition tx_sent :: "kstate \<Rightarrow> kstate" where
  "tx_sent s = s\<lparr>procs := wake_all ChUart (procs s),
     uartst := (snd (tx_get (uartst s)))\<lparr>uart_thr := uart_thr (uartst s) @ [fst (tx_get (uartst s))]\<rparr>\<rparr>"

lemma read_lsr_cases:
  obtains "uart_lsr (uartst s) = []" "read_lsr s = Ok 0 s"
  | v vs where "uart_lsr (uartst s) = v # vs"
      "read_lsr s = Ok v (s\<lparr>uartst := (uartst s)\<lparr>uart_lsr := vs\<rparr>\<rparr>)"
  by (cases "uart_lsr (uartst s)") (simp_all add: read_lsr_def upd_uart_def)

lemma tx_sent_props:
  assumes "tx_inv (uartst s)" "\<not> tx_empty (uartst s)"
  shows "tx_inv (uartst (tx_sent s))" "tx_stream (uartst (tx_sent s)) = tx_stream (uartst s)"
    "Suc (tx_count (uartst (tx_sent s))) = tx_count (uartst s)"
  using txq.get_law [OF assms] tx_count_get [OF assms]
  by (simp_all add: tx_sent_def tx_stream_def)

lemma uartstart_send:
  assumes "procs_free s" "0 < noff (curcpu (lks s))" "\<not> tx_empty (uartst s)"
    and "read_lsr s = Ok v s1" "v AND LSR_TX_IDLE \<noteq> 0" "s1 = s\<lparr>uartst := (uartst s)\<lparr>uart_lsr := vs\<rparr>\<rparr>"
  shows "uartstart_loop (Suc n) s = uartstart_loop n (tx_sent s1)"
proof -
  let ?s2 = "s1\<lparr>uartst := snd (tx_get (uartst s1))\<rparr>"
  have "procs_free ?s2" "lk_touch (lks ?s2) = lks ?s2"
    using assms by (simp_all add: procs_free_def)
  then have "wakeup ChUart ?s2 = Ok () (?s2\<lparr>procs := wake_all ChUart (procs ?s2)\<rparr>)"
    by (simp add: wakeup_Ok)
  then show ?thesis
    using assms(3-6) by (simp add: upd_uart_def write_thr_def tx_sent_def)
qed

lemma tx_frame_sent: "tx_frame s (tx_sent s)"
  by (auto simp: tx_frame_def tx_sent_def)

lemma uartstart_loop_wp:
  assumes "procs_free s" "0 < noff (curcpu (lks s))" "tx_inv (uartst s)" "tx_count (uartst s) < n"
  shows "wp (uartstart_loop n) (\<lambda>_ s'. tx_frame s s' \<and> tx_inv (uartst s')
     \<and> tx_stream (uartst s') = tx_stream (uartst s)) s"
  using assms
proof (induction n arbitrary: s)
  case 0
  then show ?case by simp
next
  case (Suc n)
  let ?Q = "\<lambda>s _ s'. tx_frame s s' \<and> tx_inv (uartst s') \<and> tx_stream (uartst s') = tx_stream (uartst s)"
  have goal: "wp (uartstart_loop (Suc n)) (?Q s) s" if "\<not> tx_empty (uartst s)"
    "read_lsr s = Ok v (s\<lparr>uartst := (uartst s)\<lparr>uart_lsr := vs\<rparr>\<rparr>)" "v AND LSR_TX_IDLE \<noteq> 0" for v vs
  proof -
    let ?s1 = "s\<lparr>uartst := (uartst s)\<lparr>uart_lsr := vs\<rparr>\<rparr>"
    have ne: "tx_inv (uartst ?s1)" "\<not> tx_empty (uartst ?s1)"
      using that(1) Suc.prems(3) by (simp_all add: tx_empty_def)
    have "procs_free (tx_sent ?s1)" "0 < noff (curcpu (lks (tx_sent ?s1)))"
      using Suc.prems(1,2) by (simp_all add: procs_free_def tx_sent_def)
    moreover have "tx_count (uartst (tx_sent ?s1)) < n"
      using tx_sent_props(3) [OF ne] Suc.prems(4) by simp
    ultimately have "wp (uartstart_loop n) (?Q (tx_sent ?s1)) (tx_sent ?s1)"
      using tx_sent_props(1) [OF ne] by (intro Suc.IH)
    then have "wp (uartstart_loop n) (?Q s) (tx_sent ?s1)"
    proof (rule wp_mono)
      fix a s'
      assume q: "?Q (tx_sent ?s1) a s'"
      have "tx_frame s (tx_sent ?s1)"
        by (rule tx_frame_trans [OF _ tx_frame_sent]) simp
      then have "tx_frame s s'"
        using q by (blast intro: tx_frame_trans)
      then show "?Q s a s'"
        using q tx_sent_props(2) [OF ne] by (simp add: tx_stream_def)
    qed
    then show ?thesis
      by (simp only: wp_def uartstart_send [OF Suc.prems(1,2) that refl])
  qed
  show "wp (uartstart_loop (Suc n)) (?Q s) s"
  proof (cases "tx_empty (uartst s)")
    case True
    then show ?thesis using Suc.prems(3) by simp
  next
    case ne: False
    show ?thesis
    proof (cases rule: read_lsr_cases [of s])
      case 1
      then show ?thesis using ne Suc.prems(3) by (simp add: wp_def)
    next
      case (2 v vs)
      show ?thesis
      proof (cases "v AND LSR_TX_IDLE = 0")
        case True
        then show ?thesis using 2 ne Suc.prems(3) by (simp add: wp_def tx_stream_def)
      next
        case False
        then show ?thesis by (rule goal [OF ne 2(2)])
      qed
    qed
  qed
qed

lemma uartstart_wp:
  assumes "procs_free s" "0 < noff (curcpu (lks s))" "tx_inv (uartst s)"
  shows "wp uartstart (\<lambda>_ s'. tx_frame s s' \<and> tx_inv (uartst s')
     \<and> tx_stream (uartst s') = tx_stream (uartst s)) s"
  unfolding uartstart_def
  using assms tx_count_le [of "uartst s"] by (intro uartstart_loop_wp) simp_all

text \<open>C13: Output is first-in first-out.  \<open>uartputc(c)\<close>, when the transmit buffer has room, returns
  with \<open>c\<close> appended to everything written before, whatever part of it the device has taken
  already; nothing is lost, duplicated or reordered, and the loop of \<open>uartstart\<close> ends.\<close>

theorem uartputc_fifo:
  assumes "procs_free s" and "\<not> locked (spinl (lks s) LUartTx)" and "\<not> panicked s"
    and "tx_inv (uartst s)" and "\<not> tx_full (uartst s)"
  shows "wp (uartputc c) (\<lambda>_ s'. tx_inv (uartst s')
     \<and> tx_stream (uartst s') = tx_stream (uartst s) @ [word_of_int c]
     \<and> lks s' = lk_touch (lks s) \<and> mem s' = mem s) s"
proof -
  let ?u = "tx_put (word_of_int c) (uartst s)"
  let ?s1 = "s\<lparr>lks := lk_acq LUartTx (lks s)\<rparr>"
  let ?s2 = "?s1\<lparr>uartst := ?u\<rparr>"
  have l: "lk_ok (lks s)" "0 \<le> noff (curcpu (lks s))"
    using assms(1) by (auto simp: procs_free_def lk_ok_def)
  have u: "tx_inv ?u" "tx_stream ?u = tx_stream (uartst s) @ [word_of_int c]"
    using txq.put_law [OF assms(4,5), of "word_of_int c"] by (simp_all add: tx_stream_def)
  have "wp uartstart (\<lambda>_ s'. tx_frame ?s2 s' \<and> tx_inv (uartst s')
     \<and> tx_stream (uartst s') = tx_stream (uartst ?s2)) ?s2"
    using assms(1) l u by (intro uartstart_wp) (simp_all add: procs_free_def)
  then obtain s3 where s3: "uartstart ?s2 = Ok () s3" "lks s3 = lk_acq LUartTx (lks s)" "mem s3 = mem s"
    "tx_inv (uartst s3)" "tx_stream (uartst s3) = tx_stream ?u"
    by (auto simp: wp_iff dest: tx_frame_lks)
  have w: "sleep_while n (\<lambda>s. tx_full (uartst s)) ChUart LUartTx ?s1 = Ok () ?s1" for n
    using assms(5) by (cases n) simp_all
  have "release LUartTx s3 = Ok () (s3\<lparr>lks := lk_touch (lks s)\<rparr>)"
    using l assms(2) s3(2) by (simp add: release_Ok)
  then show ?thesis
    using assms l u s3 w by (simp add: wp_def uartputc_def acquire_can upd_uart_def)
qed

theorem uartputc_fifo_witness:
  "wp (uartputc 65) (\<lambda>_ s'. tx_stream (uartst s') = [65]) zero_state"
proof -
  have z: "tx_inv (uartst zero_state)" "\<not> tx_full (uartst zero_state)" "\<not> panicked zero_state"
    "tx_stream (uartst zero_state) = []"
    by (simp_all add: zero_state_def tx_inv_def tx_full_def tx_stream_def tx_contents_def tx_count_def)
  have "procs_free zero_state"
    by (simp add: procs_free_def)
  then show ?thesis
    using uartputc_fifo [of zero_state 65] z by (auto elim: wp_mono)
qed

end
