(* ===== verification/Printf.thy ===== *)
theory Printf
  imports Uart
begin

text \<open>
  \<open>kernel/printf.c\<close>, \<open>consputc\<close> of \<open>console.c\<close> and \<open>procdump\<close> of \<open>proc.c\<close>.  A format string is its list
  of bytes without the NUL.  The variable arguments are a list of tagged values; taking an
  argument of the wrong type or beyond the last one is undefined in C, and gives 0 here.
\<close>

abbreviation (input) BACKSPACE :: int where "BACKSPACE \<equiv> 0x100"

definition consputc :: "int \<Rightarrow> unit k" where
  "consputc c =
     (if c = BACKSPACE then seq (uartputc_sync 8) (seq (uartputc_sync 32) (uartputc_sync 8))
      else uartputc_sync c)"

definition digit :: "nat \<Rightarrow> byte" where
  "digit d = of_nat (if d < 10 then 48 + d else 87 + d)"

text \<open>The digits of \<open>x\<close> as the \<open>do\<close> loop stores them, least significant first.\<close>

function digits_rev :: "nat \<Rightarrow> nat \<Rightarrow> byte list" where
  "digits_rev base x =
     digit (x mod base) # (if x div base = 0 \<or> base < 2 then [] else digits_rev base (x div base))"
  by pat_completeness auto

termination
proof (relation "measure snd")
  fix base x :: nat
  assume "\<not> (x div base = 0 \<or> base < 2)"
  then have "0 < x" "1 < base"
    by (auto intro: gr0I)
  then show "((base, x div base), base, x) \<in> measure snd"
    by simp
qed simp

declare digits_rev.simps [simp del]

text \<open>\<open>-xx\<close> of the least \<open>int\<close> overflows, which C leaves undefined; the model takes the wrapping negation that
  the compiler emits for it.\<close>

definition printint_buf :: "u32 \<Rightarrow> nat \<Rightarrow> bool \<Rightarrow> byte list" where
  "printint_buf xx base sign =
     (let neg = (sign \<and> sint xx < 0);
          x = (if neg then - xx else xx)
      in digits_rev base (unat x) @ (if neg then [45] else []))"

definition printint :: "u32 \<Rightarrow> nat \<Rightarrow> bool \<Rightarrow> unit k" where
  "printint xx base sign = forM (rev (printint_buf xx base sign)) (\<lambda>c. consputc (uint c))"

definition printptr :: "u64 \<Rightarrow> unit k" where
  "printptr x =
     seq (consputc 48) (
     seq (consputc 120)
     (forM [0..<16] (\<lambda>i. consputc (uint (digit (unat (drop_bit 60 (push_bit (4 * i) x))))))))"

datatype fmtarg = AInt u32 | APtr u64 | AStr "byte list option"

definition va_int :: "fmtarg list \<Rightarrow> u32" where
  "va_int as = (case as of AInt x # _ \<Rightarrow> x | _ \<Rightarrow> 0)"

definition va_ptr :: "fmtarg list \<Rightarrow> u64" where
  "va_ptr as = (case as of APtr x # _ \<Rightarrow> x | _ \<Rightarrow> 0)"

definition va_str :: "fmtarg list \<Rightarrow> byte list" where
  "va_str as = (case as of AStr (Some x) # _ \<Rightarrow> x | _ \<Rightarrow> [40, 110, 117, 108, 108, 41])"

fun printf_from :: "byte list \<Rightarrow> fmtarg list \<Rightarrow> unit k" where
  "printf_from [] as = return ()"
| "printf_from (c # cs) as =
     (if c \<noteq> 37 then seq (consputc (uint c)) (printf_from cs as)
      else (case cs of
         [] \<Rightarrow> return ()
       | d # ds \<Rightarrow>
           if d = 100 then seq (printint (va_int as) 10 True) (printf_from ds (tl as))
           else if d = 120 then seq (printint (va_int as) 16 True) (printf_from ds (tl as))
           else if d = 112 then seq (printptr (va_ptr as)) (printf_from ds (tl as))
           else if d = 115 then
             seq (forM (va_str as) (\<lambda>c. consputc (uint c))) (printf_from ds (tl as))
           else if d = 37 then seq (consputc 37) (printf_from ds as)
           else seq (consputc 37) (seq (consputc (uint d)) (printf_from ds as))))"

definition printf :: "byte list option \<Rightarrow> fmtarg list \<Rightarrow> unit k" where
  "printf fmt as =
     bind (gets pr_locking) (\<lambda>locking.
     seq (whenM locking (acquire LPr)) (
     case fmt of None \<Rightarrow> panic ''null fmt''
     | Some f \<Rightarrow> seq (printf_from f as) (whenM locking (release LPr))))"

text \<open>The body of \<open>panic()\<close>: in the rest of the model a call of it is the outcome \<open>Panic\<close>.\<close>

definition panic_body :: "byte list \<Rightarrow> unit k" where
  "panic_body msg =
     seq (modify (\<lambda>s. s\<lparr>pr_locking := False\<rparr>)) (
     seq (printf (Some [112, 97, 110, 105, 99, 58, 32]) []) (
     seq (printf (Some msg) []) (
     seq (printf (Some [10]) []) (
     seq (modify (\<lambda>s. s\<lparr>panicked := True\<rparr>))
     spin))))"

definition printfinit :: "unit k" where
  "printfinit = seq (initlock LPr ''pr'') (modify (\<lambda>s. s\<lparr>pr_locking := True\<rparr>))"

section \<open>procdump\<close>

definition bytes_of :: "string \<Rightarrow> byte list" where
  "bytes_of cs = map (\<lambda>c. of_nat (of_char c)) cs"

definition state_name :: "procstate \<Rightarrow> byte list" where
  "state_name pst = bytes_of (case pst of UNUSED \<Rightarrow> ''unused'' | SLEEPING \<Rightarrow> ''sleep ''
     | RUNNABLE \<Rightarrow> ''runble'' | RUNNING \<Rightarrow> ''run   '' | ZOMBIE \<Rightarrow> ''zombie'')"

definition procdump :: "unit k" where
  "procdump =
     seq (printf (Some [10]) []) (
     forM [0..<NPROC] (\<lambda>p.
       bind (gets (\<lambda>s. procs s p)) (\<lambda>q.
       whenM (pstate q \<noteq> UNUSED) (
         seq (printf (Some (bytes_of ''%d %s %s''))
               [AInt (word_of_int (pid q)), AStr (Some (state_name (pstate q))),
                AStr (Some (str_of 16 (pname q)))])
         (printf (Some [10]) [])))))"

section \<open>What printint prints reads back\<close>

definition undigit :: "byte \<Rightarrow> nat" where
  "undigit b = (if unat b < 97 then unat b - 48 else unat b - 87)"

text \<open>The number that a list of digits denotes, least significant digit first.\<close>

fun value_rev :: "nat \<Rightarrow> byte list \<Rightarrow> nat" where
  "value_rev base [] = 0"
| "value_rev base (b # bs) = undigit b + base * value_rev base bs"

text \<open>Reading a printed number, as a human reads it: an optional minus sign, then digits.\<close>

definition read_number :: "nat \<Rightarrow> byte list \<Rightarrow> int" where
  "read_number base bs =
     (case bs of [] \<Rightarrow> 0
      | b # r \<Rightarrow> if b = 45 then - int (value_rev base (rev r)) else int (value_rev base (rev bs)))"

lemma unat_digit: "d < 16 \<Longrightarrow> unat (digit d) = (if d < 10 then 48 + d else 87 + d)"
  by (simp add: digit_def unat_of_nat)

lemma undigit_digit: "d < 16 \<Longrightarrow> undigit (digit d) = d"
  by (simp add: undigit_def unat_digit)

lemma digit_not_minus: "d < 16 \<Longrightarrow> digit d \<noteq> 45"
  by (auto simp: word_unat_eq_iff unat_digit split: if_splits)

lemma value_digits:
  assumes "2 \<le> base" "base \<le> 16"
  shows "value_rev base (digits_rev base x) = x"
  using assms
proof (induction base x rule: digits_rev.induct)
  case (1 base x)
  have m: "x mod base < 16"
    using 1(2,3) mod_less_divisor [of base x] by linarith
  show ?case
  proof (cases "x div base = 0")
    case True
    then have "x < base"
      using 1(2) by (simp add: div_eq_0_iff)
    then show ?thesis
      using True m by (subst digits_rev.simps) (simp add: undigit_digit)
  next
    case False
    then have "value_rev base (digits_rev base (x div base)) = x div base"
      using 1 by simp
    then show ?thesis
      using False 1(2) m by (subst digits_rev.simps) (simp add: undigit_digit)
  qed
qed

lemma digits_no_minus:
  assumes "2 \<le> base" "base \<le> 16"
  shows "45 \<notin> set (digits_rev base x) \<and> digits_rev base x \<noteq> []"
  using assms
proof (induction base x rule: digits_rev.induct)
  case (1 base x)
  have "digit (x mod base) \<noteq> 45"
    using 1(2,3) by (intro digit_not_minus) (use mod_less_divisor [of base x] in linarith)
  then show ?case
    using 1 by (subst (1 2) digits_rev.simps) auto
qed

lemma sint_neg_unat:
  fixes xx :: u32
  assumes "sint xx < 0"
  shows "int (unat (- xx)) = - sint xx"
proof -
  have "- xx = word_of_int (- sint xx)"
    by simp
  moreover have "uint (word_of_int (- sint xx) :: u32) = - sint xx"
    using assms sint_greater_eq [of xx]
    by (simp add: unsigned_of_int take_bit_int_eq_self del: of_int_minus)
  ultimately show ?thesis
    by simp
qed

lemma sint_nonneg_uint:
  fixes xx :: u32
  assumes "\<not> sint xx < 0"
  shows "sint xx = uint xx"
proof -
  have "uint (word_of_int (sint xx) :: u32) = sint xx"
    using assms sint_less [of xx]
    by (subst unsigned_of_int) (simp add: take_bit_int_eq_self)
  then show ?thesis by simp
qed

lemma length_digits: "x < base ^ Suc n \<Longrightarrow> 2 \<le> base \<Longrightarrow> length (digits_rev base x) \<le> Suc n"
proof (induction n arbitrary: x)
  case 0
  then show ?case by (subst digits_rev.simps) simp
next
  case (Suc n)
  have "x div base < base ^ Suc n"
    using Suc.prems by (simp add: less_mult_imp_div_less mult.commute)
  then show ?case
    using Suc.IH [of "x div base"] Suc.prems(2) by (subst digits_rev.simps) auto
qed

lemma printint_buf_length: "10 \<le> base \<Longrightarrow> length (printint_buf xx base sign) \<le> 11"
proof -
  assume b: "10 \<le> base"
  have le: "length (digits_rev base (unat (x :: u32))) \<le> Suc 9" for x
  proof (rule length_digits)
    have "unat x < 2 ^ 32"
      using unsigned_less [of x, where ?'a = nat] by simp
    also have "(2 :: nat) ^ 32 < 10 ^ Suc 9" by simp
    also have "10 ^ Suc 9 \<le> base ^ Suc 9"
      using b by (rule power_mono) simp
    finally show "unat x < base ^ Suc 9" .
  qed (use b in simp)
  show ?thesis
    using le [of xx] le [of "- xx"] by (auto simp: printint_buf_def Let_def)
qed

lemma read_printint:
  assumes "2 \<le> base" "base \<le> 16"
  shows "read_number base (rev (printint_buf xx base sign)) = (if sign then sint xx else uint xx)"
proof -
  have nm: "45 \<notin> set (digits_rev base x)" "digits_rev base x \<noteq> []" for x
    using digits_no_minus [OF assms] by auto
  have pos: "read_number base (rev (digits_rev base x)) = int x" for x
  proof -
    obtain y ys where y: "rev (digits_rev base x) = y # ys"
      using nm(2) [of x] by (cases "rev (digits_rev base x)") auto
    then have "y \<in> set (digits_rev base x)" "rev (y # ys) = digits_rev base x"
      by (metis list.set_intros(1) set_rev, metis rev_rev_ident)
    moreover from this have "y \<noteq> 45"
      using nm(1) [of x] by auto
    ultimately show ?thesis
      unfolding read_number_def y using value_digits [OF assms, of x] by simp
  qed
  show ?thesis
  proof (cases "sign \<and> sint xx < 0")
    case True
    then show ?thesis
      using value_digits [OF assms] sint_neg_unat [of xx] by (simp add: printint_buf_def read_number_def)
  next
    case False
    then have "sign \<Longrightarrow> sint xx = uint xx"
      by (simp add: sint_nonneg_uint)
    then show ?thesis
      using False pos [of "unat xx"] by (auto simp: printint_buf_def)
  qed
qed

section \<open>Output on the console\<close>

definition idle_count :: "byte list \<Rightarrow> nat" where
  "idle_count l = length (filter (\<lambda>v. v AND LSR_TX_IDLE \<noteq> 0) l)"

text \<open>\<open>n\<close> bytes can be sent without waiting for ever.\<close>

definition out_ok :: "nat \<Rightarrow> kstate \<Rightarrow> bool" where
  "out_ok n s \<longleftrightarrow> lk_ok (lks s) \<and> \<not> panicked s \<and> n \<le> idle_count (uart_lsr (uartst s))"

definition printed :: "byte list \<Rightarrow> kstate \<Rightarrow> kstate \<Rightarrow> bool" where
  "printed bs s s' \<longleftrightarrow> (\<exists>vs l.
     s' = s\<lparr>uartst := (uartst s)\<lparr>uart_lsr := vs, uart_thr := uart_thr (uartst s) @ bs\<rparr>, lks := l\<rparr>
     \<and> lk_touch l = lk_touch (lks s) \<and> idle_count (uart_lsr (uartst s)) \<le> idle_count vs + length bs)"

lemma lsr_wait_idle: "0 < idle_count l \<Longrightarrow> \<exists>vs. lsr_wait l = Some vs \<and> idle_count l = Suc (idle_count vs)"
  by (induction l) (auto simp: idle_count_def)

lemma lk_ok_cong: "lk_touch l = lk_touch l' \<Longrightarrow> lk_ok l = lk_ok l'"
  by (metis lk_ok_touch)

lemma printed_refl [simp]: "printed [] s s"
  unfolding printed_def
  by (intro exI [of _ "uart_lsr (uartst s)"] exI [of _ "lks s"]) simp

lemma printed_trans:
  assumes "printed bs s s1" "printed cs s1 s2"
  shows "printed (bs @ cs) s s2"
proof -
  obtain vs l where 1: "s1 = s\<lparr>uartst := (uartst s)\<lparr>uart_lsr := vs, uart_thr := uart_thr (uartst s) @ bs\<rparr>, lks := l\<rparr>"
    "lk_touch l = lk_touch (lks s)" "idle_count (uart_lsr (uartst s)) \<le> idle_count vs + length bs"
    using assms(1) by (auto simp: printed_def)
  obtain vs' l' where 2: "s2 = s1\<lparr>uartst := (uartst s1)\<lparr>uart_lsr := vs', uart_thr := uart_thr (uartst s1) @ cs\<rparr>, lks := l'\<rparr>"
    "lk_touch l' = lk_touch (lks s1)" "idle_count (uart_lsr (uartst s1)) \<le> idle_count vs' + length cs"
    using assms(2) by (auto simp: printed_def)
  show ?thesis
    unfolding printed_def using 1 2 by (intro exI [of _ vs'] exI [of _ l']) simp
qed

lemma printed_out_ok: "printed bs s s' \<Longrightarrow> out_ok (length bs + n) s \<Longrightarrow> out_ok n s'"
  by (auto simp: printed_def out_ok_def dest: lk_ok_cong)

lemma uartputc_sync_printed:
  assumes "out_ok (Suc n) s"
  shows "wp (uartputc_sync c) (\<lambda>_. printed [word_of_int c] s) s"
proof -
  obtain vs where vs: "lsr_wait (uart_lsr (uartst s)) = Some vs"
    "idle_count (uart_lsr (uartst s)) = Suc (idle_count vs)"
    using assms lsr_wait_idle [of "uart_lsr (uartst s)"] by (auto simp: out_ok_def)
  then have "uartputc_sync c s = Ok () (s\<lparr>uartst := (uartst s)\<lparr>uart_lsr := vs,
     uart_thr := uart_thr (uartst s) @ [word_of_int c]\<rparr>, lks := lk_touch (lks s)\<rparr>)"
    using assms
    by (simp add: uartputc_sync_def push_off_Ok upd_uart_def write_thr_def out_ok_def
        pop_off_push [of "lks s"])
  then show ?thesis
    unfolding wp_def using vs(2)
    by (auto simp: printed_def intro!: exI [of _ vs] exI [of _ "lk_touch (lks s)"])
qed

lemma put_bytes_printed:
  assumes "out_ok (length bs + n) s"
  shows "wp (forM bs (\<lambda>c. consputc (uint c))) (\<lambda>_. printed bs s) s"
  using assms
proof (induction bs arbitrary: s)
  case Nil
  then show ?case by simp
next
  case (Cons b bs)
  have "uint b \<noteq> BACKSPACE"
    using unsigned_less [of b, where ?'a = int] by simp
  then have 1: "wp (consputc (uint b)) (\<lambda>_. printed [b] s) s"
    using uartputc_sync_printed [of "length bs + n" s "uint b"] Cons.prems by (simp add: consputc_def)
  have "wp (consputc (uint b)) (\<lambda>_. wp (forM bs (\<lambda>c. consputc (uint c))) (\<lambda>_. printed (b # bs) s)) s"
  proof (rule wp_mono [OF 1])
    fix a s'
    assume p: "printed [b] s s'"
    then have "out_ok (length bs + n) s'"
      using Cons.prems printed_out_ok [OF p, of "length bs + n"] by simp
    from Cons.IH [OF this] show "wp (forM bs (\<lambda>c. consputc (uint c))) (\<lambda>_. printed (b # bs) s) s'"
      by (rule wp_mono) (use printed_trans [OF p] in simp)
  qed
  then show "wp (forM (b # bs) (\<lambda>c. consputc (uint c))) (\<lambda>_. printed (b # bs) s) s"
    by (simp only: forM.simps wp_seq)
qed

text \<open>C14: \<open>printint\<close> prints numbers that read back: when the transmitter can take the bytes, what
  it sends to the device, read as an optionally signed number in the base, is the value
  of the argument, for every 32-bit value including the most negative one, in at most 11
  bytes, so \<open>buf[16]\<close> never overflows.\<close>

theorem printint_roundtrip:
  assumes "out_ok 11 s" and "base = 10 \<or> base = 16"
  shows "wp (printint xx base sign) (\<lambda>_ s'. \<exists>bs. printed bs s s' \<and> length bs \<le> 11
     \<and> read_number base bs = (if sign then sint xx else uint xx)) s"
proof -
  let ?bs = "rev (printint_buf xx base sign)"
  have len: "length ?bs \<le> 11"
    using assms(2) printint_buf_length [of base xx sign] by auto
  then have "out_ok (length ?bs + (11 - length ?bs)) s"
    using assms(1) by simp
  from put_bytes_printed [OF this] show ?thesis
    unfolding printint_def
    by (rule wp_mono) (use len read_printint [of base xx sign] assms(2) in auto)
qed

theorem printint_roundtrip_witness:
  "wp (printint 0x80000000 10 True) (\<lambda>_ s'. \<exists>bs. printed bs (zero_state\<lparr>uartst :=
       (uartst zero_state)\<lparr>uart_lsr := replicate 11 32\<rparr>\<rparr>) s' \<and> read_number 10 bs = - 2147483648)
     (zero_state\<lparr>uartst := (uartst zero_state)\<lparr>uart_lsr := replicate 11 32\<rparr>\<rparr>)"
proof -
  let ?s = "zero_state\<lparr>uartst := (uartst zero_state)\<lparr>uart_lsr := replicate 11 32\<rparr>\<rparr>"
  have "out_ok 11 ?s"
    by (simp add: out_ok_def idle_count_def) (simp add: zero_state_def)
  then have "wp (printint 0x80000000 10 True) (\<lambda>_ s'. \<exists>bs. printed bs ?s s' \<and> length bs \<le> 11
     \<and> read_number 10 bs = (if True then sint (0x80000000 :: u32) else uint (0x80000000 :: u32))) ?s"
    by (rule printint_roundtrip) simp
  then show ?thesis
    by (rule wp_mono) (simp, blast)
qed

end
