(* ===== verification/Console.thy ===== *)
theory Console
  imports Printf
begin

text \<open>
  \<open>kernel/console.c\<close> and \<open>uartintr\<close>: console input and output.  \<open>cons.r\<close>, \<open>cons.w\<close> and \<open>cons.e\<close> are
  unsigned counters that wrap; the buffer is indexed by them modulo 128.
\<close>

section \<open>Definitions\<close>

definition upd_cons :: "(cons \<Rightarrow> cons) \<Rightarrow> unit k" where
  "upd_cons f = modify (\<lambda>s. s\<lparr>consst := f (consst s)\<rparr>)"

definition cbuf :: "cons \<Rightarrow> u32 \<Rightarrow> byte" where
  "cbuf c i = cons_buf c (unat (i mod INPUT_BUF))"

fun consolewrite_from :: "bool \<Rightarrow> u64 \<Rightarrow> int \<Rightarrow> nat \<Rightarrow> int k" where
  "consolewrite_from user_src src i 0 = return i"
| "consolewrite_from user_src src i (Suc m) =
     bind (either_copyin (\<lambda>_. 0) user_src (src + word_of_int i) 1) (\<lambda>(r, c).
     if r = - 1 then return i
     else seq (uartputc (uint (c 0))) (consolewrite_from user_src src (i + 1) m))"

definition consolewrite :: "bool \<Rightarrow> u64 \<Rightarrow> int \<Rightarrow> int k" where
  "consolewrite user_src src n =
     seq (acquire LCons) (
     bind (consolewrite_from user_src src 0 (nat n)) (\<lambda>i.
     seq (release LCons) (return i)))"

text \<open>The loop of \<open>consoleread\<close> that waits for input: the result says that the process was
  killed, in which case the lock has been released.\<close>

fun consoleread_wait :: "nat \<Rightarrow> bool k" where
  "consoleread_wait n =
     bind (gets (\<lambda>s. cons_r (consst s) = cons_w (consst s))) (\<lambda>e.
     if \<not> e then return False
     else bind curproc (\<lambda>p.
       bind (gets (\<lambda>s. killed (procs s p))) (\<lambda>kd.
       if kd then seq (release LCons) (return True)
       else (case n of 0 \<Rightarrow> spin
         | Suc n' \<Rightarrow> seq (sleep ChCons LCons) (consoleread_wait n')))))"

declare consoleread_wait.simps [simp del]

definition consoleread_end :: "nat \<Rightarrow> nat \<Rightarrow> int k" where
  "consoleread_end target n = seq (release LCons) (return (int target - int n))"

fun consoleread_loop :: "nat \<Rightarrow> nat \<Rightarrow> bool \<Rightarrow> u64 \<Rightarrow> int k" where
  "consoleread_loop target 0 user_dst dst = consoleread_end target 0"
| "consoleread_loop target (Suc n) user_dst dst =
     bind (gets wake_bound) (\<lambda>wb.
     bind (consoleread_wait wb) (\<lambda>kd.
     if kd then return (- 1)
     else
       bind (gets (\<lambda>s. cbuf (consst s) (cons_r (consst s)))) (\<lambda>c.
       seq (upd_cons (\<lambda>x. x\<lparr>cons_r := cons_r x + 1\<rparr>)) (
       if c = 4 then
         seq (whenM (Suc n < target) (upd_cons (\<lambda>x. x\<lparr>cons_r := cons_r x - 1\<rparr>)))
         (consoleread_end target (Suc n))
       else
         bind (either_copyout user_dst dst (\<lambda>_. c) 1) (\<lambda>r.
         if r = - 1 then consoleread_end target (Suc n)
         else if c = 10 then consoleread_end target n
         else consoleread_loop target n user_dst (dst + 1))))))"

definition consoleread :: "bool \<Rightarrow> u64 \<Rightarrow> int \<Rightarrow> int k" where
  "consoleread user_dst dst n =
     seq (acquire LCons) (consoleread_loop (nat n) (nat n) user_dst dst)"

text \<open>Ctrl-U: each round moves \<open>cons.e\<close> one step back towards \<open>cons.w\<close>.\<close>

fun kill_line :: "nat \<Rightarrow> unit k" where
  "kill_line 0 = return ()"
| "kill_line (Suc n) =
     bind (gets consst) (\<lambda>x.
     if cons_e x \<noteq> cons_w x \<and> cbuf x (cons_e x - 1) \<noteq> 10
     then seq (upd_cons (\<lambda>x. x\<lparr>cons_e := cons_e x - 1\<rparr>)) (seq (consputc BACKSPACE) (kill_line n))
     else return ())"

definition cons_store :: "byte \<Rightarrow> cons \<Rightarrow> cons" where
  "cons_store c x = x\<lparr>cons_buf := (cons_buf x)(unat (cons_e x mod INPUT_BUF) := c),
                      cons_e := cons_e x + 1\<rparr>"

definition cons_input :: "int \<Rightarrow> unit k" where
  "cons_input c' =
     seq (consputc c') (
     seq (upd_cons (cons_store (word_of_int c'))) (
     bind (gets consst) (\<lambda>x.
     whenM (c' = 10 \<or> c' = 4 \<or> cons_e x = cons_r x + INPUT_BUF)
       (seq (upd_cons (\<lambda>x. x\<lparr>cons_w := cons_e x\<rparr>)) (wakeup ChCons)))))"

definition cons_switch :: "int \<Rightarrow> unit k" where
  "cons_switch c =
     (if c = 16 then procdump
      else if c = 21 then
        bind (gets (\<lambda>s. unat (cons_e (consst s) - cons_w (consst s)))) kill_line
      else if c = 8 \<or> c = 127 then
        bind (gets consst) (\<lambda>x.
        whenM (cons_e x \<noteq> cons_w x)
          (seq (upd_cons (\<lambda>x. x\<lparr>cons_e := cons_e x - 1\<rparr>)) (consputc BACKSPACE)))
      else
        bind (gets consst) (\<lambda>x.
        whenM (c \<noteq> 0 \<and> cons_e x - cons_r x < INPUT_BUF) (cons_input (if c = 13 then 10 else c))))"

definition consoleintr :: "int \<Rightarrow> unit k" where
  "consoleintr c = seq (acquire LCons) (seq (cons_switch c) (release LCons))"

abbreviation (input) CONSOLE :: nat where "CONSOLE \<equiv> 1"

definition consoleinit :: "unit k" where
  "consoleinit =
     seq (initlock LCons ''cons'') (
     seq uartinit (
     seq (modify (\<lambda>s. s\<lparr>devsws := (devsws s)(CONSOLE := (devsws s CONSOLE)\<lparr>dev_read := Some DevConsole\<rparr>)\<rparr>))
     (modify (\<lambda>s. s\<lparr>devsws := (devsws s)(CONSOLE := (devsws s CONSOLE)\<lparr>dev_write := Some DevConsole\<rparr>)\<rparr>))))"

text \<open>Every round of \<open>uartintr\<close> reads the line status register, so it ends with the last answer
  that the device has in store.\<close>

fun uartintr_loop :: "nat \<Rightarrow> unit k" where
  "uartintr_loop 0 = spin"
| "uartintr_loop (Suc n) =
     bind uartgetc (\<lambda>c. if c = - 1 then return () else seq (consoleintr c) (uartintr_loop n))"

definition uartintr :: "unit k" where
  "uartintr =
     bind (gets (\<lambda>s. length (uart_lsr (uartst s)))) (\<lambda>n.
     seq (uartintr_loop (Suc n)) (
     seq (acquire LUartTx) (
     seq uartstart
     (release LUartTx))))"

section \<open>The line discipline\<close>

text \<open>What the console promises: finished input waits to be read, and the line being typed can
  still be edited.  Ctrl-H and DEL drop its last character, Ctrl-U drops all of it, a
  newline, Ctrl-D or a full buffer finishes it, and a carriage return counts as newline.\<close>

type_synonym line_state = "byte list \<times> byte list"

definition line_step :: "int \<Rightarrow> line_state \<Rightarrow> line_state" where
  "line_step c st0 = (case st0 of (ready, edit) \<Rightarrow>
     if c = 21 then (ready, [])
     else if c = 8 \<or> c = 127 then (ready, butlast edit)
     else if c = 0 \<or> 128 \<le> length ready + length edit then (ready, edit)
     else
       let c' = (if c = 13 then 10 else c); edit' = edit @ [word_of_int c'] in
       if c' = 10 \<or> c' = 4 \<or> length ready + length edit' = 128 then (ready @ edit', [])
       else (ready, edit'))"

definition cons_all :: "cons \<Rightarrow> byte list" where
  "cons_all x = ring_list (cons_buf x) 128 (unat (cons_r x)) (unat (cons_e x - cons_r x))"

definition cons_ready :: "cons \<Rightarrow> byte list" where
  "cons_ready x = take (unat (cons_w x - cons_r x)) (cons_all x)"

definition cons_edit :: "cons \<Rightarrow> byte list" where
  "cons_edit x = drop (unat (cons_w x - cons_r x)) (cons_all x)"

definition cons_abs :: "cons \<Rightarrow> line_state" where
  "cons_abs x = (cons_ready x, cons_edit x)"

definition cons_inv :: "cons \<Rightarrow> bool" where
  "cons_inv x \<longleftrightarrow> unat (cons_w x - cons_r x) \<le> unat (cons_e x - cons_r x)
     \<and> unat (cons_e x - cons_r x) \<le> 128 \<and> 10 \<notin> set (cons_edit x)"

lemma unat_add_mod128: "unat (a + b :: u32) mod 128 = (unat a + unat b) mod 128"
proof -
  have "(128 :: nat) dvd 2 ^ 32" by simp
  then show ?thesis
    by (simp add: unat_word_ariths mod_mod_cancel)
qed

lemma cbuf_index: "unat (i mod INPUT_BUF) = unat (i :: u32) mod 128"
  by (simp add: unat_mod)

lemma e_index: "unat (cons_e x) mod 128 = (unat (cons_r x) + unat (cons_e x - cons_r x)) mod 128"
  using unat_add_mod128 [of "cons_r x" "cons_e x - cons_r x"] by simp

lemma unat_pred: "(a :: u32) \<noteq> 0 \<Longrightarrow> unat (a - 1) = unat a - 1"
  by (simp add: unat_sub word_le_nat_alt unat_gt_0 Suc_leI)

lemma length_cons_all [simp]: "length (cons_all x) = unat (cons_e x - cons_r x)"
  by (simp add: cons_all_def)

text \<open>Moving \<open>cons.e\<close> back drops the last character.\<close>

definition cons_back :: "cons \<Rightarrow> cons" where
  "cons_back x = x\<lparr>cons_e := cons_e x - 1\<rparr>"

lemma cons_e_r: "cons_inv x \<Longrightarrow> cons_e x \<noteq> cons_w x \<longleftrightarrow> cons_edit x \<noteq> []"
proof -
  assume i: "cons_inv x"
  have "cons_edit x = [] \<longleftrightarrow> unat (cons_e x - cons_r x) = unat (cons_w x - cons_r x)"
    using i by (auto simp: cons_edit_def cons_inv_def)
  also have "\<dots> \<longleftrightarrow> cons_e x = cons_w x"
    by (metis word_unat_eq_iff diff_add_cancel)
  finally show ?thesis by blast
qed

lemma cons_back_all:
  assumes "cons_e x \<noteq> cons_r x"
  shows "cons_all (cons_back x) = butlast (cons_all x)"
    and "last (cons_all x) = cbuf x (cons_e x - 1)"
proof -
  have u: "unat (cons_e x - cons_r x) = Suc (unat (cons_e x - 1 - cons_r x))"
  proof -
    have "0 < unat (cons_e x - cons_r x)"
      using assms by (simp add: unat_gt_0)
    then show ?thesis
      using unat_pred [of "cons_e x - cons_r x"] assms by (simp add: algebra_simps)
  qed
  then show "cons_all (cons_back x) = butlast (cons_all x)"
    by (simp add: cons_all_def cons_back_def ring_list_def)
  have "unat (cons_e x - 1) mod 128 = (unat (cons_r x) + unat (cons_e x - 1 - cons_r x)) mod 128"
    using unat_add_mod128 [of "cons_r x" "cons_e x - 1 - cons_r x"] by simp
  then show "last (cons_all x) = cbuf x (cons_e x - 1)"
    using u by (simp add: cons_all_def ring_list_def cbuf_def cbuf_index)
qed

lemma cons_back_abs:
  assumes "cons_inv x" "cons_e x \<noteq> cons_w x"
  shows "cons_inv (cons_back x)" "cons_ready (cons_back x) = cons_ready x"
    "cons_edit (cons_back x) = butlast (cons_edit x)" "last (cons_edit x) = cbuf x (cons_e x - 1)"
proof -
  have ne: "cons_edit x \<noteq> []" and le: "unat (cons_w x - cons_r x) < unat (cons_e x - cons_r x)"
    using assms cons_e_r [OF assms(1)] by (auto simp: cons_edit_def)
  then have er: "cons_e x \<noteq> cons_r x" by auto
  note b = cons_back_all [OF er]
  show r: "cons_ready (cons_back x) = cons_ready x"
    using le b(1) by (simp add: cons_ready_def take_butlast cons_back_def)
  show e: "cons_edit (cons_back x) = butlast (cons_edit x)"
    using b(1) by (simp add: cons_edit_def drop_butlast cons_back_def)
  show "last (cons_edit x) = cbuf x (cons_e x - 1)"
    using le b(2) by (simp add: cons_edit_def)
  have "unat (cons_e (cons_back x) - cons_r x) = unat (cons_e x - cons_r x) - 1"
    using arg_cong [OF b(1), of length] by (simp add: cons_back_def)
  then show "cons_inv (cons_back x)"
    using assms(1) le e by (auto simp: cons_inv_def cons_back_def dest: in_set_butlastD)
qed

lemma cons_store_all:
  assumes "unat (cons_e x - cons_r x) < 128"
  shows "cons_all (cons_store c x) = cons_all x @ [c]"
proof -
  have "unat (cons_e x + 1 - cons_r x) = Suc (unat (cons_e x - cons_r x))"
  proof -
    have "unat (cons_e x - cons_r x + 1) = Suc (unat (cons_e x - cons_r x))"
      using assms by (simp add: unat_word_ariths(1))
    then show ?thesis by (simp add: algebra_simps)
  qed
  then show ?thesis
    using ring_list_put [OF assms, of "cons_buf x" "unat (cons_r x)" c]
    by (simp add: cons_all_def cons_store_def cbuf_index e_index)
qed

section \<open>The interrupt handler implements it\<close>

lemma printed_held: "printed bs s s' \<Longrightarrow> 0 < noff (curcpu (lks s)) \<Longrightarrow> lks s' = lks s"
proof -
  assume p: "printed bs s s'" "0 < noff (curcpu (lks s))"
  then have t: "lk_touch (lks s') = lk_touch (lks s)"
    by (auto simp: printed_def)
  then have "noff (curcpu (lks s')) = noff (curcpu (lks s))"
    by (metis touch_fields(2,4))
  then show ?thesis
    using p(2) t by simp
qed

lemma printed_frame: "printed bs s s' \<Longrightarrow> consst s' = consst s \<and> procs s' = procs s"
  by (auto simp: printed_def)

lemma consputc_printed:
  assumes "out_ok (3 + n) s"
  shows "wp (consputc c) (\<lambda>_ s'. \<exists>bs. length bs \<le> 3 \<and> printed bs s s') s"
proof (cases "c = BACKSPACE")
  case True
  have "wp (forM [8, 32, 8 :: byte] (\<lambda>c. consputc (uint c))) (\<lambda>_. printed [8, 32, 8] s) s"
    using put_bytes_printed [of "[8, 32, 8]" n s] assms by (simp add: numeral_3_eq_3)
  then have "wp (consputc c) (\<lambda>_. printed [8, 32, 8] s) s"
    using True by (simp add: forM.simps consputc_def)
  then show ?thesis
    by (rule wp_mono) (auto intro!: exI [of _ "[8, 32, 8]"])
next
  case False
  have "wp (uartputc_sync c) (\<lambda>_. printed [word_of_int c] s) s"
    using assms by (intro uartputc_sync_printed [where n = "2 + n"]) (simp add: eval_nat_numeral)
  then have "wp (consputc c) (\<lambda>_. printed [word_of_int c] s) s"
    using False by (simp add: consputc_def)
  then show ?thesis
    by (rule wp_mono) (auto intro!: exI [of _ "[word_of_int c]"])
qed

text \<open>What the handler may assume while it holds the lock, and what stays the same.\<close>

definition cons_run :: "nat \<Rightarrow> lkstate \<Rightarrow> kstate \<Rightarrow> bool" where
  "cons_run n l s \<longleftrightarrow> out_ok n s \<and> procs_free s \<and> lks s = l \<and> 0 < noff (curcpu l) \<and> cons_inv (consst s)"

lemma consputc_run:
  assumes "cons_run (3 + n) l s"
  shows "wp (consputc c) (\<lambda>_ s'. cons_run n l s' \<and> consst s' = consst s \<and> procs s' = procs s) s"
proof (rule wp_mono [OF consputc_printed [of n s]])
  show "out_ok (3 + n) s"
    using assms by (simp add: cons_run_def)
  fix a s'
  assume "\<exists>bs. length bs \<le> 3 \<and> printed bs s s'"
  then obtain bs where bs: "length bs \<le> 3" "printed bs s s'"
    by blast
  then have l: "lks s' = lks s" "consst s' = consst s" "procs s' = procs s"
    using printed_held [OF bs(2)] printed_frame [OF bs(2)] assms by (auto simp: cons_run_def)
  moreover have "out_ok n s'"
    using printed_out_ok [OF bs(2), of n] bs(1) assms by (auto simp: cons_run_def out_ok_def)
  ultimately show "cons_run n l s' \<and> consst s' = consst s \<and> procs s' = procs s"
    using assms by (auto simp: cons_run_def procs_free_def)
qed

lemma cons_run_consst:
  "cons_run n l s \<Longrightarrow> cons_inv x \<Longrightarrow> cons_run n l (s\<lparr>consst := x\<rparr>)"
  by (auto simp: cons_run_def out_ok_def procs_free_def)

lemma cons_run_mono: "cons_run n l s \<Longrightarrow> m \<le> n \<Longrightarrow> cons_run m l s"
  by (auto simp: cons_run_def out_ok_def)

lemma kill_line_run:
  assumes "cons_run (3 * m + n) l s" "length (cons_edit (consst s)) \<le> m"
  shows "wp (kill_line m) (\<lambda>_ s'. cons_run n l s' \<and> cons_abs (consst s') = (cons_ready (consst s), [])) s"
  using assms
proof (induction m arbitrary: s)
  case 0
  then show ?case by (simp add: cons_abs_def)
next
  case (Suc m)
  let ?x = "consst s"
  let ?Q = "\<lambda>_ s'. cons_run n l s' \<and> cons_abs (consst s') = (cons_ready ?x, [])"
  have i: "cons_inv ?x"
    using Suc.prems by (simp add: cons_run_def)
  show "wp (kill_line (Suc m)) ?Q s"
  proof (cases "cons_e ?x = cons_w ?x")
    case True
    then have "cons_edit ?x = []"
      using cons_e_r [OF i] by blast
    moreover have "cons_run n l s"
      using Suc.prems(1) by (auto simp: cons_run_def out_ok_def)
    ultimately show ?thesis
      using True by (simp add: cons_abs_def)
  next
    case False
    note b = cons_back_abs [OF i False]
    have ne: "cons_edit ?x \<noteq> []"
      using False cons_e_r [OF i] by blast
    then have nl: "cbuf ?x (cons_e ?x - 1) \<noteq> 10"
      using i b(4) by (metis cons_inv_def last_in_set)
    let ?s = "s\<lparr>consst := cons_back ?x\<rparr>"
    have "cons_run (3 + (3 * m + n)) l ?s"
      using cons_run_consst [OF Suc.prems(1) b(1)] by (simp add: algebra_simps)
    then have "wp (consputc BACKSPACE) (\<lambda>_. wp (kill_line m) ?Q) ?s"
    proof (rule wp_mono [OF consputc_run])
      fix a s'
      assume s': "cons_run (3 * m + n) l s' \<and> consst s' = consst ?s \<and> procs s' = procs ?s"
      then have "length (cons_edit (consst s')) \<le> m"
        using Suc.prems(2) b(3) by simp
      then show "wp (kill_line m) ?Q s'"
        using Suc.IH [of s'] s' b(2) by simp
    qed
    then show ?thesis
      using False nl by (simp add: upd_cons_def cons_back_def)
  qed
qed

lemma back_run:
  assumes "cons_run (3 + n) l s" "cons_e (consst s) \<noteq> cons_w (consst s)"
  shows "wp (seq (upd_cons (\<lambda>x. x\<lparr>cons_e := cons_e x - 1\<rparr>)) (consputc BACKSPACE))
     (\<lambda>_ s'. cons_run n l s'
        \<and> cons_abs (consst s') = (cons_ready (consst s), butlast (cons_edit (consst s)))) s"
proof -
  let ?x = "consst s"
  note b = cons_back_abs [of ?x]
  have i: "cons_inv ?x"
    using assms by (simp add: cons_run_def)
  have "wp (consputc BACKSPACE) (\<lambda>_ s'. cons_run n l s'
        \<and> cons_abs (consst s') = (cons_ready ?x, butlast (cons_edit ?x))) (s\<lparr>consst := cons_back ?x\<rparr>)"
    by (rule wp_mono [OF consputc_run [OF cons_run_consst [OF assms(1) b(1) [OF i assms(2)]]]])
       (use b(2,3) [OF i assms(2)] in \<open>simp add: cons_abs_def\<close>)
  then show ?thesis
    by (simp add: upd_cons_def cons_back_def)
qed

definition cons_commit :: "cons \<Rightarrow> cons" where
  "cons_commit x = x\<lparr>cons_w := cons_e x\<rparr>"

lemma cons_commit_abs:
  assumes "unat (cons_e x - cons_r x) \<le> 128"
  shows "cons_inv (cons_commit x)" "cons_abs (cons_commit x) = (cons_all x, [])"
  using assms
  by (simp_all add: cons_inv_def cons_abs_def cons_commit_def cons_ready_def cons_edit_def)
     (simp_all add: cons_all_def)

lemma cons_store_abs:
  assumes "cons_inv x" "unat (cons_e x - cons_r x) < 128"
  shows "cons_all (cons_store c x) = cons_ready x @ cons_edit x @ [c]"
    "cons_abs (cons_store c x) = (cons_ready x, cons_edit x @ [c])"
    "c \<noteq> 10 \<Longrightarrow> cons_inv (cons_store c x)"
    "unat (cons_e (cons_store c x) - cons_r x) = Suc (unat (cons_e x - cons_r x))"
proof -
  note a = cons_store_all [OF assms(2), of c]
  have f: "cons_w (cons_store c x) = cons_w x" "cons_r (cons_store c x) = cons_r x"
    by (simp_all add: cons_store_def)
  have le: "unat (cons_w x - cons_r x) \<le> length (cons_all x)"
    using assms(1) by (simp add: cons_inv_def)
  show "cons_all (cons_store c x) = cons_ready x @ cons_edit x @ [c]"
    using a by (simp add: cons_ready_def cons_edit_def)
  show e: "cons_abs (cons_store c x) = (cons_ready x, cons_edit x @ [c])"
    using a le by (simp add: cons_abs_def cons_ready_def cons_edit_def f)
  show n: "unat (cons_e (cons_store c x) - cons_r x) = Suc (unat (cons_e x - cons_r x))"
    using arg_cong [OF a, of length] by (simp add: f)
  show "cons_inv (cons_store c x)" if "c \<noteq> 10"
    using assms e n that by (simp add: cons_inv_def f cons_abs_def)
qed

lemma length_abs: "cons_inv x \<Longrightarrow> length (cons_ready x) + length (cons_edit x) = unat (cons_e x - cons_r x)"
  by (simp add: cons_ready_def cons_edit_def cons_inv_def)

lemma input_lt: "(a :: u32) < 128 \<longleftrightarrow> unat a < 128"
  by (simp add: word_less_nat_alt)

lemma full_iff: "cons_e x = cons_r x + INPUT_BUF \<longleftrightarrow> unat (cons_e x - cons_r x) = 128"
proof -
  have "cons_e x = cons_r x + INPUT_BUF \<longleftrightarrow> cons_e x - cons_r x = 128"
    by (auto simp: algebra_simps)
  then show ?thesis by (simp add: word_unat_eq_iff)
qed

lemma byte_newline:
  assumes "0 \<le> c" "c < 256" "c \<noteq> 10"
  shows "(word_of_int c :: byte) \<noteq> 10"
proof
  assume "(word_of_int c :: byte) = 10"
  then have "uint (word_of_int c :: byte) = 10" by simp
  moreover have "uint (word_of_int c :: byte) = c"
    using assms by (simp add: unsigned_of_int take_bit_int_eq_self)
  ultimately show False using assms(3) by simp
qed

lemma cons_input_run:
  assumes "cons_run (3 + n) l s" "0 \<le> c" "c < 256"
    and "unat (cons_e (consst s) - cons_r (consst s)) < 128"
  shows "wp (cons_input c) (\<lambda>_ s'. lks s' = l \<and> cons_inv (consst s') \<and> cons_abs (consst s') =
     (let r = cons_ready (consst s); e = cons_edit (consst s) @ [word_of_int c] in
      if c = 10 \<or> c = 4 \<or> length r + length e = 128 then (r @ e, []) else (r, e))) s"
proof -
  define x where "x = consst s"
  define y where "y = cons_store (word_of_int c) x"
  define fin where "fin \<longleftrightarrow> c = 10 \<or> c = 4 \<or> cons_e y = cons_r y + INPUT_BUF"
  let ?R = "let r = cons_ready x; e = cons_edit x @ [word_of_int c] in
      if c = 10 \<or> c = 4 \<or> length r + length e = 128 then (r @ e, []) else (r, e)"
  let ?Q = "\<lambda>_ s'. lks s' = l \<and> cons_inv (consst s') \<and> cons_abs (consst s') = ?R"
  have i: "cons_inv x" and lt: "unat (cons_e x - cons_r x) < 128"
    using assms(1,4) by (simp_all add: cons_run_def x_def)
  note stored = cons_store_abs [OF i lt, of "word_of_int c", folded y_def]
  have r: "cons_r y = cons_r x"
    by (simp add: cons_store_def y_def)
  have full: "fin \<longleftrightarrow> c = 10 \<or> c = 4 \<or> length (cons_ready x) + length (cons_edit x @ [word_of_int c]) = 128"
    unfolding full_iff fin_def using length_abs [OF i] stored(4) r by simp
  have cm: "cons_inv (cons_commit y)" "cons_abs (cons_commit y) = (cons_all y, [])"
    using cons_commit_abs [of y] stored(4) lt r by auto
  have nc: "cons_inv y" if "\<not> fin"
    using stored(3) byte_newline that assms(2,3) by (simp add: fin_def)
  have "wp (upd_cons (cons_store (word_of_int c))) (\<lambda>_. wp (bind (gets consst) (\<lambda>x.
       whenM (c = 10 \<or> c = 4 \<or> cons_e x = cons_r x + INPUT_BUF)
       (seq (upd_cons (\<lambda>x. x\<lparr>cons_w := cons_e x\<rparr>)) (wakeup ChCons)))) ?Q) s'"
    if s': "cons_run n l s'" "consst s' = x" for s'
  proof -
    let ?s2 = "s'\<lparr>consst := cons_commit y\<rparr>"
    have pf: "procs_free ?s2" and l: "lks s' = l" "lk_touch l = l"
      using s' by (auto simp: cons_run_def procs_free_def)
    have w: "wakeup ChCons ?s2 = Ok () (?s2\<lparr>procs := wake_all ChCons (procs s'), lks := l\<rparr>)"
      using wakeup_Ok [OF pf] l by simp
    have "wp (whenM fin (seq (upd_cons (\<lambda>x. x\<lparr>cons_w := cons_e x\<rparr>)) (wakeup ChCons))) ?Q (s'\<lparr>consst := y\<rparr>)"
    proof (cases fin)
      case True
      have "seq (upd_cons (\<lambda>x. x\<lparr>cons_w := cons_e x\<rparr>)) (wakeup ChCons) (s'\<lparr>consst := y\<rparr>) =
        Ok () (?s2\<lparr>procs := wake_all ChCons (procs s'), lks := l\<rparr>)"
        using w by (simp add: upd_cons_def cons_commit_def)
      then show ?thesis
        using True cm stored(1) full by (simp add: wp_def Let_def)
    next
      case False
      then show ?thesis
        using nc stored(2) full l by (simp add: Let_def)
    qed
    then show ?thesis
      using s'(2) by (simp add: upd_cons_def y_def fin_def)
  qed
  then have "wp (consputc c) (\<lambda>_. wp (seq (upd_cons (cons_store (word_of_int c))) (bind (gets consst) (\<lambda>x.
       whenM (c = 10 \<or> c = 4 \<or> cons_e x = cons_r x + INPUT_BUF)
       (seq (upd_cons (\<lambda>x. x\<lparr>cons_w := cons_e x\<rparr>)) (wakeup ChCons))))) ?Q) s"
    by (intro wp_mono [OF consputc_run [OF assms(1)]]) (simp only: wp_seq x_def)
  then show ?thesis
    unfolding cons_input_def x_def by (simp only: wp_seq)
qed

lemma cons_switch_run:
  assumes "cons_run 387 l s" and "cons_inv (consst s)" and "0 \<le> c" and "c < 256" and "c \<noteq> 16"
  shows "wp (cons_switch c) (\<lambda>_ s'. lks s' = l \<and> cons_inv (consst s')
    \<and> cons_abs (consst s') = line_step c (cons_abs (consst s))) s"
proof -
  let ?x = "consst s"
  let ?P = "\<lambda>s'. lks s' = l \<and> cons_inv (consst s') \<and> cons_abs (consst s') = line_step c (cons_abs ?x)"
  have l: "lks s = l" using assms(1) by (simp add: cons_run_def)
  consider (u) "c = 21" | (h) "c = 8 \<or> c = 127" | (d) "c \<noteq> 21" "\<not> (c = 8 \<or> c = 127)" by blast
  then show ?thesis
  proof cases
    case u
    let ?m = "unat (cons_e ?x - cons_w ?x)"
    have "cons_e ?x - cons_w ?x = (cons_e ?x - cons_r ?x) - (cons_w ?x - cons_r ?x)"
      by simp
    then have "?m = unat (cons_e ?x - cons_r ?x) - unat (cons_w ?x - cons_r ?x)"
      using assms(2) by (simp only: cons_inv_def unat_sub word_le_nat_alt)
    then have m: "?m \<le> 128" "length (cons_edit ?x) \<le> ?m"
      using assms(2) by (auto simp: cons_inv_def cons_edit_def)
    have "wp (kill_line ?m) (\<lambda>_ s'. cons_run 0 l s' \<and> cons_abs (consst s') = (cons_ready (consst s), [])) s"
      using m by (intro kill_line_run cons_run_mono [OF assms(1)]) simp_all
    then show ?thesis
      using u by (simp add: cons_switch_def, elim wp_mono) (simp add: cons_run_def line_step_def cons_abs_def)
  next
    case h
    then have c: "c \<noteq> 16" "c \<noteq> 21" by auto
    show ?thesis
    proof (cases "cons_e ?x = cons_w ?x")
      case True
      then have "cons_edit ?x = []"
        using cons_e_r [OF assms(2)] by blast
      then show ?thesis
        using h c True assms(2) l by (simp add: cons_switch_def line_step_def cons_abs_def)
    next
      case False
      have "wp (seq (upd_cons (\<lambda>x. x\<lparr>cons_e := cons_e x - 1\<rparr>)) (consputc BACKSPACE))
         (\<lambda>_ s'. cons_run 0 l s' \<and> cons_abs (consst s') = (cons_ready (consst s), butlast (cons_edit (consst s)))) s"
        using False by (intro back_run cons_run_mono [OF assms(1)]) simp_all
      then have "wp (seq (upd_cons (\<lambda>x. x\<lparr>cons_e := cons_e x - 1\<rparr>)) (consputc BACKSPACE)) (\<lambda>_. ?P) s"
        using h c by (elim wp_mono) (auto simp: cons_run_def line_step_def cons_abs_def)
      then show ?thesis
        using h c False by (simp add: cons_switch_def)
    qed
  next
    case d
    let ?c = "if c = 13 then 10 else c"
    show ?thesis
    proof (cases "c \<noteq> 0 \<and> cons_e ?x - cons_r ?x < INPUT_BUF")
      case False
      then show ?thesis
        using d assms(2,5) l length_abs [OF assms(2)] by (auto simp: cons_switch_def line_step_def cons_abs_def input_lt)
    next
      case True
      then have "wp (cons_input ?c) (\<lambda>_ s'. lks s' = l \<and> cons_inv (consst s') \<and> cons_abs (consst s') =
         (let r = cons_ready (consst s); e = cons_edit (consst s) @ [word_of_int ?c] in
          if ?c = 10 \<or> ?c = 4 \<or> length r + length e = 128 then (r @ e, []) else (r, e))) s"
        using assms(3,4) by (intro cons_input_run [where n = 0] cons_run_mono [OF assms(1)]) (auto simp: input_lt)
      then have "wp (cons_input ?c) (\<lambda>_. ?P) s"
        by (rule wp_mono)
           (use True d length_abs [OF assms(2)] in \<open>simp add: line_step_def cons_abs_def input_lt Let_def\<close>)
      then show ?thesis
        using True d assms(5) by (simp add: cons_switch_def)
    qed
  qed
qed

text \<open>C15: The console interrupt handler implements the line discipline: for every character but
  Ctrl-P, with room for its echo in the transmitter, \<open>consoleintr\<close> returns, the buffer
  indices stay consistent, and finished input and edited line change as \<open>line_step\<close> says.\<close>

theorem consoleintr_refines:
  assumes "procs_free s" and "\<not> locked (spinl (lks s) LCons)" and "cons_inv (consst s)"
    and "out_ok 387 s" and "0 \<le> c" and "c < 256" and "c \<noteq> 16"
  shows "wp (consoleintr c) (\<lambda>_ s'. cons_inv (consst s')
     \<and> cons_abs (consst s') = line_step c (cons_abs (consst s)) \<and> lks s' = lk_touch (lks s)) s"
proof -
  let ?l = "lk_acq LCons (lks s)" and ?x = "consst s"
  let ?s = "s\<lparr>lks := ?l\<rparr>"
  let ?P = "\<lambda>s'. lks s' = ?l \<and> cons_inv (consst s') \<and> cons_abs (consst s') = line_step c (cons_abs ?x)"
  have l: "lk_ok (lks s)" "0 \<le> noff (curcpu (lks s))"
    using assms(1) by (auto simp: procs_free_def lk_ok_def)
  have run: "cons_run 387 ?l ?s"
    using assms l by (auto simp: cons_run_def out_ok_def procs_free_def)
  have fin: "wp (release LCons) (\<lambda>_ s'. cons_inv (consst s')
     \<and> cons_abs (consst s') = line_step c (cons_abs ?x) \<and> lks s' = lk_touch (lks s)) s'" if "?P s'" for s'
    using that l assms(2) by (simp add: wp_def release_Ok [of "lks s"])
  have a: "acquire LCons s = Ok () ?s"
    using l assms(2) by (simp add: acquire_can)
  have "wp (cons_switch c) (\<lambda>_ s'. lks s' = ?l \<and> cons_inv (consst s')
      \<and> cons_abs (consst s') = line_step c (cons_abs (consst ?s))) ?s"
    using assms by (intro cons_switch_run run) simp_all
  then have "wp (seq (cons_switch c) (release LCons)) (\<lambda>_ s'. cons_inv (consst s')
     \<and> cons_abs (consst s') = line_step c (cons_abs ?x) \<and> lks s' = lk_touch (lks s)) ?s"
    unfolding wp_seq by (rule wp_mono) (rule fin, simp)
  then show ?thesis
    unfolding consoleintr_def wp_seq by (simp only: wp_def [of "acquire LCons"] a outcome.case)
qed

theorem consoleintr_refines_witness:
  "wp (consoleintr 65) (\<lambda>_ s'. cons_inv (consst s')
     \<and> cons_abs (consst s') = ([], [65]) \<and> lks s' = lk_touch zero_lks)
     (zero_state\<lparr>uartst := (uartst zero_state)\<lparr>uart_lsr := replicate 387 32\<rparr>\<rparr>)"
proof -
  let ?s = "zero_state\<lparr>uartst := (uartst zero_state)\<lparr>uart_lsr := replicate 387 32\<rparr>\<rparr>"
  have o: "out_ok 387 ?s"
    by (simp add: out_ok_def idle_count_def) (simp add: zero_state_def)
  have p: "procs_free ?s"
    by (simp add: procs_free_def)
  have c: "consst ?s = \<lparr>cons_buf = \<lambda>_. 0, cons_r = 0, cons_w = 0, cons_e = 0\<rparr>"
    by (simp add: zero_state_def)
  have i: "cons_inv (consst ?s)" "line_step 65 (cons_abs (consst ?s)) = ([], [65])"
    unfolding c by (simp_all add: cons_inv_def cons_edit_def cons_abs_def cons_ready_def cons_all_def line_step_def)
  have l: "\<not> locked (spinl (lks ?s) LCons)" "lks ?s = zero_lks"
    by (simp_all add: zero_state_def zero_lks_def)
  show ?thesis
    using consoleintr_refines [OF p l(1) i(1) o, of 65] unfolding l(2) i(2) by simp
qed

section \<open>Writing to a full transmit buffer\<close>

lemma sleep_two_locks:
  assumes "lk_ok l" and "0 < noff (curcpu l)" and "cpu_proc (curcpu l) = Some p" and "lk \<noteq> LProc p"
    and "\<not> locked (spinl l lk)" and "\<not> locked (spinl l (LProc p))" and "lks s = lk_acq lk l"
  shows "\<exists>s'. sleep ch lk s = Panic ''sched locks'' s'"
proof -
  have c: "curproc s = Ok p s"
    using assms by (simp add: curproc_Ok)
  have a: "acquire (LProc p) s = Ok () (s\<lparr>lks := lk_acq (LProc p) (lk_acq lk l)\<rparr>)"
    using assms by (simp add: acquire_can)
  have r: "release lk (s\<lparr>lks := lk_acq (LProc p) (lk_acq lk l)\<rparr>) = Ok () (s\<lparr>lks := lk_acq (LProc p) l\<rparr>)"
    using assms release_Ok [of "lk_acq (LProc p) l" lk "s\<lparr>lks := lk_acq (LProc p) (lk_acq lk l)\<rparr>"]
    by (simp add: lk_acq_commute)
  show ?thesis
    using assms by (simp add: sleep_def c a r upd_proc_def sched_def curproc_Ok holding_def mycpu_def cpuid_def)
qed

end
