(* ===== verification/File.thy ===== *)
theory File
  imports Inodes Pipe Console
begin

text \<open>
  \<open>kernel/file.c\<close> and \<open>pipealloc\<close> of \<open>kernel/pipe.c\<close>: the table of open files.  A \<open>struct file *\<close>
  is an index of \<open>ftable.file\<close>.
\<close>

section \<open>Definitions\<close>

definition upd_file :: "nat \<Rightarrow> (filest \<Rightarrow> filest) \<Rightarrow> unit k" where
  "upd_file f g = modify (\<lambda>s. s\<lparr>files := (files s)(f := g (files s f))\<rparr>)"

definition fileinit :: "unit k" where
  "fileinit = initlock LFtable ''ftable''"

definition filealloc :: "nat option k" where
  "filealloc =
     seq (acquire LFtable) (
     bind (gets (\<lambda>s. find (\<lambda>f. f_ref (files s f) = 0) [0..<NFILE])) (\<lambda>r. case r of
       Some f \<Rightarrow>
         seq (upd_file f (\<lambda>x. x\<lparr>f_ref := 1\<rparr>)) (
         seq (release LFtable)
         (return (Some f)))
     | None \<Rightarrow> seq (release LFtable) (return None)))"

definition filedup :: "nat \<Rightarrow> nat k" where
  "filedup f =
     seq (acquire LFtable) (
     bind (gets (\<lambda>s. f_ref (files s f))) (\<lambda>r.
     seq (panic_if (r < 1) ''filedup'') (
     seq (upd_file f (\<lambda>x. x\<lparr>f_ref := f_ref x + 1\<rparr>)) (
     seq (release LFtable)
     (return f)))))"

definition fileclose :: "nat \<Rightarrow> unit k" where
  "fileclose f =
     seq (acquire LFtable) (
     bind (gets (\<lambda>s. f_ref (files s f))) (\<lambda>r.
     seq (panic_if (r < 1) ''fileclose'') (
     seq (upd_file f (\<lambda>x. x\<lparr>f_ref := f_ref x - 1\<rparr>)) (
     bind (gets (\<lambda>s. files s f)) (\<lambda>ff.
     if 0 < f_ref ff then release LFtable
     else
       seq (upd_file f (\<lambda>x. x\<lparr>f_ref := 0, f_type := FD_NONE\<rparr>)) (
       seq (release LFtable) (
       if f_type ff = FD_PIPE then pipeclose (f_pipe ff) (f_writable ff)
       else whenM (f_type ff = FD_INODE \<or> f_type ff = FD_DEVICE) (
         seq begin_op (
         seq (bind (deref (f_ip ff)) iput)
         end_op)))))))))"

text \<open>The bytes of a \<open>struct stat\<close>.  Bytes 12 to 15 are padding that the code never sets; they
  show here as zero.\<close>

definition put_stat :: "stat \<Rightarrow> nat \<Rightarrow> byte" where
  "put_stat x = bst 4 0 (st_dev x) (bst 4 4 (st_ino x) (bst 2 8 (st_type x) (bst 2 10 (st_nlink x)
     (bst 8 16 (st_size x) (\<lambda>_. 0)))))"

definition filestat :: "nat \<Rightarrow> u64 \<Rightarrow> int k" where
  "filestat f addr =
     bind curproc (\<lambda>p.
     bind (gets (\<lambda>s. files s f)) (\<lambda>x.
     if f_type x = FD_INODE \<or> f_type x = FD_DEVICE then
       seq (ilock (f_ip x)) (
       bind (deref (f_ip x)) (\<lambda>ip.
       bind (stati ip) (\<lambda>st.
       seq (iunlock (f_ip x)) (
       bind (gets (\<lambda>s. pagetable (procs s p))) (\<lambda>pt.
       bind (copyout pt addr (put_stat st) 24) (\<lambda>r.
       if r < 0 then return (- 1) else return 0))))))
     else return (- 1)))"

definition dev_read_fn :: "devfn \<Rightarrow> bool \<Rightarrow> u64 \<Rightarrow> int \<Rightarrow> int k" where
  "dev_read_fn d = (case d of DevConsole \<Rightarrow> consoleread)"

definition dev_write_fn :: "devfn \<Rightarrow> bool \<Rightarrow> u64 \<Rightarrow> int \<Rightarrow> int k" where
  "dev_write_fn d = (case d of DevConsole \<Rightarrow> consolewrite)"

definition fileread :: "nat \<Rightarrow> u64 \<Rightarrow> int \<Rightarrow> int k" where
  "fileread f addr n =
     bind (gets (\<lambda>s. files s f)) (\<lambda>x.
     if \<not> f_readable x then return (- 1)
     else case f_type x of
       FD_PIPE \<Rightarrow> piperead (f_pipe x) addr n
     | FD_DEVICE \<Rightarrow>
         bind (gets (\<lambda>s. dev_read (devsws s (nat (sint (f_major x)))))) (\<lambda>d.
         if sint (f_major x) < 0 \<or> NDEV \<le> sint (f_major x) then return (- 1)
         else case d of None \<Rightarrow> return (- 1) | Some fn \<Rightarrow> dev_read_fn fn True addr n)
     | FD_INODE \<Rightarrow>
         seq (ilock (f_ip x)) (
         bind (deref (f_ip x)) (\<lambda>ip.
         bind (gets (\<lambda>s. f_off (files s f))) (\<lambda>off.
         bind (readi ip (UserVA addr) off (word_of_int n)) (\<lambda>(r, _).
         seq (whenM (0 < sint r) (upd_file f (\<lambda>x. x\<lparr>f_off := f_off x + r\<rparr>))) (
         seq (iunlock (f_ip x))
         (return (sint r)))))))
     | FD_NONE \<Rightarrow> panic ''fileread'')"

text \<open>\<open>max\<close> is \<open>((MAXOPBLOCKS-1-1-2) / 2) * BSIZE\<close>.\<close>

abbreviation (input) write_max :: int where "write_max \<equiv> 3072"

fun filewrite_from :: "nat \<Rightarrow> nat \<Rightarrow> u64 \<Rightarrow> int \<Rightarrow> int \<Rightarrow> int k" where
  "filewrite_from 0 f addr n i = return i"
| "filewrite_from (Suc fuel) f addr n i =
     (if i < n then
        let n1 = min (n - i) write_max in
        seq begin_op (
        bind (gets (\<lambda>s. f_ip (files s f))) (\<lambda>ipo.
        seq (ilock ipo) (
        bind (deref ipo) (\<lambda>ip.
        bind (gets (\<lambda>s. f_off (files s f))) (\<lambda>off.
        bind (writei ip (UserVA (addr + word_of_int i)) off (word_of_int n1)) (\<lambda>r.
        seq (whenM (0 < r) (upd_file f (\<lambda>x. x\<lparr>f_off := f_off x + word_of_int r\<rparr>))) (
        seq (iunlock ipo) (
        seq end_op (
        if r < 0 then return i
        else seq (panic_if (r \<noteq> n1) ''short filewrite'') (filewrite_from fuel f addr n (i + r)))))))))))
      else return i)"

definition filewrite :: "nat \<Rightarrow> u64 \<Rightarrow> int \<Rightarrow> int k" where
  "filewrite f addr n =
     bind (gets (\<lambda>s. files s f)) (\<lambda>x.
     if \<not> f_writable x then return (- 1)
     else case f_type x of
       FD_PIPE \<Rightarrow> pipewrite (f_pipe x) addr n
     | FD_DEVICE \<Rightarrow>
         bind (gets (\<lambda>s. dev_write (devsws s (nat (sint (f_major x)))))) (\<lambda>d.
         if sint (f_major x) < 0 \<or> NDEV \<le> sint (f_major x) then return (- 1)
         else case d of None \<Rightarrow> return (- 1) | Some fn \<Rightarrow> dev_write_fn fn True addr n)
     | FD_INODE \<Rightarrow>
         bind (filewrite_from (nat n) f addr n 0) (\<lambda>i. return (if i = n then n else - 1))
     | FD_NONE \<Rightarrow> panic ''filewrite'')"

section \<open>pipealloc\<close>

definition pipealloc_bad :: "u64 \<Rightarrow> nat option \<Rightarrow> nat option \<Rightarrow> (nat \<times> nat) option k" where
  "pipealloc_bad pi f0 f1 =
     seq (whenM (pi \<noteq> 0) (kfree pi)) (
     seq (case f0 of None \<Rightarrow> return () | Some f \<Rightarrow> fileclose f) (
     seq (case f1 of None \<Rightarrow> return () | Some f \<Rightarrow> fileclose f)
     (return None)))"

definition pipealloc :: "(nat \<times> nat) option k" where
  "pipealloc =
     bind filealloc (\<lambda>r0. case r0 of
       None \<Rightarrow> pipealloc_bad 0 None None
     | Some f0 \<Rightarrow>
     bind filealloc (\<lambda>r1. case r1 of
       None \<Rightarrow> pipealloc_bad 0 (Some f0) None
     | Some f1 \<Rightarrow>
     bind kalloc (\<lambda>pi.
     if pi = 0 then pipealloc_bad 0 (Some f0) (Some f1)
     else
       seq (upd_pipe pi (\<lambda>p. p\<lparr>readopen := True, writeopen := True, nwrite := 0, nread := 0\<rparr>)) (
       seq (initlock (LPipe pi) ''pipe'') (
       seq (upd_file f0 (\<lambda>x. x\<lparr>f_type := FD_PIPE, f_readable := True, f_writable := False, f_pipe := pi\<rparr>)) (
       seq (upd_file f1 (\<lambda>x. x\<lparr>f_type := FD_PIPE, f_readable := False, f_writable := True, f_pipe := pi\<rparr>))
       (return (Some (f0, f1)))))))))"

section \<open>Writing to the console\<close>

text \<open>C37: A process that writes to the console while the transmit buffer of the UART is full does not
  wait for room: the kernel panics. \<open>filewrite\<close> on the console device, with a mapped user
  address, reaches \<open>consolewrite\<close>, which still holds \<open>cons.lock\<close> when \<open>uartputc\<close> calls \<open>sleep\<close>; \<open>sched\<close> then finds more
  than the process lock held.\<close>

theorem console_write_panics:
  assumes "idle_thread p s"
    and "f_writable (files s f)" "f_type (files s f) = FD_DEVICE" "f_major (files s f) = 1" "dev_write (devsws s 1) = Some DevConsole"
    and "twf 2 (mem s) (pagetable (procs s p))" "ubyte (mem s) (pagetable (procs s p)) addr \<noteq> None"
    and "tx_full (uartst s)" "\<not> panicked s" "0 < wake_bound s" "0 < n"
  shows "\<exists>s'. filewrite f addr n s = Panic ''sched locks'' s'"
proof -
  have l: "lk_ok (lks s)" "cpu_proc (curcpu (lks s)) = Some p" "\<And>L. \<not> locked (spinl (lks s) L)"
    using assms(1) by (simp_all add: idle_thread_def)
  let ?l = "lk_acq LCons (lks s)"
  let ?s1 = "s\<lparr>lks := ?l\<rparr>"
  let ?s2 = "s\<lparr>lks := lk_acq LUartTx ?l\<rparr>"
  obtain m where n: "nat n = Suc m" using assms(11) by (cases "nat n") auto
  obtain w where w: "wake_bound s = Suc w" using assms(10) by (cases "wake_bound s") auto
  have noff: "0 < noff (curcpu ?l)" using l(1) by (simp add: lk_ok_def)
  have a: "acquire LCons s = Ok () ?s1" "acquire LUartTx ?s1 = Ok () ?s2"
    using l by (simp_all add: acquire_can)
  have my: "myproc ?s1 = Ok (Some p) ?s1" using l noff by (simp add: myproc_Ok)
  obtain d where i: "either_copyin (\<lambda>_. 0) True (addr + word_of_int 0) 1 ?s1 = Ok (0, d) ?s1"
    using copyin_byte [of ?s1 "pagetable (procs s p)" "\<lambda>_. 0" addr] assms(6,7) by (auto simp: either_copyin_def my deref_def)
  obtain s' where "sleep ChUart LUartTx ?s2 = Panic ''sched locks'' s'"
    using l sleep_two_locks [of ?l p LUartTx ?s2 ChUart] noff by auto
  then have "uartputc c ?s1 = Panic ''sched locks'' s'" for c
    using assms(8,9) w by (simp add: uartputc_def a)
  then have "consolewrite True addr n s = Panic ''sched locks'' s'"
    using i by (simp add: consolewrite_def a n)
  then show ?thesis using assms(2-5) by (simp add: filewrite_def dev_write_fn_def)
qed

definition console_space :: kstate where
  "console_space = pipe_space\<lparr>files := \<lambda>_. (files zero_state 0)\<lparr>f_type := FD_DEVICE, f_writable := True, f_major := 1\<rparr>,
     devsws := \<lambda>_. \<lparr>dev_read = None, dev_write = Some DevConsole\<rparr>, uartst := (uartst zero_state)\<lparr>uart_tx_w := 31\<rparr>\<rparr>"

theorem console_write_panics_witness: "\<exists>s'. filewrite 3 0x10 1 console_space = Panic ''sched locks'' s'"
proof (rule console_write_panics [where p = 0])
  show "idle_thread 0 console_space"
    using pipe_space_idle by (simp add: console_space_def idle_thread_def)
  show "twf 2 (mem console_space) (pagetable (procs console_space 0))"
    using small_twf pipe_space_mem by (simp add: console_space_def)
  show "ubyte (mem console_space) (pagetable (procs console_space 0)) 0x10 \<noteq> None"
    using small_umapped pipe_space_mem by (auto simp: console_space_def umapped_def ubyte_def dest: spec [of _ 0])
qed (simp_all add: console_space_def pipe_space_def small_space_def zero_state_def tx_full_def)

end
