(* ===== verification/Proc.thy ===== *)
theory Proc
  imports File
begin

text \<open>
  The parts of \<open>kernel/proc.c\<close> that need the file system: creating, ending and waiting for
  processes; and \<open>usertrapret\<close> of \<open>kernel/trap.c\<close>, to which a new process returns.
\<close>

section \<open>Returning to user space\<close>

definition upd_csr :: "(csrs \<Rightarrow> csrs) \<Rightarrow> unit k" where
  "upd_csr f = modify (\<lambda>s. s\<lparr>csr := f (csr s)\<rparr>)"

text \<open>The result is the jump into the trampoline: the address of \<open>userret\<close> and its two arguments.\<close>

definition usertrapret :: "(u64 \<times> u64 \<times> u64) k" where
  "usertrapret =
     bind curproc (\<lambda>p.
     seq intr_off (
     bind (gets syms) (\<lambda>y.
     seq (upd_csr (\<lambda>c. c\<lparr>stvec := TRAMPOLINE + (k_uservec y - k_trampoline y)\<rparr>)) (
     bind (gets (\<lambda>s. satp (csr s))) (\<lambda>ksatp.
     seq (tf_set p TF_KERNEL_SATP ksatp) (
     bind (gets (\<lambda>s. kstack (procs s p))) (\<lambda>ks.
     seq (tf_set p TF_KERNEL_SP (ks + PGSIZE)) (
     seq (tf_set p TF_KERNEL_TRAP (k_usertrap y)) (
     bind (gets (\<lambda>s. of_nat (tp (lks s)))) (\<lambda>hart.
     seq (tf_set p TF_KERNEL_HARTID hart) (
     seq (modify (\<lambda>s. s\<lparr>lks := set_sstatus (\<lambda>x. (x AND NOT SSTATUS_SPP) OR SSTATUS_SPIE) (lks s)\<rparr>)) (
     bind (tf_get p TF_EPC) (\<lambda>epc.
     seq (upd_csr (\<lambda>c. c\<lparr>sepc := epc\<rparr>)) (
     bind (gets (\<lambda>s. MAKE_SATP (pagetable (procs s p)))) (\<lambda>stp.
     return (TRAMPOLINE + (k_userret y - k_trampoline y), TRAPFRAME, stp))))))))))))))))"

section \<open>The first process\<close>

definition initcode :: "byte list" where
  "initcode = [
     0x17, 0x05, 0x00, 0x00, 0x13, 0x05, 0x45, 0x02,
     0x97, 0x05, 0x00, 0x00, 0x93, 0x85, 0x35, 0x02,
     0x93, 0x08, 0x70, 0x00, 0x73, 0x00, 0x00, 0x00,
     0x93, 0x08, 0x20, 0x00, 0x73, 0x00, 0x00, 0x00,
     0xef, 0xf0, 0x9f, 0xff, 0x2f, 0x69, 0x6e, 0x69,
     0x74, 0x00, 0x00, 0x24, 0x00, 0x00, 0x00, 0x00,
     0x00, 0x00, 0x00, 0x00]"

definition set_name :: "nat \<Rightarrow> (nat \<Rightarrow> byte) \<Rightarrow> unit k" where
  "set_name p t = upd_proc p (\<lambda>q. q\<lparr>pname := safestrcpy (pname q) t 16\<rparr>)"

definition userinit :: "unit k" where
  "userinit =
     bind allocproc (\<lambda>po.
     seq (modify (\<lambda>s. s\<lparr>initproc := po\<rparr>)) (
     bind (deref po) (\<lambda>p.
     bind (gets (\<lambda>s. pagetable (procs s p))) (\<lambda>pt.
     seq (uvminit pt (array_of initcode) (of_nat (length initcode))) (
     seq (upd_proc p (\<lambda>q. q\<lparr>psz := PGSIZE\<rparr>)) (
     seq (tf_set p TF_EPC 0) (
     seq (tf_set p TF_SP PGSIZE) (
     seq (set_name p (array_of (bytes_of ''initcode''))) (
     bind (namei [slash]) (\<lambda>ip.
     seq (upd_proc p (\<lambda>q. q\<lparr>cwd := ip\<rparr>)) (
     seq (upd_proc p (\<lambda>q. q\<lparr>pstate := RUNNABLE\<rparr>))
     (release (LProc p)))))))))))))"

definition forkret :: "(u64 \<times> u64 \<times> u64) k" where
  "forkret =
     bind curproc (\<lambda>p.
     seq (release (LProc p)) (
     bind (gets first_fork) (\<lambda>f.
     seq (whenM f (seq (modify (\<lambda>s. s\<lparr>first_fork := False\<rparr>)) (fsinit ROOTDEV)))
     usertrapret)))"

section \<open>fork\<close>

text \<open>\<open>*(np->trapframe) = *(p->trapframe)\<close>: a \<open>struct trapframe\<close> is 288 bytes.\<close>

definition copy_trapframe :: "nat \<Rightarrow> nat \<Rightarrow> unit k" where
  "copy_trapframe np p = modify (\<lambda>s. s\<lparr>mem :=
     blit (trapframe (procs s np)) 288 (\<lambda>i. mem s (trapframe (procs s p) + of_nat i)) (mem s)\<rparr>)"

definition fork :: "int k" where
  "fork =
     bind curproc (\<lambda>p.
     bind allocproc (\<lambda>npo. case npo of
       None \<Rightarrow> return (- 1)
     | Some np \<Rightarrow>
       bind (gets (\<lambda>s. procs s p)) (\<lambda>q.
       bind (gets (\<lambda>s. pagetable (procs s np))) (\<lambda>npt.
       bind (uvmcopy (pagetable q) npt (psz q)) (\<lambda>r.
       if r < 0 then
         seq (freeproc np) (
         seq (release (LProc np))
         (return (- 1)))
       else
         seq (upd_proc np (\<lambda>x. x\<lparr>psz := psz q\<rparr>)) (
         seq (upd_proc np (\<lambda>x. x\<lparr>parent := Some p\<rparr>)) (
         seq (copy_trapframe np p) (
         seq (tf_set np TF_A0 0) (
         seq (forM [0..<NOFILE] (\<lambda>i.
           bind (gets (\<lambda>s. ofile (procs s p) i)) (\<lambda>fo. case fo of
             None \<Rightarrow> return ()
           | Some f \<Rightarrow> bind (filedup f) (\<lambda>f'. upd_proc np (\<lambda>x. x\<lparr>ofile := (ofile x)(i := Some f')\<rparr>))))) (
         bind (gets (\<lambda>s. cwd (procs s p))) (\<lambda>c.
         bind (bind (deref c) idup) (\<lambda>c'.
         seq (upd_proc np (\<lambda>x. x\<lparr>cwd := Some c'\<rparr>)) (
         bind (gets (\<lambda>s. pname (procs s p))) (\<lambda>nm.
         seq (set_name np nm) (
         bind (gets (\<lambda>s. pid (procs s np))) (\<lambda>pd.
         seq (upd_proc np (\<lambda>x. x\<lparr>pstate := RUNNABLE\<rparr>)) (
         seq (release (LProc np))
         (return pd))))))))))))))))))"

section \<open>exit and wait\<close>

definition exit_close :: "nat \<Rightarrow> unit k" where
  "exit_close p = forM [0..<NOFILE] (\<lambda>fd.
     bind (gets (\<lambda>s. ofile (procs s p) fd)) (\<lambda>fo. case fo of
       None \<Rightarrow> return ()
     | Some f \<Rightarrow>
         seq (fileclose f)
         (upd_proc p (\<lambda>q. q\<lparr>ofile := (ofile q)(fd := None)\<rparr>))))"

definition exit :: "int \<Rightarrow> unit k" where
  "exit status =
     bind curproc (\<lambda>p.
     bind (gets initproc) (\<lambda>ini.
     seq (panic_if (ini = Some p) ''init exiting'') (
     seq (exit_close p) (
     seq begin_op (
     bind (gets (\<lambda>s. cwd (procs s p))) (\<lambda>c.
     seq (bind (deref c) iput) (
     seq end_op (
     seq (upd_proc p (\<lambda>q. q\<lparr>cwd := None\<rparr>)) (
     bind (bind (gets initproc) deref) (\<lambda>ip.
     seq (acquire (LProc ip)) (
     seq (wakeup1 ip) (
     seq (release (LProc ip)) (
     seq (acquire (LProc p)) (
     bind (gets (\<lambda>s. parent (procs s p))) (\<lambda>opo.
     seq (release (LProc p)) (
     bind (deref opo) (\<lambda>op'.
     seq (acquire (LProc op')) (
     seq (acquire (LProc p)) (
     seq (reparent p) (
     seq (wakeup1 op') (
     seq (upd_proc p (\<lambda>q. q\<lparr>xstate := status\<rparr>)) (
     seq (upd_proc p (\<lambda>q. q\<lparr>pstate := ZOMBIE\<rparr>)) (
     seq (release (LProc op')) (
     seq sched
     (panic ''zombie exit'')))))))))))))))))))))))))"

text \<open>One scan of \<open>wait\<close> over the process table: \<open>Inl\<close> the value that \<open>wait\<close> returns, the locks
  released, or \<open>Inr\<close> whether there are children.\<close>

fun wait_scan :: "nat \<Rightarrow> u64 \<Rightarrow> nat list \<Rightarrow> bool \<Rightarrow> (int + bool) k" where
  "wait_scan p addr [] havekids = return (Inr havekids)"
| "wait_scan p addr (np # ps) havekids =
     bind (gets (\<lambda>s. parent (procs s np) = Some p)) (\<lambda>mine.
     if \<not> mine then wait_scan p addr ps havekids
     else
       seq (acquire (LProc np)) (
       bind (gets (\<lambda>s. procs s np)) (\<lambda>q.
       if pstate q = ZOMBIE then
         bind (gets (\<lambda>s. pagetable (procs s p))) (\<lambda>pt.
         bind (if addr \<noteq> 0 then copyout pt addr (le_byte (word_of_int (xstate q) :: u32)) 4
               else return 0) (\<lambda>r.
         if r < 0 then
           seq (release (LProc np)) (
           seq (release (LProc p))
           (return (Inl (- 1))))
         else
           seq (freeproc np) (
           seq (release (LProc np)) (
           seq (release (LProc p))
           (return (Inl (pid q)))))))
       else seq (release (LProc np)) (wait_scan p addr ps True))))"

fun wait_loop :: "nat \<Rightarrow> nat \<Rightarrow> u64 \<Rightarrow> int k" where
  "wait_loop n p addr =
     bind (wait_scan p addr [0..<NPROC] False) (\<lambda>r. case r of
       Inl v \<Rightarrow> return v
     | Inr havekids \<Rightarrow>
         bind (gets (\<lambda>s. killed (procs s p))) (\<lambda>kd.
         if \<not> havekids \<or> kd then seq (release (LProc p)) (return (- 1))
         else (case n of
             0 \<Rightarrow> spin
           | Suc n' \<Rightarrow> seq (sleep (ChProc p) (LProc p)) (wait_loop n' p addr))))"

declare wait_loop.simps [simp del]

definition wait :: "u64 \<Rightarrow> int k" where
  "wait addr =
     bind curproc (\<lambda>p.
     seq (acquire (LProc p)) (
     bind (gets wake_bound) (\<lambda>n.
     wait_loop n p addr)))"

end
