(* ===== verification/Exec.thy ===== *)
theory Exec
  imports Proc
begin

text \<open>
  \<open>kernel/exec.c\<close>: replacing the memory image of a process by a program from the file system.
\<close>

section \<open>elf.h\<close>

abbreviation (input) ELF_MAGIC :: u32 where "ELF_MAGIC \<equiv> 0x464C457F"
abbreviation (input) ELF_PROG_LOAD :: u32 where "ELF_PROG_LOAD \<equiv> 1"

record elfhdr =
  elf_magic :: u32
  elf_entry :: u64
  elf_phoff :: u64
  elf_phnum :: u16

record proghdr =
  ph_type :: u32
  ph_off :: u64
  ph_vaddr :: u64
  ph_filesz :: u64
  ph_memsz :: u64

definition get_elfhdr :: "(nat \<Rightarrow> byte) \<Rightarrow> elfhdr" where
  "get_elfhdr d = \<lparr>elf_magic = bld 4 d 0, elf_entry = bld 8 d 24, elf_phoff = bld 8 d 32,
     elf_phnum = bld 2 d 56\<rparr>"

definition get_proghdr :: "(nat \<Rightarrow> byte) \<Rightarrow> proghdr" where
  "get_proghdr d = \<lparr>ph_type = bld 4 d 0, ph_off = bld 8 d 8, ph_vaddr = bld 8 d 16,
     ph_filesz = bld 8 d 32, ph_memsz = bld 8 d 40\<rparr>"

section \<open>loadseg\<close>

text \<open>\<open>i\<close> is an unsigned int: with \<open>sz\<close> above 0xfffff000 it wraps and the loop has no end.\<close>

fun loadseg_from :: "nat \<Rightarrow> u64 \<Rightarrow> u64 \<Rightarrow> nat \<Rightarrow> u32 \<Rightarrow> u32 \<Rightarrow> u32 \<Rightarrow> int k" where
  "loadseg_from 0 pt va ip offset sz i = (if i < sz then spin else return 0)"
| "loadseg_from (Suc f) pt va ip offset sz i =
     (if i < sz then
        bind (walkaddr pt (va + ucast i)) (\<lambda>pa.
        seq (panic_if (pa = 0) ''loadseg: address should exist'') (
        let n = (if sz - i < 4096 then sz - i else 4096) in
        bind (readi ip (KernVA pa) (offset + i) n) (\<lambda>(r, _).
        if r \<noteq> n then return (- 1) else loadseg_from f pt va ip offset sz (i + 4096))))
      else return 0)"

definition loadseg :: "u64 \<Rightarrow> u64 \<Rightarrow> nat \<Rightarrow> u32 \<Rightarrow> u32 \<Rightarrow> int k" where
  "loadseg pt va ip offset sz =
     seq (panic_if (va mod PGSIZE \<noteq> 0) ''loadseg: va must be page aligned'')
     (loadseg_from (Suc (unat sz div 4096)) pt va ip offset sz 0)"

section \<open>exec\<close>

text \<open>The loop over the program headers: whether it went well, and the size reached.\<close>

fun exec_load :: "nat \<Rightarrow> u64 \<Rightarrow> nat \<Rightarrow> u32 \<Rightarrow> u64 \<Rightarrow> (bool \<times> u64) k" where
  "exec_load 0 pt ip off sz = return (True, sz)"
| "exec_load (Suc n) pt ip off sz =
     bind (readi ip (KernObj (\<lambda>_. 0)) off 56) (\<lambda>(r, o').
     let ph = get_proghdr (obj o') in
     if r \<noteq> 56 then return (False, sz)
     else if ph_type ph \<noteq> ELF_PROG_LOAD then exec_load n pt ip (off + 56) sz
     else if ph_memsz ph < ph_filesz ph then return (False, sz)
     else if ph_vaddr ph + ph_memsz ph < ph_vaddr ph then return (False, sz)
     else
       bind (uvmalloc pt sz (ph_vaddr ph + ph_memsz ph)) (\<lambda>sz1.
       if sz1 = 0 then return (False, sz)
       else if ph_vaddr ph mod PGSIZE \<noteq> 0 then return (False, sz1)
       else
         bind (loadseg pt (ph_vaddr ph) ip (ucast (ph_off ph)) (ucast (ph_filesz ph))) (\<lambda>r.
         if r < 0 then return (False, sz1) else exec_load n pt ip (off + 56) sz1)))"

definition strlen_at :: "u64 \<Rightarrow> nat k" where
  "strlen_at a = bind (gets (\<lambda>s. strlen (\<lambda>i. mem s (a + of_nat i)))) (\<lambda>r.
     case r of None \<Rightarrow> spin | Some n \<Rightarrow> return n)"

text \<open>Pushing the argument strings: the stack pointer and the addresses of the strings, or \<open>None\<close>
  when they do not fit.\<close>

fun exec_args :: "u64 \<Rightarrow> u64 list \<Rightarrow> u64 \<Rightarrow> u64 \<Rightarrow> u64 list \<Rightarrow> (u64 \<times> u64 list) option k" where
  "exec_args pt [] stackbase sp ustack = return (Some (sp, ustack))"
| "exec_args pt (a # as) stackbase sp ustack =
     (if MAXARG \<le> length ustack then return None
      else
        bind (strlen_at a) (\<lambda>len.
        let sp1 = sp - (of_nat len + 1); sp2 = sp1 - sp1 mod 16 in
        if sp2 < stackbase then return None
        else
          bind (gets (\<lambda>s i. mem s (a + of_nat i))) (\<lambda>src.
          bind (copyout pt sp2 src (of_nat len + 1)) (\<lambda>r.
          if r < 0 then return None
          else exec_args pt as stackbase sp2 (ustack @ [sp2])))))"

definition ustack_bytes :: "u64 list \<Rightarrow> nat \<Rightarrow> byte" where
  "ustack_bytes us i = (if i div 8 < length us then le_byte (us ! (i div 8)) (i mod 8) else 0)"

definition exec_bad :: "u64 \<Rightarrow> u64 \<Rightarrow> nat option \<Rightarrow> int k" where
  "exec_bad pt sz ipo =
     seq (whenM (pt \<noteq> 0) (proc_freepagetable pt sz)) (
     seq (case ipo of None \<Rightarrow> return () | Some ip \<Rightarrow> seq (iunlockput ip) end_op)
     (return (- 1)))"

definition base_name :: "byte list \<Rightarrow> byte list" where
  "base_name path = rev (takeWhile (\<lambda>c. c \<noteq> slash) (rev path))"

text \<open>Everything after the program has been read: the stack, and the switch to the new image.\<close>

definition exec_commit :: "byte list \<Rightarrow> u64 list \<Rightarrow> elfhdr \<Rightarrow> u64 \<Rightarrow> u64 \<Rightarrow> int k" where
  "exec_commit path argv elf pt sz0 =
     bind curproc (\<lambda>p.
     bind (gets (\<lambda>s. psz (procs s p))) (\<lambda>oldsz.
     let sz1 = PGROUNDUP sz0 in
     bind (uvmalloc pt sz1 (sz1 + 2 * PGSIZE)) (\<lambda>sz.
     if sz = 0 then exec_bad pt sz1 None
     else
       seq (uvmclear pt (sz - 2 * PGSIZE)) (
       bind (exec_args pt argv (sz - PGSIZE) sz []) (\<lambda>r. case r of
         None \<Rightarrow> exec_bad pt sz None
       | Some (sp, us) \<Rightarrow>
         let us0 = us @ [0]; sp1 = sp - of_nat (length us0) * 8; sp2 = sp1 - sp1 mod 16 in
         if sp2 < sz - PGSIZE then exec_bad pt sz None
         else
           bind (copyout pt sp2 (ustack_bytes us0) (of_nat (length us0) * 8)) (\<lambda>r.
           if r < 0 then exec_bad pt sz None
           else
             seq (tf_set p TF_A1 sp2) (
             seq (set_name p (array_of (base_name path))) (
             bind (gets (\<lambda>s. pagetable (procs s p))) (\<lambda>oldpt.
             seq (upd_proc p (\<lambda>q. q\<lparr>pagetable := pt\<rparr>)) (
             seq (upd_proc p (\<lambda>q. q\<lparr>psz := sz\<rparr>)) (
             seq (tf_set p TF_EPC (elf_entry elf)) (
             seq (tf_set p TF_SP sp2) (
             seq (proc_freepagetable oldpt oldsz)
             (return (int (length us))))))))))))))))"

definition exec :: "byte list \<Rightarrow> u64 list \<Rightarrow> int k" where
  "exec path argv =
     bind curproc (\<lambda>p.
     seq begin_op (
     bind (namei path) (\<lambda>ipo. case ipo of
       None \<Rightarrow> seq end_op (return (- 1))
     | Some ip \<Rightarrow>
       seq (ilock (Some ip)) (
       bind (readi ip (KernObj (\<lambda>_. 0)) 0 64) (\<lambda>(r, o').
       let elf = get_elfhdr (obj o') in
       if r \<noteq> 64 then exec_bad 0 0 (Some ip)
       else if elf_magic elf \<noteq> ELF_MAGIC then exec_bad 0 0 (Some ip)
       else
         bind (proc_pagetable p) (\<lambda>pt.
         if pt = 0 then exec_bad 0 0 (Some ip)
         else
           bind (exec_load (unat (elf_phnum elf)) pt ip (ucast (elf_phoff elf)) 0) (\<lambda>(ok, sz).
           if \<not> ok then exec_bad pt sz (Some ip)
           else
             seq (iunlockput ip) (
             seq end_op
             (exec_commit path argv elf pt sz)))))))))"

end
