(* ===== verification/Syscall.thy ===== *)
theory Syscall
  imports Exec
begin

text \<open>
  The argument-fetching half of \<open>kernel/syscall.c\<close> and all of \<open>kernel/sysproc.c\<close>.  A system call
  returns the 64-bit value that goes into \<open>a0\<close>.
\<close>

section \<open>Fetching arguments\<close>

definition ret_int :: "int k \<Rightarrow> u64 k" where
  "ret_int m = bind m (\<lambda>i. return (word_of_int i))"

definition fetchaddr :: "u64 \<Rightarrow> u64 option k" where
  "fetchaddr addr =
     bind curproc (\<lambda>p.
     bind (gets (\<lambda>s. procs s p)) (\<lambda>q.
     if psz q \<le> addr \<or> psz q < addr + 8 then return None
     else
       bind (copyin (pagetable q) (\<lambda>_. 0) addr 8) (\<lambda>(r, d).
       if r \<noteq> 0 then return None else return (Some (le_load 8 d)))))"

text \<open>The result of \<open>fetchstr\<close> and \<open>argstr\<close>, and the new contents of \<open>buf\<close>.\<close>

definition fetchstr :: "u64 \<Rightarrow> (nat \<Rightarrow> byte) \<Rightarrow> int \<Rightarrow> (int \<times> (nat \<Rightarrow> byte)) k" where
  "fetchstr addr buf mx =
     bind curproc (\<lambda>p.
     bind (gets (\<lambda>s. pagetable (procs s p))) (\<lambda>pt.
     bind (copyinstr pt buf addr (word_of_int mx)) (\<lambda>(err, d).
     if err < 0 then return (err, d)
     else (case strlen d of None \<Rightarrow> spin | Some n \<Rightarrow> return (int n, d)))))"

definition argraw :: "nat \<Rightarrow> u64 k" where
  "argraw n =
     bind curproc (\<lambda>p.
     if n < 6 then tf_get p (TF_A0 + 8 * of_nat n) else panic ''argraw'')"

definition argint :: "nat \<Rightarrow> int k" where
  "argint n = bind (argraw n) (\<lambda>v. return (sint (ucast v :: u32)))"

definition argaddr :: "nat \<Rightarrow> u64 k" where
  "argaddr n = argraw n"

definition argstr :: "nat \<Rightarrow> int \<Rightarrow> (int \<times> (nat \<Rightarrow> byte)) k" where
  "argstr n mx = bind (argaddr n) (\<lambda>addr. fetchstr addr (\<lambda>_. 0) mx)"

section \<open>sysproc.c\<close>

definition sys_exit :: "u64 k" where
  "sys_exit = bind (argint 0) (\<lambda>n. seq (exit n) (return 0))"

definition sys_getpid :: "u64 k" where
  "sys_getpid = bind curproc (\<lambda>p. ret_int (gets (\<lambda>s. pid (procs s p))))"

definition sys_fork :: "u64 k" where
  "sys_fork = ret_int fork"

definition sys_wait :: "u64 k" where
  "sys_wait = bind (argaddr 0) (\<lambda>a. ret_int (wait a))"

text \<open>\<open>int addr\<close> keeps the low 32 bits of the old size, and returning it extends the sign.\<close>

definition sys_sbrk :: "u64 k" where
  "sys_sbrk =
     bind (argint 0) (\<lambda>n.
     bind curproc (\<lambda>p.
     bind (gets (\<lambda>s. scast (ucast (psz (procs s p)) :: u32) :: u64)) (\<lambda>addr.
     bind (growproc n) (\<lambda>r.
     if r < 0 then return (- 1) else return addr))))"

text \<open>The wait of \<open>sys_sleep\<close>: \<open>ticks - ticks0 < n\<close> compares unsigned numbers.  The result says that
  the process was killed.\<close>

fun sys_sleep_wait :: "nat \<Rightarrow> u32 \<Rightarrow> u32 \<Rightarrow> bool k" where
  "sys_sleep_wait f ticks0 n =
     bind (gets (\<lambda>s. ticks s - ticks0 < n)) (\<lambda>early.
     if \<not> early then return False
     else bind curproc (\<lambda>p.
       bind (gets (\<lambda>s. killed (procs s p))) (\<lambda>kd.
       if kd then seq (release LTicks) (return True)
       else (case f of 0 \<Rightarrow> spin
         | Suc f' \<Rightarrow> seq (sleep ChTicks LTicks) (sys_sleep_wait f' ticks0 n)))))"

declare sys_sleep_wait.simps [simp del]

definition sys_sleep :: "u64 k" where
  "sys_sleep =
     bind (argint 0) (\<lambda>n.
     seq (acquire LTicks) (
     bind (gets ticks) (\<lambda>ticks0.
     bind (gets wake_bound) (\<lambda>f.
     bind (sys_sleep_wait f ticks0 (word_of_int n)) (\<lambda>kd.
     if kd then return (- 1)
     else seq (release LTicks) (return 0))))))"

definition sys_kill :: "u64 k" where
  "sys_kill = bind (argint 0) (\<lambda>n. ret_int (kill n))"

definition sys_uptime :: "u64 k" where
  "sys_uptime =
     seq (acquire LTicks) (
     bind (gets ticks) (\<lambda>x.
     seq (release LTicks)
     (return (ucast x))))"

end
