(* ===== verification/Sysfile.thy ===== *)
theory Sysfile
  imports Syscall
begin

text \<open>
  \<open>kernel/sysfile.c\<close>, the system calls on files, and the dispatcher of \<open>kernel/syscall.c\<close>.
\<close>

section \<open>File descriptors\<close>

definition argfd :: "nat \<Rightarrow> (nat \<times> nat) option k" where
  "argfd n =
     bind (argint n) (\<lambda>fd.
     if fd < 0 \<or> int NOFILE \<le> fd then return None
     else
       bind curproc (\<lambda>p.
       bind (gets (\<lambda>s. ofile (procs s p) (nat fd))) (\<lambda>f. case f of
         None \<Rightarrow> return None
       | Some f \<Rightarrow> return (Some (nat fd, f)))))"

definition set_ofile :: "nat \<Rightarrow> nat \<Rightarrow> nat option \<Rightarrow> unit k" where
  "set_ofile p fd f = upd_proc p (\<lambda>q. q\<lparr>ofile := (ofile q)(fd := f)\<rparr>)"

definition fdalloc :: "nat \<Rightarrow> nat option k" where
  "fdalloc f =
     bind curproc (\<lambda>p.
     bind (gets (\<lambda>s. find (\<lambda>fd. ofile (procs s p) fd = None) [0..<NOFILE])) (\<lambda>r. case r of
       None \<Rightarrow> return None
     | Some fd \<Rightarrow> seq (set_ofile p fd (Some f)) (return (Some fd))))"

definition sys_dup :: "u64 k" where
  "sys_dup =
     bind (argfd 0) (\<lambda>r. case r of None \<Rightarrow> return (- 1)
     | Some (_, f) \<Rightarrow>
       bind (fdalloc f) (\<lambda>r. case r of None \<Rightarrow> return (- 1)
       | Some fd \<Rightarrow> bind (filedup f) (\<lambda>_. return (of_nat fd))))"

definition sys_read :: "u64 k" where
  "sys_read =
     bind (argfd 0) (\<lambda>r. case r of None \<Rightarrow> return (- 1)
     | Some (_, f) \<Rightarrow>
       bind (argint 2) (\<lambda>n.
       bind (argaddr 1) (\<lambda>p. ret_int (fileread f p n))))"

definition sys_write :: "u64 k" where
  "sys_write =
     bind (argfd 0) (\<lambda>r. case r of None \<Rightarrow> return (- 1)
     | Some (_, f) \<Rightarrow>
       bind (argint 2) (\<lambda>n.
       bind (argaddr 1) (\<lambda>p. ret_int (filewrite f p n))))"

definition sys_close :: "u64 k" where
  "sys_close =
     bind (argfd 0) (\<lambda>r. case r of None \<Rightarrow> return (- 1)
     | Some (fd, f) \<Rightarrow>
       bind curproc (\<lambda>p.
       seq (set_ofile p fd None) (
       seq (fileclose f)
       (return 0))))"

definition sys_fstat :: "u64 k" where
  "sys_fstat =
     bind (argfd 0) (\<lambda>r. case r of None \<Rightarrow> return (- 1)
     | Some (_, f) \<Rightarrow> bind (argaddr 1) (\<lambda>st. ret_int (filestat f st)))"

section \<open>Links\<close>

definition add_nlink :: "nat \<Rightarrow> u16 \<Rightarrow> unit k" where
  "add_nlink ip n = seq (upd_inode ip (\<lambda>x. x\<lparr>i_nlink := i_nlink x + n\<rparr>)) (iupdate ip)"

definition link_bad :: "nat \<Rightarrow> u64 k" where
  "link_bad ip =
     seq (ilock (Some ip)) (
     seq (add_nlink ip (- 1)) (
     seq (iunlockput ip) (
     seq end_op
     (return (- 1)))))"

definition path_of :: "(nat \<Rightarrow> byte) \<Rightarrow> byte list" where
  "path_of a = str_of MAXPATH a"

definition sys_link :: "u64 k" where
  "sys_link =
     bind (argstr 0 (int MAXPATH)) (\<lambda>(r0, old).
     if r0 < 0 then return (- 1)
     else bind (argstr 1 (int MAXPATH)) (\<lambda>(r1, new).
     if r1 < 0 then return (- 1)
     else
       seq begin_op (
       bind (namei (path_of old)) (\<lambda>ipo. case ipo of
         None \<Rightarrow> seq end_op (return (- 1))
       | Some ip \<Rightarrow>
         seq (ilock (Some ip)) (
         bind (gets (\<lambda>s. i_type (inodes s ip))) (\<lambda>t.
         if t = T_DIR then seq (iunlockput ip) (seq end_op (return (- 1)))
         else
           seq (add_nlink ip 1) (
           seq (iunlock (Some ip)) (
           bind (nameiparent (path_of new) (\<lambda>_. 0)) (\<lambda>(dpo, nm). case dpo of
             None \<Rightarrow> link_bad ip
           | Some dp \<Rightarrow>
             seq (ilock (Some dp)) (
             bind (gets (\<lambda>s. (i_dev (inodes s dp) \<noteq> i_dev (inodes s ip), i_inum (inodes s ip)))) (\<lambda>(other, inum).
             bind (if other then return (- 1) else dirlink dp nm inum) (\<lambda>r.
             if r < 0 then seq (iunlockput dp) (link_bad ip)
             else
               seq (iunlockput dp) (
               seq (iput ip) (
               seq end_op
               (return 0)))))))))))))))"

fun isdirempty_from :: "nat \<Rightarrow> nat \<Rightarrow> u32 \<Rightarrow> bool k" where
  "isdirempty_from 0 dp off = return True"
| "isdirempty_from (Suc f) dp off =
     bind (gets (\<lambda>s. i_size (inodes s dp))) (\<lambda>sz.
     if off < sz then
       bind (readi dp (KernObj (\<lambda>_. 0)) off 16) (\<lambda>(r, o').
       seq (panic_if (r \<noteq> 16) ''isdirempty: readi'') (
       if de_inum (get_dirent (obj o')) \<noteq> 0 then return False
       else isdirempty_from f dp (off + 16)))
     else return True)"

definition isdirempty :: "nat \<Rightarrow> bool k" where
  "isdirempty dp =
     bind (gets (\<lambda>s. i_size (inodes s dp))) (\<lambda>sz.
     isdirempty_from (Suc (unat sz div 16)) dp 32)"

definition unlink_bad :: "nat \<Rightarrow> u64 k" where
  "unlink_bad dp = seq (iunlockput dp) (seq end_op (return (- 1)))"

definition sys_unlink :: "u64 k" where
  "sys_unlink =
     bind (argstr 0 (int MAXPATH)) (\<lambda>(r, path).
     if r < 0 then return (- 1)
     else
       seq begin_op (
       bind (nameiparent (path_of path) (\<lambda>_. 0)) (\<lambda>(dpo, nm). case dpo of
         None \<Rightarrow> seq end_op (return (- 1))
       | Some dp \<Rightarrow>
         seq (ilock (Some dp)) (
         if namecmp nm (array_of [46]) = 0 \<or> namecmp nm (array_of [46, 46]) = 0 then unlink_bad dp
         else
           bind (dirlookup dp nm) (\<lambda>r. case r of
             None \<Rightarrow> unlink_bad dp
           | Some (ip, off) \<Rightarrow>
             seq (ilock (Some ip)) (
             bind (gets (\<lambda>s. inodes s ip)) (\<lambda>x.
             seq (panic_if (sint (i_nlink x) < 1) ''unlink: nlink < 1'') (
             bind (if i_type x = T_DIR then isdirempty ip else return True) (\<lambda>ok.
             if \<not> ok then seq (iunlockput ip) (unlink_bad dp)
             else
               bind (writei dp (KernObj (\<lambda>_. 0)) off 16) (\<lambda>w.
               seq (panic_if (w \<noteq> 16) ''unlink: writei'') (
               seq (whenM (i_type x = T_DIR) (add_nlink dp (- 1))) (
               seq (iunlockput dp) (
               seq (add_nlink ip (- 1)) (
               seq (iunlockput ip) (
               seq end_op
               (return 0))))))))))))))))"

section \<open>Creating and opening files\<close>

definition create_new :: "nat \<Rightarrow> (nat \<Rightarrow> byte) \<Rightarrow> u16 \<Rightarrow> u16 \<Rightarrow> u16 \<Rightarrow> nat option k" where
  "create_new dp nm ty major minor =
     bind (gets (\<lambda>s. i_dev (inodes s dp))) (\<lambda>dev.
     bind (ialloc dev ty) (\<lambda>ip.
     seq (ilock (Some ip)) (
     seq (upd_inode ip (\<lambda>x. x\<lparr>i_major := major, i_minor := minor, i_nlink := 1\<rparr>)) (
     seq (iupdate ip) (
     bind (gets (\<lambda>s. (i_inum (inodes s ip), i_inum (inodes s dp)))) (\<lambda>(inum, pinum).
     seq (whenM (ty = T_DIR) (
       seq (add_nlink dp 1) (
       bind (dirlink ip (array_of [46]) inum) (\<lambda>r1.
       seq (panic_if (r1 < 0) ''create dots'') (
       bind (dirlink ip (array_of [46, 46]) pinum) (\<lambda>r2.
       panic_if (r2 < 0) ''create dots'')))))) (
     bind (dirlink dp nm inum) (\<lambda>r.
     seq (panic_if (r < 0) ''create: dirlink'') (
     seq (iunlockput dp)
     (return (Some ip)))))))))))"

definition create :: "byte list \<Rightarrow> u16 \<Rightarrow> u16 \<Rightarrow> u16 \<Rightarrow> nat option k" where
  "create path ty major minor =
     bind (nameiparent path (\<lambda>_. 0)) (\<lambda>(dpo, nm). case dpo of
       None \<Rightarrow> return None
     | Some dp \<Rightarrow>
       seq (ilock (Some dp)) (
       bind (dirlookup dp nm) (\<lambda>r. case r of
         Some (ip, _) \<Rightarrow>
           seq (iunlockput dp) (
           seq (ilock (Some ip)) (
           bind (gets (\<lambda>s. i_type (inodes s ip))) (\<lambda>t.
           if ty = T_FILE \<and> (t = T_FILE \<or> t = T_DEVICE) then return (Some ip)
           else seq (iunlockput ip) (return None))))
       | None \<Rightarrow> create_new dp nm ty major minor)))"

text \<open>The part of \<open>sys_open\<close> up to the locked inode.\<close>

definition open_inode :: "byte list \<Rightarrow> u32 \<Rightarrow> nat option k" where
  "open_inode path omode =
     (if omode AND O_CREATE \<noteq> 0 then
        bind (create path T_FILE 0 0) (\<lambda>ipo. case ipo of
          None \<Rightarrow> seq end_op (return None)
        | Some ip \<Rightarrow> return (Some ip))
      else
        bind (namei path) (\<lambda>ipo. case ipo of
          None \<Rightarrow> seq end_op (return None)
        | Some ip \<Rightarrow>
          seq (ilock (Some ip)) (
          bind (gets (\<lambda>s. i_type (inodes s ip))) (\<lambda>t.
          if t = T_DIR \<and> omode \<noteq> O_RDONLY then seq (iunlockput ip) (seq end_op (return None))
          else return (Some ip)))))"

definition open_fail :: "nat \<Rightarrow> u64 k" where
  "open_fail ip = seq (iunlockput ip) (seq end_op (return (- 1)))"

definition file_of_inode :: "nat \<Rightarrow> inode \<Rightarrow> u32 \<Rightarrow> filest \<Rightarrow> filest" where
  "file_of_inode ip x omode f =
     (let f1 = (if i_type x = T_DEVICE then f\<lparr>f_type := FD_DEVICE, f_major := i_major x\<rparr>
                else f\<lparr>f_type := FD_INODE, f_off := 0\<rparr>)
      in f1\<lparr>f_ip := Some ip, f_readable := (omode AND O_WRONLY = 0),
            f_writable := (omode AND O_WRONLY \<noteq> 0 \<or> omode AND O_RDWR \<noteq> 0)\<rparr>)"

definition sys_open :: "u64 k" where
  "sys_open =
     bind (argstr 0 (int MAXPATH)) (\<lambda>(n, path).
     if n < 0 then return (- 1)
     else bind (argint 1) (\<lambda>om.
     let omode = word_of_int om in
     seq begin_op (
     bind (open_inode (path_of path) omode) (\<lambda>ipo. case ipo of
       None \<Rightarrow> return (- 1)
     | Some ip \<Rightarrow>
       bind (gets (\<lambda>s. inodes s ip)) (\<lambda>x.
       if i_type x = T_DEVICE \<and> (sint (i_major x) < 0 \<or> NDEV \<le> sint (i_major x)) then open_fail ip
       else
         bind filealloc (\<lambda>fo. case fo of
           None \<Rightarrow> open_fail ip
         | Some f \<Rightarrow>
           bind (fdalloc f) (\<lambda>fdo. case fdo of
             None \<Rightarrow> seq (fileclose f) (open_fail ip)
           | Some fd \<Rightarrow>
             seq (upd_file f (file_of_inode ip x omode)) (
             seq (whenM (omode AND O_TRUNC \<noteq> 0 \<and> i_type x = T_FILE) (itrunc ip)) (
             seq (iunlock (Some ip)) (
             seq end_op
             (return (of_nat fd)))))))))))) "

definition sys_mkdir :: "u64 k" where
  "sys_mkdir =
     seq begin_op (
     bind (argstr 0 (int MAXPATH)) (\<lambda>(r, path).
     if r < 0 then seq end_op (return (- 1))
     else bind (create (path_of path) T_DIR 0 0) (\<lambda>ipo. case ipo of
         None \<Rightarrow> seq end_op (return (- 1))
       | Some ip \<Rightarrow> seq (iunlockput ip) (seq end_op (return 0)))))"

definition sys_mknod :: "u64 k" where
  "sys_mknod =
     seq begin_op (
     bind (argstr 0 (int MAXPATH)) (\<lambda>(r, path).
     if r < 0 then seq end_op (return (- 1))
     else bind (argint 1) (\<lambda>major.
     bind (argint 2) (\<lambda>minor.
     bind (create (path_of path) T_DEVICE (word_of_int major) (word_of_int minor)) (\<lambda>ipo. case ipo of
         None \<Rightarrow> seq end_op (return (- 1))
       | Some ip \<Rightarrow> seq (iunlockput ip) (seq end_op (return 0)))))))"

definition sys_chdir :: "u64 k" where
  "sys_chdir =
     bind curproc (\<lambda>p.
     seq begin_op (
     bind (argstr 0 (int MAXPATH)) (\<lambda>(r, path).
     if r < 0 then seq end_op (return (- 1))
     else bind (namei (path_of path)) (\<lambda>ipo. case ipo of
         None \<Rightarrow> seq end_op (return (- 1))
       | Some ip \<Rightarrow>
         seq (ilock (Some ip)) (
         bind (gets (\<lambda>s. i_type (inodes s ip))) (\<lambda>t.
         if t \<noteq> T_DIR then seq (iunlockput ip) (seq end_op (return (- 1)))
         else
           seq (iunlock (Some ip)) (
           bind (gets (\<lambda>s. cwd (procs s p))) (\<lambda>c.
           seq (bind (deref c) iput) (
           seq end_op (
           seq (upd_proc p (\<lambda>q. q\<lparr>cwd := Some ip\<rparr>))
           (return 0)))))))))))"

section \<open>exec and pipe\<close>

text \<open>Fetching the argument strings, each into a page of its own: whether it went well, and the
  pages allocated.\<close>

fun exec_fetch :: "nat \<Rightarrow> u64 \<Rightarrow> u64 list \<Rightarrow> (bool \<times> u64 list) k" where
  "exec_fetch 0 uargv pgs = return (False, pgs)"
| "exec_fetch (Suc f) uargv pgs =
     bind (fetchaddr (uargv + 8 * of_nat (length pgs))) (\<lambda>r. case r of
       None \<Rightarrow> return (False, pgs)
     | Some uarg \<Rightarrow>
       if uarg = 0 then return (True, pgs)
       else
         bind kalloc (\<lambda>a.
         if a = 0 then return (False, pgs)
         else
           bind (gets (\<lambda>s i. mem s (a + of_nat i))) (\<lambda>buf.
           bind (fetchstr uarg buf 4096) (\<lambda>(r, d).
           seq (modify (\<lambda>s. s\<lparr>mem := blit a 4096 d (mem s)\<rparr>)) (
           if r < 0 then return (False, pgs @ [a])
           else exec_fetch f uargv (pgs @ [a]))))))"

definition sys_exec :: "u64 k" where
  "sys_exec =
     bind (argstr 0 (int MAXPATH)) (\<lambda>(r, path).
     if r < 0 then return (- 1)
     else bind (argaddr 1) (\<lambda>uargv.
     bind (exec_fetch MAXARG uargv []) (\<lambda>(ok, pgs).
     if \<not> ok then seq (forM pgs kfree) (return (- 1))
     else
       bind (exec (path_of path) pgs) (\<lambda>ret.
       seq (forM pgs kfree)
       (return (word_of_int ret))))))"

definition sys_pipe :: "u64 k" where
  "sys_pipe =
     bind curproc (\<lambda>p.
     bind (argaddr 0) (\<lambda>fdarray.
     bind pipealloc (\<lambda>r. case r of
       None \<Rightarrow> return (- 1)
     | Some (f0, f1) \<Rightarrow>
       bind (fdalloc f0) (\<lambda>r0. case r0 of
         None \<Rightarrow> seq (fileclose f0) (seq (fileclose f1) (return (- 1)))
       | Some fd0 \<Rightarrow>
         bind (fdalloc f1) (\<lambda>r1. case r1 of
           None \<Rightarrow>
             seq (set_ofile p fd0 None) (
             seq (fileclose f0) (
             seq (fileclose f1)
             (return (- 1))))
         | Some fd1 \<Rightarrow>
           bind (gets (\<lambda>s. pagetable (procs s p))) (\<lambda>pt.
           bind (copyout pt fdarray (le_byte (of_nat fd0 :: u32)) 4) (\<lambda>c0.
           bind (if c0 < 0 then return c0
                 else copyout pt (fdarray + 4) (le_byte (of_nat fd1 :: u32)) 4) (\<lambda>c1.
           if c1 < 0 then
             seq (set_ofile p fd0 None) (
             seq (set_ofile p fd1 None) (
             seq (fileclose f0) (
             seq (fileclose f1)
             (return (- 1)))))
           else return 0))))))))"

section \<open>The dispatcher\<close>

definition syscalls :: "nat \<Rightarrow> u64 k option" where
  "syscalls n =
     (if n = 1 then Some sys_fork else if n = 2 then Some sys_exit else if n = 3 then Some sys_wait
      else if n = 4 then Some sys_pipe else if n = 5 then Some sys_read else if n = 6 then Some sys_kill
      else if n = 7 then Some sys_exec else if n = 8 then Some sys_fstat else if n = 9 then Some sys_chdir
      else if n = 10 then Some sys_dup else if n = 11 then Some sys_getpid else if n = 12 then Some sys_sbrk
      else if n = 13 then Some sys_sleep else if n = 14 then Some sys_uptime else if n = 15 then Some sys_open
      else if n = 16 then Some sys_write else if n = 17 then Some sys_mknod else if n = 18 then Some sys_unlink
      else if n = 19 then Some sys_link else if n = 20 then Some sys_mkdir else if n = 21 then Some sys_close
      else None)"

definition syscall :: "unit k" where
  "syscall =
     bind curproc (\<lambda>p.
     bind (tf_get p TF_A7) (\<lambda>a7.
     let num = sint (ucast a7 :: u32) in
     if 0 < num \<and> num < 22 \<and> syscalls (nat num) \<noteq> None then
       bind (the (syscalls (nat num))) (\<lambda>r. tf_set p TF_A0 r)
     else
       bind (gets (\<lambda>s. procs s p)) (\<lambda>q.
       seq (printf (Some (bytes_of ''%d %s: unknown sys call %d'' @ [10]))
              [AInt (word_of_int (pid q)), AStr (Some (str_of 16 (pname q))), AInt (word_of_int num)])
       (tf_set p TF_A0 (- 1)))))"

end
