(* ===== verification/Trap.thy ===== *)
theory Trap
  imports Sysfile
begin

text \<open>
  \<open>kernel/trap.c\<close> and \<open>kernel/plic.c\<close>: traps from user space, traps from the kernel, and device
  interrupts; \<open>kernel/main.c\<close> and \<open>kernel/start.c\<close>: starting the machine.  \<open>plic_pending\<close> is what the
  interrupt controller answers to the next claims.
\<close>

section \<open>plic.c\<close>

definition mmio_write :: "u64 \<Rightarrow> u64 \<Rightarrow> unit k" where
  "mmio_write a v = modify (\<lambda>s. s\<lparr>mmio_out := mmio_out s @ [(a, v)]\<rparr>)"

definition PLIC_SENABLE :: "nat \<Rightarrow> u64" where
  "PLIC_SENABLE hart = PLIC + 0x2080 + of_nat hart * 0x100"

definition PLIC_SPRIORITY :: "nat \<Rightarrow> u64" where
  "PLIC_SPRIORITY hart = PLIC + 0x201000 + of_nat hart * 0x2000"

definition PLIC_SCLAIM :: "nat \<Rightarrow> u64" where
  "PLIC_SCLAIM hart = PLIC + 0x201004 + of_nat hart * 0x2000"

definition plicinit :: "unit k" where
  "plicinit =
     seq (mmio_write (PLIC + word_of_int UART0_IRQ * 4) 1)
     (mmio_write (PLIC + word_of_int VIRTIO0_IRQ * 4) 1)"

definition plicinithart :: "unit k" where
  "plicinithart =
     bind cpuid (\<lambda>hart.
     seq (mmio_write (PLIC_SENABLE hart) (push_bit (nat UART0_IRQ) 1 OR push_bit (nat VIRTIO0_IRQ) 1))
     (mmio_write (PLIC_SPRIORITY hart) 0))"

definition plic_claim :: "int k" where
  "plic_claim =
     bind cpuid (\<lambda>_.
     bind (gets plic_pending) (\<lambda>q. case q of
       [] \<Rightarrow> return 0
     | i # is \<Rightarrow> seq (modify (\<lambda>s. s\<lparr>plic_pending := is\<rparr>)) (return i)))"

definition plic_complete :: "int \<Rightarrow> unit k" where
  "plic_complete irq = bind cpuid (\<lambda>hart. mmio_write (PLIC_SCLAIM hart) (word_of_int irq))"

section \<open>trap.c\<close>

definition trapinit :: "unit k" where
  "trapinit = initlock LTicks ''time''"

definition trapinithart :: "unit k" where
  "trapinithart = bind (gets (\<lambda>s. k_kernelvec (syms s))) (\<lambda>v. upd_csr (\<lambda>c. c\<lparr>stvec := v\<rparr>))"

definition clockintr :: "unit k" where
  "clockintr =
     seq (acquire LTicks) (
     seq (modify (\<lambda>s. s\<lparr>ticks := ticks s + 1\<rparr>)) (
     seq (wakeup ChTicks)
     (release LTicks)))"

definition devintr :: "int k" where
  "devintr =
     bind (gets (\<lambda>s. scause (csr s))) (\<lambda>sc.
     if sc AND 0x8000000000000000 \<noteq> 0 \<and> sc AND 0xff = 9 then
       bind plic_claim (\<lambda>irq.
       seq (if irq = UART0_IRQ then uartintr
            else if irq = VIRTIO0_IRQ then virtio_disk_intr
            else whenM (irq \<noteq> 0)
              (printf (Some (bytes_of ''unexpected interrupt irq=%d'' @ [10])) [AInt (word_of_int irq)])) (
       seq (whenM (irq \<noteq> 0) (plic_complete irq))
       (return 1)))
     else if sc = 0x8000000000000001 then
       bind cpuid (\<lambda>h.
       seq (whenM (h = 0) clockintr) (
       seq (upd_csr (\<lambda>c. c\<lparr>sip := sip c AND NOT 2\<rparr>))
       (return 2)))
     else return 0)"

definition usertrap :: "(u64 \<times> u64 \<times> u64) k" where
  "usertrap =
     bind (gets (\<lambda>s. sstatus (lks s) (tp (lks s)))) (\<lambda>x.
     seq (panic_if (x AND SSTATUS_SPP \<noteq> 0) ''usertrap: not from user mode'') (
     seq trapinithart (
     bind curproc (\<lambda>p.
     bind (gets (\<lambda>s. sepc (csr s))) (\<lambda>epc.
     seq (tf_set p TF_EPC epc) (
     bind (gets (\<lambda>s. scause (csr s))) (\<lambda>sc.
     bind (if sc = 8 then
             bind (gets (\<lambda>s. killed (procs s p))) (\<lambda>kd.
             seq (whenM kd (exit (- 1))) (
             bind (tf_get p TF_EPC) (\<lambda>e.
             seq (tf_set p TF_EPC (e + 4)) (
             seq intr_on (
             seq syscall
             (return 0))))))
           else
             bind devintr (\<lambda>which.
             seq (whenM (which = 0) (
               bind (gets csr) (\<lambda>c.
               bind (gets (\<lambda>s. pid (procs s p))) (\<lambda>pd.
               seq (printf (Some (bytes_of ''usertrap(): unexpected scause %p pid=%d'' @ [10]))
                      [APtr (scause c), AInt (word_of_int pd)]) (
               seq (printf (Some (bytes_of ''            sepc=%p stval=%p'' @ [10])) [APtr (sepc c), APtr (stval c)])
               (upd_proc p (\<lambda>q. q\<lparr>killed := True\<rparr>)))))))
             (return which))) (\<lambda>which_dev.
     bind (gets (\<lambda>s. killed (procs s p))) (\<lambda>kd.
     seq (whenM kd (exit (- 1))) (
     seq (whenM (which_dev = 2) yield)
     usertrapret))))))))))"

definition kerneltrap :: "unit k" where
  "kerneltrap =
     bind (gets csr) (\<lambda>c.
     bind (gets (\<lambda>s. sstatus (lks s) (tp (lks s)))) (\<lambda>x.
     seq (panic_if (x AND SSTATUS_SPP = 0) ''kerneltrap: not from supervisor mode'') (
     bind intr_get (\<lambda>i.
     seq (panic_if i ''kerneltrap: interrupts enabled'') (
     bind devintr (\<lambda>which_dev.
     seq (whenM (which_dev = 0) (
       seq (printf (Some (bytes_of ''scause %p'' @ [10])) [APtr (scause c)]) (
       seq (printf (Some (bytes_of ''sepc=%p stval=%p'' @ [10])) [APtr (sepc c), APtr (stval c)])
       (panic ''kerneltrap'')))) (
     bind (if which_dev = 2 then
             bind myproc (\<lambda>po. case po of
               None \<Rightarrow> return False
             | Some _ \<Rightarrow> bind curproc (\<lambda>p. gets (\<lambda>s. pstate (procs s p) = RUNNING)))
           else return False) (\<lambda>y.
     seq (whenM y yield) (
     seq (upd_csr (\<lambda>d. d\<lparr>sepc := sepc c\<rparr>))
     (modify (\<lambda>s. s\<lparr>lks := set_sstatus (\<lambda>_. x) (lks s)\<rparr>)))))))))))"

section \<open>start.c and main.c\<close>

definition upd_mcsr :: "(mcsrs \<Rightarrow> mcsrs) \<Rightarrow> unit k" where
  "upd_mcsr f = modify (\<lambda>s. s\<lparr>mcsr := f (mcsr s)\<rparr>)"

abbreviation (input) MSTATUS_MPP_MASK :: u64 where "MSTATUS_MPP_MASK \<equiv> 0x1800"
abbreviation (input) MSTATUS_MPP_S :: u64 where "MSTATUS_MPP_S \<equiv> 0x800"
abbreviation (input) MSTATUS_MIE :: u64 where "MSTATUS_MIE \<equiv> 8"
abbreviation (input) MIE_MTIE :: u64 where "MIE_MTIE \<equiv> 0x80"
abbreviation (input) SIE_SEIE :: u64 where "SIE_SEIE \<equiv> 0x200"
abbreviation (input) SIE_STIE :: u64 where "SIE_STIE \<equiv> 0x20"
abbreviation (input) SIE_SSIE :: u64 where "SIE_SSIE \<equiv> 2"

definition CLINT_MTIMECMP :: "nat \<Rightarrow> u64" where
  "CLINT_MTIMECMP hartid = CLINT + 0x4000 + 8 * of_nat hartid"

abbreviation (input) CLINT_MTIME :: u64 where "CLINT_MTIME \<equiv> 0x200BFF8"

definition timerinit :: "unit k" where
  "timerinit =
     bind (gets (\<lambda>s. mhartid (mcsr s))) (\<lambda>id.
     bind (gets (\<lambda>s. mmio_in s CLINT_MTIME)) (\<lambda>now.
     seq (mmio_write (CLINT_MTIMECMP id) (now + 1000000)) (
     seq (modify (\<lambda>s. s\<lparr>mscratch0 := (mscratch0 s)(32 * id + 4 := CLINT_MTIMECMP id)\<rparr>)) (
     seq (modify (\<lambda>s. s\<lparr>mscratch0 := (mscratch0 s)(32 * id + 5 := 1000000)\<rparr>)) (
     bind (gets syms) (\<lambda>y.
     seq (upd_mcsr (\<lambda>c. c\<lparr>mscratch := k_mscratch0 y + 8 * of_nat (32 * id)\<rparr>)) (
     seq (upd_mcsr (\<lambda>c. c\<lparr>mtvec := k_timervec y\<rparr>)) (
     seq (upd_mcsr (\<lambda>c. c\<lparr>mstatus := mstatus c OR MSTATUS_MIE\<rparr>))
     (upd_mcsr (\<lambda>c. c\<lparr>mie := mie c OR MIE_MTIE\<rparr>))))))))))"

text \<open>\<open>start\<close> ends with \<open>mret\<close>, which continues at \<open>mepc\<close>.\<close>

definition start :: "u64 k" where
  "start =
     bind (gets syms) (\<lambda>y.
     seq (upd_mcsr (\<lambda>c. c\<lparr>mstatus := (mstatus c AND NOT MSTATUS_MPP_MASK) OR MSTATUS_MPP_S\<rparr>)) (
     seq (upd_mcsr (\<lambda>c. c\<lparr>mepc := k_main y\<rparr>)) (
     seq (upd_csr (\<lambda>c. c\<lparr>satp := 0\<rparr>)) (
     seq (upd_mcsr (\<lambda>c. c\<lparr>medeleg := 0xffff\<rparr>)) (
     seq (upd_mcsr (\<lambda>c. c\<lparr>mideleg := 0xffff\<rparr>)) (
     seq (upd_mcsr (\<lambda>c. c\<lparr>sie := sie c OR SIE_SEIE OR SIE_STIE OR SIE_SSIE\<rparr>)) (
     seq timerinit (
     seq (modify (\<lambda>s. s\<lparr>lks := (lks s)\<lparr>tp := mhartid (mcsr s)\<rparr>\<rparr>))
     (gets (\<lambda>s. mepc (mcsr s)))))))))))"

definition main :: "unit k" where
  "main =
     bind cpuid (\<lambda>id.
     seq (if id = 0 then
       seq consoleinit (
       seq printfinit (
       seq (printf (Some [10]) []) (
       seq (printf (Some (bytes_of ''xv6 kernel is booting'' @ [10])) []) (
       seq (printf (Some [10]) []) (
       seq kinit (
       seq kvminit (
       seq kvminithart (
       seq procinit (
       seq trapinit (
       seq trapinithart (
       seq plicinit (
       seq plicinithart (
       seq binit (
       seq iinit (
       seq fileinit (
       seq virtio_disk_init (
       seq userinit
       (modify (\<lambda>s. s\<lparr>started := True\<rparr>)))))))))))))))))))
     else
       bind (gets started) (\<lambda>st.
       if \<not> st then spin
       else
         seq (printf (Some (bytes_of ''hart %d starting'' @ [10])) [AInt (of_nat id)]) (
         seq kvminithart (
         seq trapinithart
         plicinithart))))
     scheduler)"

end
