(* ===== verification/Ulib.thy ===== *)
theory Ulib
  imports Printf
begin

text \<open>
  User programs and the C library they share: \<open>user/ulib.c\<close> and \<open>user/printf.c\<close>.

  A user program is a tree of system calls.  \<open>Call c k\<close> makes the system call \<open>c\<close> and goes on as
  \<open>k r\<close>, where \<open>r\<close> is what the kernel gave back: the return value and the data it stored through
  the pointers of the call.  \<open>Done x\<close> is a return to the caller, \<open>Exits n\<close> the call of \<open>exit(n)\<close>,
  which does not come back.  \<open>Fuel\<close> is reached only when the bound on the iterations of a
  \<open>while\<close> loop is used up; the theorems show how large the bound has to be.  The child of a \<open>fork\<close> is
  the continuation at return value 0.

  A string argument is its list of characters without the NUL, a character buffer is a
  function of the index, as in the kernel part.  \<open>char\<close> is unsigned on RISC-V.
\<close>

section \<open>System calls and programs\<close>

text \<open>The calls of \<open>user/user.h\<close>; the buffer that \<open>write\<close> is given is passed as its bytes.\<close>

datatype sysc =
    Ufork | Uwait | Upipe | Uwrite int "byte list" | Uread int int | Uclose int | Ukill int
  | Uexec "byte list" "byte list list" | Uopen "byte list" u32 | Umknod "byte list" int int
  | Uunlink "byte list" | Ufstat int | Ulink "byte list" "byte list" | Umkdir "byte list"
  | Uchdir "byte list" | Udup int | Ugetpid | Usbrk int | Usleep int | Uuptime

text \<open>The answer of the kernel: the value in \<open>a0\<close>, the bytes stored by \<open>read\<close>, the descriptors
  stored by \<open>pipe\<close>, the structure stored by \<open>fstat\<close> and the status stored by \<open>wait\<close>.\<close>

record sysres =
  ret :: int
  rdata :: "byte list"
  rfds :: "int \<times> int"
  rstat :: stat
  rstatus :: int

datatype 'a prog = Done 'a | Exits int | Call sysc "sysres \<Rightarrow> 'a prog" | Fuel

primrec pbind :: "'a prog \<Rightarrow> ('a \<Rightarrow> 'b prog) \<Rightarrow> 'b prog" where
  "pbind (Done x) f = f x"
| "pbind (Exits n) f = Exits n"
| "pbind (Call c k) f = Call c (\<lambda>r. pbind (k r) f)"
| "pbind Fuel f = Fuel"

definition pseq :: "'a prog \<Rightarrow> 'b prog \<Rightarrow> 'b prog" where
  "pseq p q = pbind p (\<lambda>_. q)"

fun pforM :: "'a list \<Rightarrow> ('a \<Rightarrow> unit prog) \<Rightarrow> unit prog" where
  "pforM [] f = Done ()"
| "pforM (x # xs) f = pseq (f x) (pforM xs f)"

text \<open>
  A run of a program against the answers \<open>rs\<close> of the kernel: the calls made with their answers,
  and how it stopped.  It is \<open>Waiting c\<close> when the answers are used up before the call \<open>c\<close>
  returned.
\<close>

datatype 'a stop = Returned 'a | Exited int | Waiting sysc | OutOfFuel

fun run :: "'a prog \<Rightarrow> sysres list \<Rightarrow> (sysc \<times> sysres) list \<times> 'a stop" where
  "run (Done x) rs = ([], Returned x)"
| "run (Exits n) rs = ([], Exited n)"
| "run Fuel rs = ([], OutOfFuel)"
| "run (Call c k) [] = ([], Waiting c)"
| "run (Call c k) (r # rs) = (let (tr, e) = run (k r) rs in ((c, r) # tr, e))"

text \<open>The bytes written to, and read from, a descriptor in a run.\<close>

fun written :: "int \<Rightarrow> (sysc \<times> sysres) list \<Rightarrow> byte list" where
  "written fd [] = []"
| "written fd ((c, r) # tr) =
     (case c of Uwrite f bs \<Rightarrow> if f = fd then bs else [] | _ \<Rightarrow> []) @ written fd tr"

fun received :: "int \<Rightarrow> (sysc \<times> sysres) list \<Rightarrow> byte list" where
  "received fd [] = []"
| "received fd ((c, r) # tr) =
     (case c of Uread f n \<Rightarrow> if f = fd then rdata r else [] | _ \<Rightarrow> []) @ received fd tr"

text \<open>What the data stored by \<open>read\<close> makes of the buffer it was given at \<open>off\<close>.\<close>

definition store :: "(nat \<Rightarrow> byte) \<Rightarrow> nat \<Rightarrow> byte list \<Rightarrow> nat \<Rightarrow> byte" where
  "store buf off bs i = (if off \<le> i \<and> i < off + length bs then bs ! (i - off) else buf i)"

definition bytes_at :: "(nat \<Rightarrow> byte) \<Rightarrow> nat \<Rightarrow> nat \<Rightarrow> byte list" where
  "bytes_at buf i n = map buf [i..<i + n]"

section \<open>ulib.c\<close>

fun strcpy_from :: "(nat \<Rightarrow> byte) \<Rightarrow> nat \<Rightarrow> byte list \<Rightarrow> nat \<Rightarrow> byte" where
  "strcpy_from s i [] = s(i := 0)"
| "strcpy_from s i (c # t) = strcpy_from (s(i := c)) (Suc i) t"

definition strcpy :: "(nat \<Rightarrow> byte) \<Rightarrow> byte list \<Rightarrow> nat \<Rightarrow> byte" where
  "strcpy s t = strcpy_from s 0 t"

fun strcmp :: "byte list \<Rightarrow> byte list \<Rightarrow> int" where
  "strcmp (p # ps) (q # qs) = (if p = q then strcmp ps qs else uint p - uint q)"
| "strcmp (p # ps) [] = uint p"
| "strcmp [] (q # qs) = - uint q"
| "strcmp [] [] = 0"

fun ustrlen :: "byte list \<Rightarrow> nat" where
  "ustrlen [] = 0"
| "ustrlen (c # s) = Suc (ustrlen s)"

fun umemset_from :: "(nat \<Rightarrow> byte) \<Rightarrow> nat \<Rightarrow> byte \<Rightarrow> nat \<Rightarrow> nat \<Rightarrow> byte" where
  "umemset_from dst i c 0 = dst"
| "umemset_from dst i c (Suc n) = umemset_from (dst(i := c)) (Suc i) c n"

definition umemset :: "(nat \<Rightarrow> byte) \<Rightarrow> int \<Rightarrow> u32 \<Rightarrow> nat \<Rightarrow> byte" where
  "umemset dst c n = umemset_from dst 0 (word_of_int c) (unat n)"

text \<open>\<open>strchr\<close> returns the pointer to the first \<open>c\<close>, that is the string from there on.  It never
  finds the terminating NUL.\<close>

fun strchr :: "byte list \<Rightarrow> byte \<Rightarrow> byte list option" where
  "strchr [] c = None"
| "strchr (x # s) c = (if x = c then Some (x # s) else strchr s c)"

definition in_chars :: "byte list \<Rightarrow> byte \<Rightarrow> bool" where
  "in_chars s c = (strchr s c \<noteq> None)"

text \<open>\<open>gets\<close>: at most \<open>max - 1\<close> characters are read, one \<open>read\<close> each, so \<open>n\<close> counts down from there.\<close>

fun gets_loop :: "nat \<Rightarrow> nat \<Rightarrow> byte \<Rightarrow> (nat \<Rightarrow> byte) \<Rightarrow> (nat \<Rightarrow> byte) prog" where
  "gets_loop 0 i c buf = Done (buf(i := 0))"
| "gets_loop (Suc n) i c buf =
     Call (Uread 0 1) (\<lambda>r.
       if ret r < 1 then Done (buf(i := 0))
       else let c1 = (if rdata r = [] then c else hd (rdata r)); buf1 = buf(i := c1) in
         if c1 = 10 \<or> c1 = 13 then Done (buf1(Suc i := 0)) else gets_loop n (Suc i) c1 buf1)"

definition ugets :: "(nat \<Rightarrow> byte) \<Rightarrow> int \<Rightarrow> (nat \<Rightarrow> byte) prog" where
  "ugets buf mx = gets_loop (nat (mx - 1)) 0 0 buf"

text \<open>\<open>stat\<close> returns its result and the structure the caller passed, filled in by \<open>fstat\<close>.\<close>

definition ustat :: "byte list \<Rightarrow> (int \<times> stat) prog" where
  "ustat n =
     Call (Uopen n O_RDONLY) (\<lambda>r.
       if ret r < 0 then Done (-1, rstat r)
       else Call (Ufstat (ret r)) (\<lambda>r1.
            Call (Uclose (ret r)) (\<lambda>_. Done (ret r1, rstat r1))))"

fun atoi_from :: "int \<Rightarrow> byte list \<Rightarrow> int" where
  "atoi_from n [] = n"
| "atoi_from n (c # s) =
     (if 48 \<le> c \<and> c \<le> 57 then atoi_from (n * 10 + uint c - 48) s else n)"

definition atoi :: "byte list \<Rightarrow> int" where
  "atoi s = atoi_from 0 s"

text \<open>\<open>memmove\<close> compares the pointers only, so it also copies downwards for regions apart.\<close>

definition umemmove :: "u64 \<Rightarrow> u64 \<Rightarrow> int \<Rightarrow> memory \<Rightarrow> memory" where
  "umemmove dst src n m =
     (if src > dst then memmove_up dst src (nat n) m
      else memmove_down (dst + word_of_int n) (src + word_of_int n) (nat n) m)"

fun umemcmp :: "(nat \<Rightarrow> byte) \<Rightarrow> (nat \<Rightarrow> byte) \<Rightarrow> nat \<Rightarrow> nat \<Rightarrow> int" where
  "umemcmp s1 s2 i 0 = 0"
| "umemcmp s1 s2 i (Suc n) =
     (if s1 i \<noteq> s2 i then uint (s1 i) - uint (s2 i) else umemcmp s1 s2 (Suc i) n)"

definition umemcpy :: "u64 \<Rightarrow> u64 \<Rightarrow> u32 \<Rightarrow> memory \<Rightarrow> memory" where
  "umemcpy dst src n m = umemmove dst src (sint n) m"

section \<open>printf.c\<close>

definition putc :: "int \<Rightarrow> byte \<Rightarrow> unit prog" where
  "putc fd c = Call (Uwrite fd [c]) (\<lambda>_. Done ())"

definition udigit :: "nat \<Rightarrow> byte" where
  "udigit d = bytes_of ''0123456789ABCDEF'' ! d"

text \<open>The characters as the \<open>do\<close> loop leaves them in \<open>buf\<close>, least significant first.\<close>

function udigits_rev :: "nat \<Rightarrow> nat \<Rightarrow> byte list" where
  "udigits_rev base x =
     udigit (x mod base) # (if x div base = 0 \<or> base < 2 then [] else udigits_rev base (x div base))"
  by pat_completeness auto

termination
proof (relation "measure snd")
  fix base x :: nat
  assume "\<not> (x div base = 0 \<or> base < 2)"
  then have "0 < x" "1 < base"
    by (auto intro: gr0I)
  then show "((base, x div base), base, x) \<in> measure snd"
    by simp
qed simp

declare udigits_rev.simps [simp del]

definition uprintint_buf :: "u32 \<Rightarrow> nat \<Rightarrow> bool \<Rightarrow> byte list" where
  "uprintint_buf xx base sign =
     (let neg = (sign \<and> sint xx < 0);
          x = (if neg then - xx else xx)
      in udigits_rev base (unat x) @ (if neg then [45] else []))"

definition uprintint :: "int \<Rightarrow> u32 \<Rightarrow> nat \<Rightarrow> bool \<Rightarrow> unit prog" where
  "uprintint fd xx base sign = pforM (rev (uprintint_buf xx base sign)) (putc fd)"

definition uprintptr :: "int \<Rightarrow> u64 \<Rightarrow> unit prog" where
  "uprintptr fd x =
     pseq (putc fd 48) (
     pseq (putc fd 120)
     (pforM [0..<16] (\<lambda>i. putc fd (udigit (unat (drop_bit 60 (push_bit (4 * i) x)))))))"

text \<open>\<open>pct\<close> is the variable \<open>state\<close>: whether the character before was an open \<open>%\<close>.\<close>

fun vprintf_from :: "int \<Rightarrow> bool \<Rightarrow> byte list \<Rightarrow> fmtarg list \<Rightarrow> unit prog" where
  "vprintf_from fd pct [] as = Done ()"
| "vprintf_from fd False (c # cs) as =
     (if c = 37 then vprintf_from fd True cs as
      else pseq (putc fd c) (vprintf_from fd False cs as))"
| "vprintf_from fd True (c # cs) as =
     (if c = 100 then pseq (uprintint fd (va_int as) 10 True) (vprintf_from fd False cs (tl as))
      else if c = 108 then
        pseq (uprintint fd (ucast (va_ptr as)) 10 False) (vprintf_from fd False cs (tl as))
      else if c = 120 then
        pseq (uprintint fd (va_int as) 16 False) (vprintf_from fd False cs (tl as))
      else if c = 112 then pseq (uprintptr fd (va_ptr as)) (vprintf_from fd False cs (tl as))
      else if c = 115 then pseq (pforM (va_str as) (putc fd)) (vprintf_from fd False cs (tl as))
      else if c = 99 then pseq (putc fd (ucast (va_int as))) (vprintf_from fd False cs (tl as))
      else if c = 37 then pseq (putc fd c) (vprintf_from fd False cs as)
      else pseq (putc fd 37) (pseq (putc fd c) (vprintf_from fd False cs as)))"

definition vprintf :: "int \<Rightarrow> byte list \<Rightarrow> fmtarg list \<Rightarrow> unit prog" where
  "vprintf fd fmt as = vprintf_from fd False fmt as"

definition fprintf :: "int \<Rightarrow> byte list \<Rightarrow> fmtarg list \<Rightarrow> unit prog" where
  "fprintf fd fmt as = vprintf fd fmt as"

definition uprintf :: "byte list \<Rightarrow> fmtarg list \<Rightarrow> unit prog" where
  "uprintf fmt as = vprintf 1 fmt as"

text \<open>A message without conversions, with the newline that ends most of them.\<close>

abbreviation (input) line :: "string \<Rightarrow> byte list" where
  "line cs \<equiv> bytes_of cs @ [10]"

abbreviation (input) arg_str :: "byte list \<Rightarrow> fmtarg" where
  "arg_str s \<equiv> AStr (Some s)"

abbreviation (input) arg_int :: "int \<Rightarrow> fmtarg" where
  "arg_int i \<equiv> AInt (word_of_int i)"

section \<open>Properties of programs and runs\<close>

lemma pbind_assoc: "pbind (pbind p f) g = pbind p (\<lambda>x. pbind (f x) g)"
  by (induction p) auto

lemma pseq_simps [simp]:
  "pseq (Done x) q = q" "pseq (Exits n) q = Exits n"
  "pseq (Call c k) q = Call c (\<lambda>r. pseq (k r) q)" "pseq Fuel q = Fuel"
  by (simp_all add: pseq_def)

lemma pseq_assoc: "pseq (pseq p q) r = pseq p (pseq q r)"
  by (simp add: pseq_def pbind_assoc)

lemma pbind_pseq: "pbind (pseq p q) f = pseq p (pbind q f)"
  by (simp add: pseq_def pbind_assoc)

lemma pforM_append: "pforM (xs @ ys) f = pseq (pforM xs f) (pforM ys f)"
  by (induction xs) (simp_all add: pseq_assoc)

lemma written_append: "written fd (t1 @ t2) = written fd t1 @ written fd t2"
  by (induction t1 rule: written.induct) auto

lemma received_append: "received fd (t1 @ t2) = received fd t1 @ received fd t2"
  by (induction t1 rule: received.induct) auto

lemma run_length: "length (fst (run p rs)) \<le> length rs"
  by (induction p rs rule: run.induct) (auto split: prod.splits)


lemma run_pbind:
  "run (pbind p f) rs = (case run p rs of (tr, e) \<Rightarrow> (case e of
      Returned x \<Rightarrow> (case run (f x) (drop (length tr) rs) of (tr', e') \<Rightarrow> (tr @ tr', e'))
    | Exited n \<Rightarrow> (tr, Exited n) | Waiting c \<Rightarrow> (tr, Waiting c) | OutOfFuel \<Rightarrow> (tr, OutOfFuel)))"
  by (induction p rs rule: run.induct) (auto split: prod.splits stop.splits)

text \<open>A sequence of writes.\<close>

definition writes :: "int \<Rightarrow> byte list list \<Rightarrow> unit prog" where
  "writes fd bss = pforM bss (\<lambda>bs. Call (Uwrite fd bs) (\<lambda>_. Done ()))"

lemma run_writes:
  assumes "run (pseq (writes fd bss) q) rs = (tr, e)"
  shows "(length rs < length bss \<and> (\<exists>c. e = Waiting c)) \<or>
    (\<exists>tr'. length bss \<le> length rs \<and> run q (drop (length bss) rs) = (tr', e) \<and> tr = zip (map (Uwrite fd) bss) rs @ tr')"
  using assms
proof (induction bss arbitrary: rs tr)
  case Nil
  then show ?case by (simp add: writes_def)
next
  case (Cons bs bss)
  show ?case
  proof (cases rs)
    case Nil
    then show ?thesis using Cons.prems by (auto simp: writes_def)
  next
    case (Cons r rs')
    obtain tr1 where t: "run (pseq (writes fd bss) q) rs' = (tr1, e)" "tr = (Uwrite fd bs, r) # tr1"
      using Cons.prems Cons by (auto simp: writes_def split: prod.splits)
    show ?thesis using Cons.IH [OF t(1)] t(2) Cons by auto
  qed
qed

lemma written_zip:
  assumes "length bss \<le> length rs"
  shows "written fd (zip (map (Uwrite fd) bss) rs) = concat bss" "received fd' (zip (map (Uwrite fd) bss) rs) = []"
  using assms
proof (induction bss arbitrary: rs)
  case (Cons bs bss)
  case 1
  then show ?case using Cons.IH(1) by (cases rs) simp_all
  case 2
  then show ?case using Cons.IH(2) by (cases rs) simp_all
qed simp_all

text \<open>The answers to the reads of \<open>fd\<close> are as \<open>read\<close> promises: at most as many bytes as asked for, and as
  many bytes as the return value says.\<close>

fun reads_ok :: "int \<Rightarrow> (sysc \<times> sysres) list \<Rightarrow> bool" where
  "reads_ok fd [] = True"
| "reads_ok fd ((c, r) # tr) =
     ((case c of Uread f n \<Rightarrow> f = fd \<longrightarrow> ret r \<le> n \<and> length (rdata r) = nat (ret r) | _ \<Rightarrow> True) \<and> reads_ok fd tr)"

lemma reads_ok_append: "reads_ok fd (t1 @ t2) = (reads_ok fd t1 \<and> reads_ok fd t2)"
  by (induction fd t1 rule: reads_ok.induct) auto

end
