(* ===== verification/Grep.thy ===== *)
theory Grep
  imports Ulib
begin

text \<open>
  \<open>user/grep.c\<close>: the matcher for patterns with \<open>^\<close>, \<open>.\<close>, \<open>*\<close> and \<open>$\<close>, and the loop that reads the input in
  pieces and prints the lines that match.  Patterns and texts are lists of characters without
  the NUL, the global \<open>buf\<close> is an array of 1024 characters.
\<close>

section \<open>The matcher\<close>

fun matchhere :: "byte list \<Rightarrow> byte list \<Rightarrow> bool"
  and matchstar :: "byte \<Rightarrow> byte list \<Rightarrow> byte list \<Rightarrow> bool" where
  "matchhere [] s = True"
| "matchhere (c # re) s =
     (if array_of (c # re) 1 = 42 then matchstar c (tl re) s
      else if c = 36 \<and> re = [] then s = []
      else if s \<noteq> [] \<and> (c = 46 \<or> c = hd s) then matchhere re (tl s)
      else False)"
| "matchstar c re s =
     (if matchhere re s then True
      else if s \<noteq> [] \<and> (hd s = c \<or> c = 46) then matchstar c re (tl s)
      else False)"

text \<open>The loop of \<open>match\<close>, which also looks at the empty string at the end.\<close>

fun match_from :: "byte list \<Rightarrow> byte list \<Rightarrow> bool" where
  "match_from re s =
     (if matchhere re s then True
      else if s \<noteq> [] then match_from re (tl s)
      else False)"

definition match_re :: "byte list \<Rightarrow> byte list \<Rightarrow> bool" where
  "match_re re s = (if array_of re 0 = 94 then matchhere (tl re) s else match_from re s)"

declare matchhere.simps(2) [simp del] matchstar.simps [simp del] match_from.simps [simp del]

section \<open>The language of a pattern\<close>

datatype item = Atom byte | Star byte

text \<open>A pattern without the leading \<open>^\<close>: its items, and whether it ends in \<open>$\<close>.\<close>

fun items :: "byte list \<Rightarrow> item list \<times> bool" where
  "items [] = ([], False)"
| "items [c] = (if c = 36 then ([], True) else ([Atom c], False))"
| "items (c # d # re) =
     (if d = 42 then (case items re of (its, e) \<Rightarrow> (Star c # its, e))
      else (case items (d # re) of (its, e) \<Rightarrow> (Atom c # its, e)))"

definition covers :: "byte \<Rightarrow> byte \<Rightarrow> bool" where
  "covers c x = (c = 46 \<or> c = x)"

inductive lang :: "item list \<Rightarrow> byte list \<Rightarrow> bool" where
  lang_nil: "lang [] []"
| lang_atom: "covers c x \<Longrightarrow> lang its u \<Longrightarrow> lang (Atom c # its) (x # u)"
| lang_star: "\<forall>x \<in> set xs. covers c x \<Longrightarrow> lang its u \<Longrightarrow> lang (Star c # its) (xs @ u)"

inductive_simps lang_simps: "lang [] u" "lang (Atom c # its) u" "lang (Star c # its) u"

definition anchored :: "byte list \<Rightarrow> bool" where
  "anchored re = (re \<noteq> [] \<and> hd re = 94)"

definition body :: "byte list \<Rightarrow> byte list" where
  "body re = (if anchored re then tl re else re)"

text \<open>\<open>re\<close> matches \<open>text\<close>: some part of \<open>text\<close> is in the language of \<open>re\<close>, at the start if \<open>re\<close> begins with
  \<open>^\<close> and at the end if it ends in \<open>$\<close>.\<close>

definition matches :: "byte list \<Rightarrow> byte list \<Rightarrow> bool" where
  "matches re s =
     (\<exists>w u v. s = w @ u @ v \<and> lang (fst (items (body re))) u
        \<and> (anchored re \<longrightarrow> w = []) \<and> (snd (items (body re)) \<longrightarrow> v = []))"

definition prefix_matches :: "byte list \<Rightarrow> byte list \<Rightarrow> bool" where
  "prefix_matches re s =
     (\<exists>u v. s = u @ v \<and> lang (fst (items re)) u \<and> (snd (items re) \<longrightarrow> v = []))"

lemma prefix_nil: "prefix_matches [] s"
  by (auto simp: prefix_matches_def lang_simps)

lemma prefix_end: "prefix_matches [36] s \<longleftrightarrow> s = []"
  by (auto simp: prefix_matches_def lang_simps)

lemma prefix_star:
  "prefix_matches (c # 42 # re) s \<longleftrightarrow>
     (\<exists>xs v. s = xs @ v \<and> (\<forall>x \<in> set xs. covers c x) \<and> prefix_matches re v)"
proof -
  obtain its e where i: "items re = (its, e)" by (cases "items re")
  show ?thesis
  proof
    assume "prefix_matches (c # 42 # re) s"
    then obtain w v where w: "s = w @ v" "lang (Star c # its) w" "e \<longrightarrow> v = []"
      by (simp add: prefix_matches_def i) blast
    from w(2) obtain xs u where "w = xs @ u" "\<forall>x \<in> set xs. covers c x" "lang its u"
      by (simp add: lang_simps) blast
    note w(1,3) this
    then show "\<exists>xs v. s = xs @ v \<and> (\<forall>x \<in> set xs. covers c x) \<and> prefix_matches re v"
      by (intro exI [of _ xs] exI [of _ "u @ v"]) (auto simp: prefix_matches_def i)
  next
    assume "\<exists>xs v. s = xs @ v \<and> (\<forall>x \<in> set xs. covers c x) \<and> prefix_matches re v"
    then obtain xs u w where "s = xs @ u @ w" "\<forall>x \<in> set xs. covers c x" "lang its u" "e \<longrightarrow> w = []"
      by (auto simp: prefix_matches_def i)
    then show "prefix_matches (c # 42 # re) s"
      unfolding prefix_matches_def by (intro exI [of _ "xs @ u"] exI [of _ w]) (auto simp: i intro: lang_star)
  qed
qed

lemma prefix_atom:
  assumes "array_of (c # re) 1 \<noteq> 42" "\<not> (c = 36 \<and> re = [])"
  shows "prefix_matches (c # re) s \<longleftrightarrow>
     (\<exists>x v. s = x # v \<and> covers c x \<and> prefix_matches re v)"
proof -
  have "items (c # re) = (case items re of (its, e) \<Rightarrow> (Atom c # its, e))"
    using assms by (cases re) (auto simp: array_of_def)
  then obtain its e where i: "items re = (its, e)" "items (c # re) = (Atom c # its, e)"
    by (cases "items re") auto
  show ?thesis
  proof
    assume "prefix_matches (c # re) s"
    then obtain w v where w: "s = w @ v" "lang (Atom c # its) w" "e \<longrightarrow> v = []"
      by (simp add: prefix_matches_def i) blast
    from w(2) obtain x u where "w = x # u" "covers c x" "lang its u"
      by (simp add: lang_simps) blast
    note w(1,3) this
    then show "\<exists>x v. s = x # v \<and> covers c x \<and> prefix_matches re v"
      by (intro exI [of _ x] exI [of _ "u @ v"]) (auto simp: prefix_matches_def i)
  next
    assume "\<exists>x v. s = x # v \<and> covers c x \<and> prefix_matches re v"
    then obtain x u w where "s = x # u @ w" "covers c x" "lang its u" "e \<longrightarrow> w = []"
      by (auto simp: prefix_matches_def i)
    then show "prefix_matches (c # re) s"
      unfolding prefix_matches_def by (intro exI [of _ "x # u"] exI [of _ w]) (auto simp: i intro: lang_atom)
  qed
qed

lemma star_unfold:
  "(\<exists>xs v. s = xs @ v \<and> (\<forall>x \<in> set xs. covers c x) \<and> P v) \<longleftrightarrow>
     P s \<or> (s \<noteq> [] \<and> covers c (hd s)
       \<and> (\<exists>xs v. tl s = xs @ v \<and> (\<forall>x \<in> set xs. covers c x) \<and> P v))"
  (is "?L s \<longleftrightarrow> ?R s")
proof
  assume "?L s"
  then obtain xs v where "s = xs @ v" "\<forall>x \<in> set xs. covers c x" "P v" by blast
  then show "?R s" by (cases xs) auto
next
  assume R: "?R s"
  show "?L s"
  proof (cases "P s")
    case True
    then show ?thesis by (metis append_Nil empty_iff list.set(1))
  next
    case False
    then obtain xs v where "s \<noteq> []" "covers c (hd s)" "tl s = xs @ v"
      "\<forall>x \<in> set xs. covers c x" "P v" using R by blast
    then have "s = (hd s # xs) @ v" "\<forall>x \<in> set (hd s # xs). covers c x"
      by (cases s, simp_all)+
    then show ?thesis using \<open>P v\<close> by blast
  qed
qed

lemma matcher_correct:
  shows "matchhere re s \<longleftrightarrow> prefix_matches re s"
    and "matchstar c re s \<longleftrightarrow>
      (\<exists>xs v. s = xs @ v \<and> (\<forall>x \<in> set xs. covers c x) \<and> prefix_matches re v)"
proof (induction re s and c re s rule: matchhere_matchstar.induct)
  case (1 s)
  then show ?case by (simp add: prefix_nil)
next
  case (2 c re s)
  show ?case
  proof (cases "array_of (c # re) 1 = 42")
    case True
    then obtain re' where "re = 42 # re'"
      by (cases re) (auto simp: array_of_def)
    then show ?thesis
      using True 2(1) by (simp add: matchhere.simps(2) prefix_star)
  next
    case False
    note F = this
    show ?thesis
    proof (cases "c = 36 \<and> re = []")
      case True
      then show ?thesis using F by (simp add: matchhere.simps(2) prefix_end)
    next
      case nend: False
      show ?thesis
        using 2(2) [OF F nend]
        by (subst prefix_atom [OF F nend], cases s)
          (use F nend in \<open>auto simp: matchhere.simps(2) covers_def\<close>)
    qed
  qed
next
  case (3 c re s)
  show ?case
    by (subst star_unfold, subst matchstar.simps)
      (use 3 in \<open>auto simp: covers_def\<close>)
qed

lemma match_from_correct:
  "match_from re s \<longleftrightarrow> (\<exists>w v. s = w @ v \<and> prefix_matches re v)"
proof (induction s)
  case Nil
  then show ?case by (subst match_from.simps) (simp add: matcher_correct(1))
next
  case (Cons x s)
  have "(\<exists>w v. x # s = w @ v \<and> prefix_matches re v) \<longleftrightarrow>
    prefix_matches re (x # s) \<or> (\<exists>w v. s = w @ v \<and> prefix_matches re v)"
    by (auto simp: Cons_eq_append_conv)
  then show ?case
    using Cons by (subst match_from.simps) (auto simp: matcher_correct(1))
qed

lemma match_iff: "match_re re s \<longleftrightarrow> matches re s"
proof (cases "anchored re")
  case True
  then show ?thesis
    by (cases re) (auto simp: match_re_def anchored_def array_of_def matches_def body_def
        matcher_correct(1) prefix_matches_def)
next
  case False
  then have "array_of re 0 \<noteq> 94"
    by (cases re) (auto simp: anchored_def array_of_def)
  then show ?thesis
    using False by (simp add: match_re_def match_from_correct prefix_matches_def matches_def body_def)
      (metis append_assoc)
qed

text \<open>C35: \<open>match\<close> decides the language of the pattern: it returns true exactly when some part of the
  text is described by the pattern (at the start of the text under \<open>^\<close>, at its end under \<open>$\<close>),
  for every pattern and every text; in particular it always returns.\<close>

theorem match_correct: "match_re re s \<longleftrightarrow> matches re s"
  by (rule match_iff)

section \<open>The loop over the input\<close>

text \<open>The string that starts at \<open>p\<close> of the buffer.\<close>

definition cstr :: "(nat \<Rightarrow> byte) \<Rightarrow> nat \<Rightarrow> byte list" where
  "cstr buf p = takeWhile (\<lambda>c. c \<noteq> 0) (map buf [p..<1024])"

lemma cstr_length: "length (cstr buf p) \<le> 1024 - p"
  unfolding cstr_def by (rule order_trans [OF length_takeWhile_le]) simp

lemma strchr_length: "strchr s c = Some t \<Longrightarrow> 0 < length t \<and> length t \<le> length s"
  by (induction s) (auto split: if_splits)

text \<open>The inner \<open>while\<close> loop: \<open>p\<close> and the buffer after it.\<close>

function grep_lines ::
  "byte list \<Rightarrow> nat \<Rightarrow> (nat \<Rightarrow> byte) \<Rightarrow> (nat \<times> (nat \<Rightarrow> byte)) prog" where
  "grep_lines pattern p buf =
     (case strchr (cstr buf p) 10 of
        None \<Rightarrow> Done (p, buf)
      | Some s \<Rightarrow>
          let q = p + (length (cstr buf p) - length s); buf1 = buf(q := 0)
          in if match_re pattern (cstr buf1 p)
             then let buf2 = buf1(q := 10)
                  in Call (Uwrite 1 (bytes_at buf2 p (q + 1 - p)))
                       (\<lambda>_. grep_lines pattern (q + 1) buf2)
             else grep_lines pattern (q + 1) buf1)"
  by pat_completeness auto

termination
proof (relation "measure (\<lambda>(pattern, p, buf). 1024 - p)", goal_cases)
  case (2 pattern p buf s q buf1 buf2 r)
  then show ?case
    using cstr_length [of buf p] strchr_length [of "cstr buf p" 10 s] by (cases s) simp_all
next
  case (3 pattern p buf s q buf1)
  then show ?case
    using cstr_length [of buf p] strchr_length [of "cstr buf p" 10 s] by (cases s) simp_all
qed simp


declare grep_lines.simps [simp del]

text \<open>\<open>memmove(buf, p, m)\<close> on the elements of one array.\<close>

definition array_move :: "(nat \<Rightarrow> byte) \<Rightarrow> nat \<Rightarrow> nat \<Rightarrow> nat \<Rightarrow> nat \<Rightarrow> byte" where
  "array_move buf d s n i = (if d \<le> i \<and> i < d + n then buf (s + (i - d)) else buf i)"

fun grep_loop :: "nat \<Rightarrow> byte list \<Rightarrow> int \<Rightarrow> nat \<Rightarrow> (nat \<Rightarrow> byte) \<Rightarrow> (nat \<Rightarrow> byte) prog" where
  "grep_loop 0 pattern fd m buf = Fuel"
| "grep_loop (Suc fuel) pattern fd m buf =
     Call (Uread fd (1024 - int m - 1)) (\<lambda>r.
       if 0 < ret r then
         let m1 = m + nat (ret r); buf1 = (store buf m (rdata r))(m1 := 0)
         in pbind (grep_lines pattern 0 buf1) (\<lambda>(p, buf2).
              if 0 < m1
              then let m2 = m1 - p in grep_loop fuel pattern fd m2 (array_move buf2 0 p m2)
              else grep_loop fuel pattern fd m1 buf2)
       else Done buf)"

definition grep :: "nat \<Rightarrow> byte list \<Rightarrow> int \<Rightarrow> (nat \<Rightarrow> byte) \<Rightarrow> (nat \<Rightarrow> byte) prog" where
  "grep fuel pattern fd buf = grep_loop fuel pattern fd 0 buf"

fun grep_files :: "nat \<Rightarrow> byte list \<Rightarrow> byte list list \<Rightarrow> (nat \<Rightarrow> byte) \<Rightarrow> unit prog" where
  "grep_files fuel pattern [] buf = Exits 0"
| "grep_files fuel pattern (a # as) buf =
     Call (Uopen a 0) (\<lambda>r.
       if ret r < 0 then pseq (uprintf (line ''grep: cannot open %s'') [arg_str a]) (Exits 1)
       else pbind (grep fuel pattern (ret r) buf) (\<lambda>buf1.
            Call (Uclose (ret r)) (\<lambda>_. grep_files fuel pattern as buf1)))"

definition grep_main :: "nat \<Rightarrow> byte list list \<Rightarrow> unit prog" where
  "grep_main fuel argv =
     (if length argv \<le> 1 then pseq (fprintf 2 (line ''usage: grep pattern [file ...]'') []) (Exits 1)
      else if length argv \<le> 2 then pbind (grep fuel (argv ! 1) 0 (\<lambda>_. 0)) (\<lambda>_. Exits 0)
      else grep_files fuel (argv ! 1) (drop 2 argv) (\<lambda>_. 0))"

section \<open>What grep prints\<close>

text \<open>The complete lines of a text, and what follows the last newline.\<close>

fun split_nl :: "byte list \<Rightarrow> byte list \<Rightarrow> byte list list \<times> byte list" where
  "split_nl acc [] = ([], acc)"
| "split_nl acc (c # cs) =
     (if c = 10 then (case split_nl [] cs of (ls, r) \<Rightarrow> (acc # ls, r)) else split_nl (acc @ [c]) cs)"

definition matching :: "byte list \<Rightarrow> byte list list \<Rightarrow> byte list" where
  "matching re ls = concat (map (\<lambda>l. l @ [10]) (filter (matches re) ls))"

lemma split_nl_append:
  "split_nl acc (xs @ ys) = (case split_nl acc xs of (ls, r) \<Rightarrow> (case split_nl r ys of (ls', r') \<Rightarrow> (ls @ ls', r')))"
  by (induction xs arbitrary: acc) (auto split: prod.splits)

lemma split_nl_none: "10 \<notin> set xs \<Longrightarrow> split_nl acc xs = ([], acc @ xs)"
  by (induction xs arbitrary: acc) auto

lemma split_nl_line: "10 \<notin> set l \<Longrightarrow> split_nl [] (l @ 10 # xs) = (case split_nl [] xs of (ls, r) \<Rightarrow> (l # ls, r))"
  by (simp add: split_nl_append split_nl_none split: prod.splits)

lemma split_nl_rest: "10 \<notin> set acc \<Longrightarrow> 10 \<notin> set (snd (split_nl acc xs))"
proof (induction xs arbitrary: acc)
  case (Cons c cs)
  show ?case using Cons.IH [of "[]"] Cons.IH [of "acc @ [c]"] Cons.prems by (cases "split_nl [] cs") simp
qed simp

lemma split_nl_set: "set (snd (split_nl acc xs)) \<subseteq> set acc \<union> set xs"
proof (induction xs arbitrary: acc)
  case (Cons c cs)
  show ?case using Cons.IH [of "[]"] Cons.IH [of "acc @ [c]"] by (cases "split_nl [] cs") auto
qed simp

lemma split_nl_pend: "10 \<notin> set acc \<Longrightarrow> split_nl acc xs = split_nl [] (acc @ xs)"
  by (simp add: split_nl_append split_nl_none split: prod.splits)

lemma strchr_split:
  "strchr s c = (if c \<in> set s then Some (dropWhile (\<lambda>x. x \<noteq> c) s) else None)"
  by (induction s) auto



lemma bytes_at_length [simp]: "length (bytes_at buf i n) = n"
  by (simp add: bytes_at_def)

lemma bytes_at_append: "bytes_at buf i (m + n) = bytes_at buf i m @ bytes_at buf (i + m) n"
  unfolding bytes_at_def add.assoc [symmetric] using upt_add_eq_append [of i "i + m" n] by simp

lemma bytes_at_cong: "(\<And>j. i \<le> j \<Longrightarrow> j < i + n \<Longrightarrow> buf j = buf' j) \<Longrightarrow> bytes_at buf i n = bytes_at buf' i n"
  by (simp add: bytes_at_def)

lemma cstr_eq:
  assumes "bytes_at buf p (length xs) = xs" "buf (p + length xs) = 0" "0 \<notin> set xs" "p + length xs < 1024"
  shows "cstr buf p = xs"
proof -
  have "[p..<1024] = [p..<p + length xs] @ (p + length xs) # [Suc (p + length xs)..<1024]"
    using assms(4) upt_add_eq_append [of p "p + length xs" "1024 - (p + length xs)"] by (simp add: upt_conv_Cons)
  then have "map buf [p..<1024] = xs @ 0 # map buf [Suc (p + length xs)..<1024]"
    using assms(1,2) by (simp add: bytes_at_def)
  moreover have "takeWhile (\<lambda>c. c \<noteq> 0) (xs @ 0 # ys) = xs" for ys using assms(3) by (induction xs) auto
  ultimately show ?thesis by (simp add: cstr_def)
qed

lemma grep_lines_eq:
  assumes "bytes_at buf p (length xs) = xs" "buf (p + length xs) = 0" "0 \<notin> set xs" "p + length xs < 1024"
    and "split_nl [] xs = (ls, r)"
  shows "length r \<le> length xs \<and> (\<exists>buf'. bytes_at buf' (p + (length xs - length r)) (length r) = r
    \<and> grep_lines pattern p buf = pseq (writes 1 (map (\<lambda>l. l @ [10]) (filter (match_re pattern) ls)))
        (Done (p + (length xs - length r), buf')))"
  using assms
proof (induction "length xs" arbitrary: xs p buf ls rule: less_induct)
  case less
  have c: "cstr buf p = xs" by (rule cstr_eq) (use less.prems in simp_all)
  show ?case
  proof (cases "10 \<in> set xs")
    case False
    then have "ls = []" "r = xs" using less.prems(5) by (simp_all add: split_nl_none)
    moreover have "grep_lines pattern p buf = Done (p, buf)"
      using False by (subst grep_lines.simps) (simp add: c strchr_split)
    ultimately show ?thesis using less.prems(1) by (auto simp: writes_def)
  next
    case True
    obtain l ys where xs: "xs = l @ 10 # ys" "10 \<notin> set l" using split_list_first [OF True] by blast
    obtain ls' where s: "split_nl [] ys = (ls', r)" "ls = l # ls'"
      using less.prems(5) xs by (auto simp: split_nl_line split: prod.splits)
    let ?q = "p + length l" and ?buf = "buf(p + length l := 0)"
    have d: "dropWhile (\<lambda>x. x \<noteq> 10) xs = 10 # ys" using xs by (simp add: dropWhile_append)
    have b: "bytes_at buf p (length l) = l" "buf ?q = 10" "bytes_at buf (Suc ?q) (length ys) = ys"
      using less.prems(1) bytes_at_append [of buf p "length l" "Suc (length ys)"] bytes_at_append [of buf "p + length l" 1 "length ys"]
      by (simp_all add: xs(1)) (simp_all add: bytes_at_def)
    have cl: "cstr ?buf p = l"
    proof (rule cstr_eq)
      show "bytes_at ?buf p (length l) = l" using b(1) bytes_at_cong [of p "length l" ?buf buf] by simp
    qed (use less.prems xs in auto)
    have rest: "length r \<le> length ys \<and> (\<exists>buf'. bytes_at buf' (Suc ?q + (length ys - length r)) (length r) = r
        \<and> grep_lines pattern (Suc ?q) B = pseq (writes 1 (map (\<lambda>l. l @ [10]) (filter (match_re pattern) ls')))
            (Done (Suc ?q + (length ys - length r), buf')))"
      if "\<And>j. ?q < j \<Longrightarrow> B j = buf j" for B
    proof (rule less.hyps [OF _ _ _ _ _ s(1)])
      show "bytes_at B (Suc ?q) (length ys) = ys" using b(3) bytes_at_cong [of "Suc ?q" "length ys" B buf] that by simp
      show "B (Suc ?q + length ys) = 0" using less.prems(2) that [of "Suc ?q + length ys"] xs by (simp add: add.assoc)
    qed (use less.prems xs in auto)
    have e: "buf(?q := 10) = buf" using b(2) by auto
    have w: "bytes_at buf p (Suc (length l)) = l @ [10]"
      using bytes_at_append [of buf p "length l" 1] b by (simp add: bytes_at_def)
    have pos: "Suc ?q + (length ys - length r) = p + (length xs - length r)" if "length r \<le> length ys"
      using that xs by simp
    have g: "grep_lines pattern p buf = (if match_re pattern l
        then Call (Uwrite 1 (l @ [10])) (\<lambda>_. grep_lines pattern (Suc ?q) buf) else grep_lines pattern (Suc ?q) ?buf)"
    proof -
      have sc: "strchr (cstr buf p) 10 = Some (10 # ys)" using True d by (simp add: c strchr_split)
      have q: "p + (length (cstr buf p) - length (10 # ys)) = ?q" by (simp add: c xs(1))
      show ?thesis by (subst grep_lines.simps) (simp only: sc option.case q Let_def cl, simp add: e w)
    qed
    show ?thesis
    proof (cases "match_re pattern l")
      case True
      then show ?thesis using rest [of buf] pos xs(1) by (auto simp: g s(2) writes_def)
    next
      case False
      then show ?thesis using rest [of ?buf] pos xs(1) by (auto simp: g s(2) writes_def)
    qed
  qed
qed


lemma store_bytes:
  assumes "bytes_at buf 0 m = pend" "length pend = m"
  shows "bytes_at ((store buf m ds)(m + length ds := 0)) 0 (length (pend @ ds)) = pend @ ds"
proof -
  let ?b = "(store buf m ds)(m + length ds := 0)"
  have "bytes_at ?b 0 m = pend" using bytes_at_cong [of 0 m ?b buf] assms by (simp add: store_def)
  moreover have "bytes_at ?b m (length ds) = ds" by (rule nth_equalityI) (simp_all add: bytes_at_def store_def)
  ultimately show ?thesis using bytes_at_append [of ?b 0 m "length ds"] assms(2) by simp
qed

lemma array_move_bytes: "bytes_at (array_move buf 0 p n) 0 n = bytes_at buf p n"
  by (rule nth_equalityI) (simp_all add: bytes_at_def array_move_def)

lemma matching_append: "matching re (ls @ ls') = matching re ls @ matching re ls'"
  by (simp add: matching_def)

lemma split_nl_acc: "split_nl acc xs = (ls, z) \<Longrightarrow> length acc \<le> length (case ls of [] \<Rightarrow> z | l # _ \<Rightarrow> l)"
proof (induction xs arbitrary: acc ls)
  case (Cons c cs)
  show ?case using Cons.prems Cons.IH [of "acc @ [c]" ls] by (cases "c = 10"; cases "split_nl [] cs") auto
qed simp

lemma grep_loop_run:
  assumes "run (grep_loop fuel pattern fd m buf) rs = (tr, e)" "length rs < fuel" "reads_ok fd tr" "0 \<notin> set (received fd tr)"
    and "bytes_at buf 0 m = pend" "length pend = m" "0 \<notin> set pend" "10 \<notin> set pend"
    and "split_nl pend (received fd tr) = (ls, z)" "\<forall>l \<in> set ls. length l < 1023" "length z < 1023" "m < 1023"
  shows "(\<exists>c. e = Waiting c) \<or> (\<exists>b. e = Returned b \<and> written 1 tr = matching pattern ls)"
  using assms
proof (induction fuel arbitrary: m buf rs tr pend ls)
  case (Suc fuel)
  show ?case
  proof (cases rs)
    case Nil
    then show ?thesis using Suc.prems(1) by auto
  next
    case (Cons r rs')
    let ?k = "\<lambda>r. if 0 < ret r then
         let m1 = m + nat (ret r); buf1 = (store buf m (rdata r))(m1 := 0)
         in pbind (grep_lines pattern 0 buf1) (\<lambda>(p, buf2).
              if 0 < m1
              then let m2 = m1 - p in grep_loop fuel pattern fd m2 (array_move buf2 0 p m2)
              else grep_loop fuel pattern fd m1 buf2)
       else Done buf"
    obtain tr1 where t1: "run (?k r) rs' = (tr1, e)" "tr = (Uread fd (1024 - int m - 1), r) # tr1"
      using Suc.prems(1) Cons by (auto split: prod.splits simp del: Let_def)
    have rd: "ret r \<le> 1023 - int m" "length (rdata r) = nat (ret r)" "reads_ok fd tr1" using Suc.prems(3) t1(2) by simp_all
    have rv: "received fd tr = rdata r @ received fd tr1" using t1(2) by simp
    show ?thesis
    proof (cases "0 < ret r")
      case False
      then have "tr1 = []" "e = Returned buf" using t1(1) by simp_all
      moreover have "ls = []" using Suc.prems(9) rv rd(2) False \<open>tr1 = []\<close> by simp
      ultimately show ?thesis using t1(2) by (simp add: matching_def)
    next
      case True
      let ?xs = "pend @ rdata r" and ?buf = "(store buf m (rdata r))(m + nat (ret r) := 0)"
      obtain l1 r1 where s1: "split_nl [] ?xs = (l1, r1)" by (cases "split_nl [] ?xs")
      have sp: "split_nl pend (rdata r) = (l1, r1)" using s1 split_nl_pend [OF Suc.prems(8)] by simp
      obtain l2 where l2: "split_nl r1 (received fd tr1) = (l2, z)" "ls = l1 @ l2"
        using Suc.prems(9) by (auto simp: rv split_nl_append sp split: prod.splits)
      have ok: "bytes_at ?buf 0 (length ?xs) = ?xs" "?buf (0 + length ?xs) = 0" "0 \<notin> set ?xs" "0 + length ?xs < 1024"
        using store_bytes [OF Suc.prems(5,6), of "rdata r"] rd Suc.prems(4,6,7) rv True by simp_all
      obtain buf' where b: "length r1 \<le> length ?xs" "bytes_at buf' (length ?xs - length r1) (length r1) = r1"
        "grep_lines pattern 0 ?buf = pseq (writes 1 (map (\<lambda>l. l @ [10]) (filter (match_re pattern) l1))) (Done (length ?xs - length r1, buf'))"
        using grep_lines_eq [where buf = ?buf and p = 0, OF ok s1, of pattern] by auto
      have len: "m + nat (ret r) = length ?xs" using rd(2) Suc.prems(6) by simp
      let ?q = "grep_loop fuel pattern fd (length r1) (array_move buf' 0 (length ?xs - length r1) (length r1))"
      have k: "?k r = pseq (writes 1 (map (\<lambda>l. l @ [10]) (filter (match_re pattern) l1))) ?q"
        using True b(1) rd(2) by (simp only: if_True Let_def b(3) pbind_pseq pbind.simps prod.case) (auto simp: len)
      let ?w = "map (\<lambda>l. l @ [10]) (filter (match_re pattern) l1)"
      from run_writes [OF t1(1) [unfolded k]] show ?thesis
      proof
        assume "\<exists>tr'. length ?w \<le> length rs' \<and> run ?q (drop (length ?w) rs') = (tr', e) \<and> tr1 = zip (map (Uwrite 1) ?w) rs' @ tr'"
        then obtain tr' where t': "length ?w \<le> length rs'" "run ?q (drop (length ?w) rs') = (tr', e)" "tr1 = zip (map (Uwrite 1) ?w) rs' @ tr'"
          by blast
        have tw: "written 1 tr1 = concat ?w @ written 1 tr'" "received fd tr1 = received fd tr'" "reads_ok fd tr'"
          using written_zip [OF t'(1)] rd(3) unfolding t'(3) by (simp_all add: written_append received_append reads_ok_append)
        have "(\<exists>c. e = Waiting c) \<or> (\<exists>b. e = Returned b \<and> written 1 tr' = matching pattern l2)"
        proof (rule Suc.IH [OF t'(2) _ tw(3)])
          show "length (drop (length ?w) rs') < fuel" using Suc.prems(2) Cons by simp
          show "0 \<notin> set (received fd tr')" using Suc.prems(4) rv tw(2) by simp
          show "bytes_at (array_move buf' 0 (length ?xs - length r1) (length r1)) 0 (length r1) = r1" using b(2) by (simp add: array_move_bytes)
          show "0 \<notin> set r1" using split_nl_set [of "[]" ?xs] s1 ok(3) by auto
          show "10 \<notin> set r1" using split_nl_rest [of "[]" ?xs] s1 by simp
          show "split_nl r1 (received fd tr') = (l2, z)" using l2(1) tw(2) by simp
          show "\<forall>l \<in> set l2. length l < 1023" using Suc.prems(10) l2(2) by simp
          show "length r1 < 1023" using split_nl_acc [OF l2(1)] Suc.prems(10,11) l2(2) by (cases l2) auto
        qed (use Suc.prems(11) in simp_all)
        moreover have "concat ?w = matching pattern l1" by (simp add: matching_def match_iff [abs_def])
        ultimately show ?thesis using t1(2) tw(1) l2(2) by (auto simp: matching_append)
      qed auto
    qed
  qed
qed simp


text \<open>C36: \<open>grep\<close> prints the lines that match, in their order and nothing else, however the input arrives in
  pieces. Let the input contain no NUL and no line of 1023 characters or more. In every run in which \<open>read\<close> keeps its
  promise, when \<open>grep\<close> returns, what it has written to descriptor 1 is the sequence of those complete lines of the data
  it received whose text is in the language of the pattern, each with its newline; what follows
  the last newline is not printed. It makes as many rounds as it needs: with more rounds allowed
  than the kernel has answered calls it has returned or waits for the kernel.\<close>

theorem grep_prints:
  assumes "run (grep fuel pattern fd buf) rs = (tr, e)" "length rs < fuel" "reads_ok fd tr" "0 \<notin> set (received fd tr)"
    and "split_nl [] (received fd tr) = (ls, z)" "\<forall>l \<in> set ls. length l < 1023" "length z < 1023"
  shows "(\<exists>c. e = Waiting c) \<or> (\<exists>b. e = Returned b \<and> written 1 tr = matching pattern ls)"
  by (rule grep_loop_run [OF assms(1) [unfolded grep_def] assms(2-4) _ _ _ _ assms(5-7)]) (simp_all add: bytes_at_def)

definition answer :: "byte list \<Rightarrow> sysres" where
  "answer bs = \<lparr>ret = int (length bs), rdata = bs, rfds = (0, 0),
     rstat = \<lparr>st_dev = 0, st_ino = 0, st_type = 0, st_nlink = 0, st_size = 0\<rparr>, rstatus = 0\<rparr>"

theorem grep_prints_witness:
  "\<exists>tr b. run (grep 5 [98] 3 (\<lambda>_. 0)) [answer [97, 98, 10, 99], answer [], answer []] = (tr, Returned b)
     \<and> written 1 tr = [97, 98, 10]"
proof -
  let ?rs = "[answer [97, 98, 10, 99], answer [], answer []]" and ?B = "(store (\<lambda>_. 0) 0 [97, 98, 10, 99])(4 := 0)"
  have m: "match_re [98] [97, 98]"
    by (simp add: match_re_def array_of_def) (simp add: match_from.simps matchhere.simps(2) array_of_def)
  have b: "bytes_at ?B 0 (length [97, 98, 10, 99]) = [97, 98, 10, 99]" "?B (0 + length [97, 98, 10, 99]) = 0"
    by (simp_all add: bytes_at_def store_def upt_rec)
  obtain buf' where g: "grep_lines [98] 0 ?B = pseq (writes 1 [[97, 98, 10]]) (Done (3, buf'))"
    using grep_lines_eq [where buf = ?B and p = 0 and xs = "[97, 98, 10, 99]" and pattern = "[98]", OF b] m by auto
  obtain tr b where r: "run (grep 5 [98] 3 (\<lambda>_. 0)) ?rs = (tr, Returned b)"
    and tr: "tr = [(Uread 3 1023, answer [97, 98, 10, 99]), (Uwrite 1 [97, 98, 10], answer []), (Uread 3 1022, answer [])]"
    using g by (auto simp: grep_def answer_def numeral_eq_Suc writes_def)
  have "(\<exists>c. Returned b = Waiting c) \<or> (\<exists>b'. Returned b = Returned b' \<and> written 1 tr = matching [98] [[97, 98]])"
    by (rule grep_prints [OF r, where z = "[99]"]) (simp_all add: tr answer_def)
  moreover have "matching [98] [[97, 98]] = [97, 98, 10]" using m by (simp add: matching_def match_iff)
  ultimately show ?thesis using r by auto
qed

end
