(* ===== verification/Spec2Isabelle.thy ===== *)
theory Spec2Isabelle
  imports Trap Grep
begin

text \<open>
  A verification of xv6 for RISC-V: the kernel under \<open>src/kernel\<close>, and the library and the
  program \<open>grep\<close> of user space under \<open>src/user\<close>.

  \<^bold>\<open>The program.\<close>  The kernel starts in \<open>start.c\<close> and \<open>main.c\<close>, which initialise the components and enter
  the scheduler.  User code enters it through traps (\<open>trap.c\<close>, \<open>plic.c\<close>): system calls
  (\<open>syscall.c\<close>, \<open>sysproc.c\<close>, \<open>sysfile.c\<close>), the clock, and device interrupts.  System calls on files go
  through open files (\<open>file.c\<close>) to pipes (\<open>pipe.c\<close>), the console (\<open>console.c\<close>, \<open>uart.c\<close>, \<open>printf.c\<close>)
  or inodes (\<open>fs.c\<close>); the file system runs inside transactions of the redo log (\<open>log.c\<close>), on the
  buffer cache (\<open>bio.c\<close>), on the disk driver (\<open>virtio_disk.c\<close>).  Processes (\<open>proc.c\<close>, \<open>exec.c\<close>) have
  Sv39 page tables (\<open>vm.c\<close>) made of pages from the allocator (\<open>kalloc.c\<close>).  Everything is
  protected by spinlocks (\<open>spinlock.c\<close>) and sleep-locks (\<open>sleeplock.c\<close>).

  \<^bold>\<open>How the code is modelled.\<close>  All global variables of the kernel are the fields of one record
  \<open>kstate\<close> (theory \<open>Types\<close>), each C struct is a record, pointers into a static table are indices
  of that table, and pages are bytes of \<open>mem\<close> at their address.  Unsigned C integers are machine words
  that wrap; a C function is a function in the outcome monad of \<open>Prelude\<close>.  It returns (\<open>Ok\<close>),
  panics with a message (\<open>Panic\<close>), polls for ever something nobody else changes (\<open>Spin\<close>), or gives
  the CPU away in \<open>swtch\<close> (\<open>Swtch s k\<close>: the state that the others find, and the rest of the thread
  as a function of the state in which it is resumed).  Thus a thread that sleeps sees
  everything other threads did in between as an arbitrary new state, restricted only by what
  the theorem says about it.  Four predicates speak about such computations: \<open>wp\<close> (returns, with a
  postcondition), \<open>wlp\<close>, \<open>rt\<close> (returns through all switches, if the environment acts as a
  relation says), \<open>rg\<close> (what holds at each switch, and at the end, under such a relation), and \<open>leads\<close>
  (reaches a switch with a property).  Between two switches a thread runs alone: what other
  harts do meanwhile is excluded by the locks, and that the locks do so under every
  interleaving of atomic actions is \<open>spin_mutual_exclusion\<close>.

  \<^bold>\<open>The theories, in the order of the dependencies.\<close>
  \<^item> \<open>Prelude\<close>: the monad, its calculus, and little-endian loads and stores.  \<open>Types\<close>: constants,
    structs and \<open>kstate\<close>.
  \<^item> \<open>Spinlock\<close> (\<open>spinlock.c\<close>): \<open>acquire\<close> and \<open>release\<close> as functions and as steps of several
    harts; mutual exclusion by rule induction over the step relation, and the bracket lemma that
    reduces a critical section to its body.
  \<^item> \<open>Kstring\<close> (\<open>string.c\<close>): overlapping copies, termination of copied strings.
  \<^item> \<open>Kalloc\<close> (\<open>kalloc.c\<close>): the free list in memory against a list of pages.  The locale
    \<open>page_allocator\<close> states what clients rely on and is interpreted on \<open>kalloc\<close> and \<open>kfree\<close>.
  \<^item> \<open>Vm\<close> (\<open>vm.c\<close>), \<open>Pagetable\<close> and \<open>Usermem\<close>: the functions; page tables as address maps, which
    \<open>mappages\<close> and \<open>uvmunmap\<close> update; user memory as a partial function, which \<open>copyin\<close> and
    \<open>copyout\<close> read and write, and to which they are confined.
  \<^item> \<open>Sched\<close> (first half of \<open>proc.c\<close>): \<open>sleep\<close>, \<open>wakeup\<close> and \<open>kill\<close> on the process table, one
    pass of the scheduler, and that no runnable process is passed over.
  \<^item> \<open>Ring\<close>: the locale \<open>fifo\<close> of a bounded queue with counters that wrap, interpreted on the
    transmit buffer in \<open>Uart\<close> (\<open>uart.c\<close>) and on the pipe in \<open>Pipe\<close> (\<open>pipe.c\<close>).
  \<^item> \<open>Printf\<close> (\<open>printf.c\<close>, \<open>procdump\<close>) and \<open>Console\<close> (\<open>console.c\<close>, \<open>uartintr\<close>): numbers that read
    back, and the line discipline of the console.
  \<^item> \<open>Sleeplock\<close> (\<open>sleeplock.c\<close>) and \<open>Virtio\<close> (\<open>virtio_disk.c\<close>): a request against a device that
    serves the chain it finds in the rings; freeing a chain ends.
  \<^item> \<open>Bio\<close> (\<open>bio.c\<close>): the invariant \<open>bcache\<close> of the list, the reference counts and the contents;
    \<open>bread\<close> returns the current contents of a block.
  \<^item> \<open>Log\<close> (\<open>log.c\<close>) and \<open>Transaction\<close>: atomic commit for a crash between any two block
    writes, absorption, reservation of log space, and the leak of buffers in recovery.
  \<^item> \<open>Fs\<close> (\<open>fs.c\<close>), \<open>Blocks\<close> and \<open>Inodes\<close>: the functions; the block allocator and inodes as
    the running transaction sees them; contents of files; path elements.
  \<^item> \<open>Pipe\<close>, \<open>File\<close> (\<open>file.c\<close>): reads and writes of pipes as queue operations, also across
    sleeps; the panic of a console write that has to wait.
  \<^item> \<open>Proc\<close> (second half of \<open>proc.c\<close>), \<open>Exec\<close> (\<open>exec.c\<close>), \<open>Syscall\<close> (\<open>syscall.c\<close>,
    \<open>sysproc.c\<close>), \<open>Sysfile\<close> (\<open>sysfile.c\<close>), \<open>Trap\<close> (\<open>trap.c\<close>, \<open>plic.c\<close>, \<open>start.c\<close>, \<open>main.c\<close>): the
    rest of the kernel as definitions, without theorems of their own.
  \<^item> \<open>Ulib\<close> (\<open>user/ulib.c\<close>, \<open>user/printf.c\<close>): user programs as trees of system calls.  \<open>Grep\<close>
    (\<open>user/grep.c\<close>): the matcher decides the language of a pattern, and the program prints exactly
    the complete lines in it.

  \<^bold>\<open>Bounds and fuel.\<close>  Loops over tables are bounded by the size of the table.  Loops whose end depends on
  data carry a bound that is part of the definition: \<open>free_chain\<close> gets \<open>NUM + 1\<close> rounds, and
  \<open>free_chain_terminates\<close> shows that they are enough; \<open>freewalk\<close> descends the three levels that an
  Sv39 table has; the loops of \<open>vm.c\<close> over pages end at the latest where \<open>walk\<close> panics, at
  \<open>MAXVA\<close>; \<open>filewrite\<close> gets \<open>n\<close> rounds, as each round but the last writes at least one byte.
  Loops that wait are unbounded: they end in a switch and continue when resumed.  The scheduler
  takes its number of passes as an argument.  \<open>grep\<close> takes the number of rounds of its read loop, and
  \<open>grep_prints\<close> holds for every number above that of the system calls answered.

  \<^bold>\<open>Hypotheses.\<close>  What the hardware does is a parameter: the answers of the UART and of the
  interrupt controller are lists in the state; the disk serves the requests it finds in the
  rings (\<open>disk_env\<close>), one at a time; a crash stops between two block writes.  Theorems about a
  thread that sleeps say in which states it is resumed.

  \<^bold>\<open>Not modelled.\<close>  The assembly files (a context switch is an outcome of the monad, registers are
  not part of the state outside the trap frame), the user programs other than \<open>grep\<close>, \<open>mkfs\<close>,
  and \<open>ramdisk.c\<close>, which the build does not link.  The memory model is sequentially
  consistent, so \<open>__sync_synchronize\<close> has no effect.  Kernel stacks do not exist in the model: the
  request header that \<open>virtio_disk_rw\<close> keeps on its stack, and translates with \<open>kvmpa\<close>, is held by
  its descriptor.  Interrupts arrive where a thread gives up the CPU, not between two
  statements.
\<close>

end
